(* ===== verification/Prelude.thy ===== *)
theory Prelude
  imports Main "HOL-Library.Word" "HOL-Library.Char_ord" "HOL-Library.List_Lexorder"
begin

text \<open>
  What the components share: the type names of the model, the parts of the Go
  standard library the sources use on strings and slices (\<open>strconv.FormatInt\<close>,
  \<open>strings.Split\<close>, \<open>Join\<close>, \<open>TrimSpace\<close>, \<open>LastIndex\<close>, \<open>HasPrefix\<close>,
  \<open>sort.Search\<close>), and generic lemmas on lists and maps.

  A Go string is a list of bytes, here \<open>string\<close>. A result \<open>(v, err)\<close> of a Go
  function is a sum: \<open>Inl err\<close> for a non-nil error (its text), \<open>Inr v\<close>
  otherwise. Times and durations are integers counting nanoseconds.
\<close>

unbundle bit_operations_syntax

type_synonym gostring = string
type_synonym goerror = string
type_synonym 'a result = "goerror + 'a"
type_synonym i64 = "64 word"
type_synonym u64 = "64 word"
type_synonym u32 = "32 word"
type_synonym byte = "8 word"
type_synonym time = int

named_theorems codec_simps \<open>equations of the wire codecs\<close>
named_theorems step_intros \<open>introduction rules of the step relations\<close>
named_theorems inv_defs \<open>the definitions of the components' invariants\<close>

section \<open>Units of time\<close>

definition millisecond :: int where "millisecond = 1000000"
definition second :: int where "second = 1000000000"
definition minute :: int where "minute = 60 * second"
definition hour :: int where "hour = 60 * minute"

lemmas time_units = millisecond_def second_def minute_def hour_def

section \<open>Decimal text of an integer\<close>

text \<open>\<open>strconv.Itoa\<close>, \<open>strconv.FormatInt(_, 10)\<close> and the verb \<open>%d\<close> of
  \<open>fmt.Sprintf\<close> all print an integer this way.\<close>

definition digit_char :: "nat \<Rightarrow> char" where
  "digit_char d = char_of (48 + d)"

fun nat_text :: "nat \<Rightarrow> string" where
  "nat_text n = (if n < 10 then [digit_char n] else nat_text (n div 10) @ [digit_char (n mod 10)])"

declare nat_text.simps [simp del]

definition itoa :: "int \<Rightarrow> string" where
  "itoa i = (if i < 0 then CHR ''-'' # nat_text (nat (- i)) else nat_text (nat i))"

definition digit_val :: "char \<Rightarrow> nat" where
  "digit_val c = of_char c - 48"

definition text_nat :: "string \<Rightarrow> nat" where
  "text_nat s = foldl (\<lambda>a c. 10 * a + digit_val c) 0 s"

lemma of_char_digit_char: "d < 10 \<Longrightarrow> of_char (digit_char d) = 48 + d"
  by (simp add: digit_char_def)

lemma digit_val_digit_char [simp]: "d < 10 \<Longrightarrow> digit_val (digit_char d) = d"
  by (simp add: digit_val_def of_char_digit_char)

lemma text_nat_nat_text [simp]: "text_nat (nat_text n) = n"
proof (induction n rule: nat_text.induct)
  case (1 n)
  show ?case
  proof (cases "n < 10")
    case True
    then show ?thesis by (subst nat_text.simps) (simp add: text_nat_def)
  next
    case False
    with "1.IH" have "text_nat (nat_text (n div 10)) = n div 10" by simp
    with False show ?thesis by (subst nat_text.simps) (simp add: text_nat_def)
  qed
qed

lemma nat_text_inj [simp]: "nat_text m = nat_text n \<longleftrightarrow> m = n"
  by (metis text_nat_nat_text)

lemma nat_text_digits: "c \<in> set (nat_text n) \<Longrightarrow> \<exists>d < 10. c = digit_char d"
proof (induction n rule: nat_text.induct)
  case (1 n)
  show ?case
  proof (cases "n < 10")
    case True
    with "1.prems" show ?thesis by (subst (asm) nat_text.simps) auto
  next
    case False
    with "1.prems" have "c \<in> set (nat_text (n div 10)) \<or> c = digit_char (n mod 10)"
      by (subst (asm) nat_text.simps) auto
    with False "1.IH" show ?thesis by (metis mod_less_divisor zero_less_numeral)
  qed
qed

lemma nat_text_of_char: "c \<in> set (nat_text n) \<Longrightarrow> (48::nat) \<le> of_char c \<and> of_char c \<le> (57::nat)"
  by (drule nat_text_digits) (auto simp: of_char_digit_char)

lemma nat_text_no_char:
  "(of_char c :: nat) < 48 \<or> 57 < (of_char c :: nat) \<Longrightarrow> c \<notin> set (nat_text n)"
  using nat_text_of_char by fastforce

lemma nat_text_Nil [simp]: "nat_text n \<noteq> []"
  by (subst nat_text.simps) simp

lemma itoa_Nil [simp]: "itoa i \<noteq> []"
  by (simp add: itoa_def)

lemma itoa_no_char:
  "c \<noteq> CHR ''-'' \<Longrightarrow> (of_char c :: nat) < 48 \<or> 57 < (of_char c :: nat) \<Longrightarrow> c \<notin> set (itoa i)"
  by (auto simp: itoa_def nat_text_no_char)

lemma char_minus_code: "(of_char CHR ''-'' :: nat) < 48 \<or> 57 < (of_char CHR ''-'' :: nat)"
  by simp

lemma itoa_inj [simp]: "itoa i = itoa j \<longleftrightarrow> i = j"
proof
  have minus: "CHR ''-'' # s \<noteq> nat_text n" for s n
    using nat_text_no_char [of "CHR ''-''" n] by (metis list.set_intros(1) char_minus_code)
  assume "itoa i = itoa j"
  then show "i = j"
    using minus minus [symmetric] by (auto simp: itoa_def split: if_splits)
qed simp

section \<open>Durations as text\<close>

text \<open>
  \<open>time.Duration.String\<close>: \<open>digits k n\<close> are the \<open>k\<close> low decimal digits of \<open>n\<close>; a fraction
  loses its trailing zeros, and its point when nothing is left.
\<close>

primrec low_digits :: "nat \<Rightarrow> nat \<Rightarrow> string" where
  "low_digits 0 n = []"
| "low_digits (Suc k) n = low_digits k (n div 10) @ [digit_char (n mod 10)]"

definition with_fraction :: "nat \<Rightarrow> nat \<Rightarrow> string" where
  "with_fraction k n =
     (let frac = rev (dropWhile (\<lambda>c. c = CHR ''0'') (rev (low_digits k n)))
      in nat_text (n div 10 ^ k) @ (if frac = [] then [] else CHR ''.'' # frac))"

definition duration_nat :: "nat \<Rightarrow> string" where
  "duration_nat d =
     (if d = 0 then ''0s''
      else if d < 1000 then nat_text d @ ''ns''
      else if d < 1000000 then with_fraction 3 d @ [char_of (194::nat), char_of (181::nat)] @ ''s''
      else if d < 1000000000 then with_fraction 6 d @ ''ms''
      else
        (let s = d div 1000000000;
             secs = with_fraction 9 (d mod 60000000000) @ ''s'' in
         if s < 60 then secs
         else if s < 3600 then nat_text (s div 60) @ ''m'' @ secs
         else nat_text (s div 3600) @ ''h'' @ nat_text (s div 60 mod 60) @ ''m'' @ secs))"

definition duration_text :: "int \<Rightarrow> string" where
  "duration_text d = (if d < 0 then CHR ''-'' # duration_nat (nat (- d)) else duration_nat (nat d))"

section \<open>Strings\<close>

text \<open>\<open>strings.Split(s, sep)\<close> for a one-byte separator: never empty.\<close>

fun split_on :: "char \<Rightarrow> string \<Rightarrow> string list" where
  "split_on c [] = [[]]"
| "split_on c (x # xs) =
     (if x = c then [] # split_on c xs
      else (case split_on c xs of [] \<Rightarrow> [[x]] | w # ws \<Rightarrow> (x # w) # ws))"

text \<open>\<open>strings.Join(a, sep)\<close> for a one-byte separator.\<close>

fun join_with :: "char \<Rightarrow> string list \<Rightarrow> string" where
  "join_with c [] = []"
| "join_with c [w] = w"
| "join_with c (w # v # ws) = w @ c # join_with c (v # ws)"

lemma split_on_nonempty [simp]: "split_on c s \<noteq> []"
  by (induction s) (auto split: list.splits)

lemma split_on_free: "c \<notin> set s \<Longrightarrow> split_on c s = [s]"
  by (induction s) auto

lemma split_on_append: "c \<notin> set w \<Longrightarrow> split_on c (w @ c # s) = w # split_on c s"
  by (induction w) auto

lemma split_on_join:
  "ws \<noteq> [] \<Longrightarrow> \<forall>w \<in> set ws. c \<notin> set w \<Longrightarrow> split_on c (join_with c ws) = ws"
  by (induction c ws rule: join_with.induct) (auto simp: split_on_free split_on_append)

lemma join_with_split_on: "join_with c (split_on c s) = s"
proof (induction s)
  case (Cons x s)
  then show ?case
    by (cases "split_on c s"; cases "tl (split_on c s)") auto
qed simp

text \<open>\<open>unicode.IsSpace\<close> on ASCII, and \<open>strings.TrimSpace\<close>.\<close>

definition is_space :: "char \<Rightarrow> bool" where
  "is_space c \<longleftrightarrow> (let n = (of_char c :: nat) in n = 32 \<or> (9 \<le> n \<and> n \<le> 13))"

definition trim_space :: "string \<Rightarrow> string" where
  "trim_space s = rev (dropWhile is_space (rev (dropWhile is_space s)))"

definition trimmed :: "string \<Rightarrow> bool" where
  "trimmed s \<longleftrightarrow> trim_space s = s"

lemma trim_space_Nil [simp]: "trim_space [] = []"
  by (simp add: trim_space_def)

lemma trim_space_free: "\<forall>c \<in> set s. \<not> is_space c \<Longrightarrow> trim_space s = s"
proof -
  assume a: "\<forall>c \<in> set s. \<not> is_space c"
  then have "dropWhile is_space s = s" by (cases s) auto
  moreover from a have "dropWhile is_space (rev s) = rev s" by (cases "rev s") (auto simp: rev_eq_Cons_iff)
  ultimately show ?thesis by (simp add: trim_space_def)
qed

lemma dropWhile_rev_trim:
  "dropWhile P (rev (dropWhile P (rev (dropWhile P s)))) = rev (dropWhile P (rev (dropWhile P s)))"
proof (cases "dropWhile P s")
  case (Cons x xs)
  then have x: "\<not> P x" by (metis hd_dropWhile list.discI list.sel(1))
  have "dropWhile P (ys @ [x]) = dropWhile P ys @ [x]" for ys
    using x by (induction ys) auto
  with Cons x show ?thesis by simp
next
  case Nil
  then show ?thesis by (simp del: dropWhile_eq_Nil_conv)
qed

lemma trim_space_idem [simp]: "trim_space (trim_space s) = trim_space s"
  by (simp add: trim_space_def dropWhile_rev_trim)

lemma trimmed_trim_space [simp]: "trimmed (trim_space s)"
  by (simp add: trimmed_def)

text \<open>\<open>strings.LastIndex(s, sep)\<close> for a one-byte separator: the position of the
  last occurrence, \<open>-1\<close> when there is none.\<close>

fun last_index :: "string \<Rightarrow> char \<Rightarrow> int" where
  "last_index [] c = -1"
| "last_index (x # xs) c =
     (let i = last_index xs c in if 0 \<le> i then i + 1 else if x = c then 0 else -1)"

lemma last_index_absent: "c \<notin> set s \<Longrightarrow> last_index s c = -1"
  by (induction s) auto

lemma last_index_ge: "-1 \<le> last_index s c"
  by (induction s) (auto simp: Let_def)

lemma last_index_split: "c \<notin> set m \<Longrightarrow> last_index (s @ c # m) c = int (length s)"
  by (induction s) (auto simp: Let_def last_index_absent)

lemma last_index_present: "c \<in> set s \<Longrightarrow> 0 \<le> last_index s c"
  by (metis last_index_split of_nat_0_le_iff split_list_last)

section \<open>Binary search\<close>

text \<open>\<open>sort.Search(n, f)\<close>: halve the interval \<open>[i, j)\<close> until it is empty.\<close>

function search_between :: "(nat \<Rightarrow> bool) \<Rightarrow> nat \<Rightarrow> nat \<Rightarrow> nat" where
  "search_between f i j =
     (if i < j then
        (let h = (i + j) div 2
         in if \<not> f h then search_between f (h + 1) j else search_between f i h)
      else i)"
  by pat_completeness auto
termination
  by (relation "measure (\<lambda>(f, i, j). j - i)") (auto simp: Let_def)

declare search_between.simps [simp del]

definition sort_search :: "nat \<Rightarrow> (nat \<Rightarrow> bool) \<Rightarrow> nat" where
  "sort_search n f = search_between f 0 n"

lemma search_stop: "\<not> i < j \<Longrightarrow> search_between f i j = i"
  by (simp add: search_between.simps [of f i j])

lemma search_right:
  "i < j \<Longrightarrow> \<not> f ((i + j) div 2) \<Longrightarrow> search_between f i j = search_between f ((i + j) div 2 + 1) j"
  by (simp add: search_between.simps [of f i j] Let_def)

lemma search_left:
  "i < j \<Longrightarrow> f ((i + j) div 2) \<Longrightarrow> search_between f i j = search_between f i ((i + j) div 2)"
  by (simp add: search_between.simps [of f i j] Let_def)

lemma search_between_bounds: "i \<le> j \<Longrightarrow> i \<le> search_between f i j \<and> search_between f i j \<le> j"
proof (induction f i j rule: search_between.induct)
  case (1 f i j)
  let ?h = "(i + j) div 2"
  consider (stop) "\<not> i < j" | (right) "i < j" "\<not> f ?h" | (left) "i < j" "f ?h" by blast
  then show ?case
  proof cases
    case stop
    with "1.prems" show ?thesis by (simp add: search_stop)
  next
    case right
    then have "?h + 1 \<le> j" by auto
    with "1.IH"(1) [OF right(1) refl right(2)]
    have "?h + 1 \<le> search_between f (?h + 1) j \<and> search_between f (?h + 1) j \<le> j" by simp
    moreover from right have "i \<le> ?h + 1" by auto
    ultimately show ?thesis using right by (simp add: search_right)
  next
    case left
    then have "i \<le> ?h" "?h \<le> j" by auto
    with "1.IH"(2) [OF left(1) refl] left
    show ?thesis by (simp add: search_left)
  qed
qed

lemma search_between_least:
  assumes mono: "\<And>a b. a \<le> b \<Longrightarrow> b < n \<Longrightarrow> f a \<Longrightarrow> f b"
  shows "i \<le> j \<Longrightarrow> j \<le> n \<Longrightarrow> \<forall>k < i. \<not> f k \<Longrightarrow> \<forall>k. j \<le> k \<and> k < n \<longrightarrow> f k
    \<Longrightarrow> (\<forall>k < search_between f i j. \<not> f k)
      \<and> (\<forall>k. search_between f i j \<le> k \<and> k < n \<longrightarrow> f k)"
  using mono
proof (induction f i j rule: search_between.induct)
  case (1 f i j)
  let ?h = "(i + j) div 2"
  consider (stop) "\<not> i < j" | (right) "i < j" "\<not> f ?h" | (left) "i < j" "f ?h" by blast
  then show ?case
  proof cases
    case stop
    with "1.prems"(1) have "i = j" by simp
    moreover have "search_between f i j = i" by (rule search_stop [OF stop])
    ultimately show ?thesis using "1.prems"(3,4) by metis
  next
    case right
    then have h: "?h < n" "?h + 1 \<le> j" using "1.prems"(2) by auto
    have "\<forall>k < ?h + 1. \<not> f k"
    proof (intro allI impI)
      fix k assume "k < ?h + 1"
      then have "k \<le> ?h" by linarith
      from "1.prems"(5) [OF this h(1)] right(2) show "\<not> f k" by (rule contrapos_nn [rotated])
    qed
    from "1.IH"(1) [OF right(1) refl right(2) h(2) "1.prems"(2) this "1.prems"(4)] "1.prems"(5)
    show ?thesis unfolding search_right [of i j f, OF right] by blast
  next
    case left
    then have h: "i \<le> ?h" "?h \<le> n" using "1.prems"(2) by auto
    have "\<forall>k. ?h \<le> k \<and> k < n \<longrightarrow> f k"
    proof (intro allI impI)
      fix k assume k: "?h \<le> k \<and> k < n"
      show "f k" by (rule "1.prems"(5) [OF conjunct1 [OF k] conjunct2 [OF k] left(2)])
    qed
    moreover from left(2) have "\<not> \<not> f ?h" by simp
    ultimately have "(\<forall>k < search_between f i ?h. \<not> f k)
      \<and> (\<forall>k. search_between f i ?h \<le> k \<and> k < n \<longrightarrow> f k)"
      using "1.prems"(5) by (intro "1.IH"(2) [OF left(1) refl _ h "1.prems"(3)])
    then show ?thesis by (simp only: search_left [of i j f, OF left])
  qed
qed

lemma sort_search_le: "sort_search n f \<le> n"
  using search_between_bounds [of 0 n f] by (simp add: sort_search_def)

lemma sort_search_least:
  assumes mono: "\<And>a b. a \<le> b \<Longrightarrow> b < n \<Longrightarrow> f a \<Longrightarrow> f b"
  shows "\<forall>k < sort_search n f. \<not> f k" (is ?low)
    and "\<forall>k. sort_search n f \<le> k \<and> k < n \<longrightarrow> f k" (is ?high)
proof -
  have "?low \<and> ?high"
    unfolding sort_search_def by (rule search_between_least [OF mono]) auto
  then show ?low and ?high by blast+
qed

section \<open>Integers\<close>

text \<open>Go's \<open>%\<close> truncates towards zero: the sign is the dividend's.\<close>

definition go_rem :: "int \<Rightarrow> int \<Rightarrow> int" where
  "go_rem a b = sgn a * (\<bar>a\<bar> mod \<bar>b\<bar>)"

lemma go_rem_nonneg [simp]: "0 \<le> a \<Longrightarrow> 0 < b \<Longrightarrow> go_rem a b = a mod b"
  by (cases "a = 0") (simp_all add: go_rem_def)

lemma unat_small: "m < 2 ^ 64 \<Longrightarrow> unat (of_nat m :: u64) = m"
  by (simp add: unat_of_nat take_bit_nat_eq_self)

section \<open>Lists and maps\<close>

lemma map_nth_rotate:
  "n = length xs \<Longrightarrow> map (\<lambda>i. xs ! ((k + i) mod n)) [0..<n] = rotate k xs"
  by (rule nth_equalityI) (auto simp: nth_rotate add.commute)

lemma list_all_mem: "list_all P xs \<Longrightarrow> x \<in> set xs \<Longrightarrow> P x"
  by (simp add: list_all_iff)

end
