(* ===== verification/Snowflake.thy ===== *)
theory Snowflake
  imports Prelude
begin

text \<open>
  The id generator of \<open>apps/pkg/utils/snowflake.go\<close>: 41 bits of milliseconds,
  10 bits of node, 12 bits of sequence, in an \<open>int64\<close>.

  The clock is an input: \<open>clk\<close> lists the values the successive calls of
  \<open>time.Now().UnixMilli()\<close> return. A call that has used up the list without getting
  past its waiting loop is still waiting, which is the value \<open>None\<close>; how much of the
  clock is enough is \<open>Generate_returns\<close>.
\<close>

unbundle bit_operations_syntax

record snowflake =
  lastTimestamp :: i64
  seqno :: i64
  nodeID :: i64

definition NewSnowflake :: "i64 \<Rightarrow> snowflake result" where
  "NewSnowflake node =
     (if node <s 0 \<or> 1023 <s node then Inl ''node ID must be between 0 and 1023''
      else Inr \<lparr>lastTimestamp = 0, seqno = 0, nodeID = node\<rparr>)"

text \<open>The package-level singleton: \<open>sync.Once\<close> and the instance pointer.\<close>

record singleton =
  once_done :: bool
  snowflakeInstance :: "snowflake option"

definition InitSnowflake :: "i64 \<Rightarrow> singleton \<Rightarrow> singleton \<times> goerror option" where
  "InitSnowflake node g =
     (if once_done g then (g, None)
      else if node <s 0 \<or> 1023 <s node
      then (g\<lparr>once_done := True\<rparr>, Some ''node ID must be between 0 and 1023'')
      else (g\<lparr>once_done := True,
              snowflakeInstance := Some \<lparr>lastTimestamp = 0, seqno = 0, nodeID = node\<rparr>\<rparr>, None))"

definition GetSnowflake :: "singleton \<Rightarrow> snowflake result" where
  "GetSnowflake g =
     (case snowflakeInstance g of
        None \<Rightarrow> Inl ''snowflake not initialized, call InitSnowflake first''
      | Some s \<Rightarrow> Inr s)"

text \<open>The loop \<open>for current <= s.lastTimestamp\<close>: sleep and read the clock again.\<close>

fun wait_past :: "i64 \<Rightarrow> i64 \<Rightarrow> i64 list \<Rightarrow> (i64 \<times> i64 list) option" where
  "wait_past lst current clk =
     (if current \<le>s lst
      then (case clk of [] \<Rightarrow> None | c # cs \<Rightarrow> wait_past lst c cs)
      else Some (current, clk))"

declare wait_past.simps [simp del]

definition make_id :: "i64 \<Rightarrow> i64 \<Rightarrow> i64 \<Rightarrow> i64" where
  "make_id current node sq = push_bit 22 current OR push_bit 12 node OR sq"

definition Generate :: "snowflake \<Rightarrow> i64 list \<Rightarrow> (i64 \<times> snowflake \<times> i64 list) option" where
  "Generate s clk =
     (case clk of [] \<Rightarrow> None | c # cs \<Rightarrow>
      (case (if c <s lastTimestamp s then wait_past (lastTimestamp s) c cs else Some (c, cs)) of
         None \<Rightarrow> None
       | Some (current, rest) \<Rightarrow>
           (case (if current = lastTimestamp s
                  then (let sq = (seqno s + 1) AND 0xFFF
                        in if sq = 0
                           then map_option (\<lambda>(cur, r). (cur, r, 0)) (wait_past (lastTimestamp s) current rest)
                           else Some (current, rest, sq))
                  else Some (current, rest, 0)) of
              None \<Rightarrow> None
            | Some (current, rest, sq) \<Rightarrow>
                Some (make_id current (nodeID s) sq, s\<lparr>lastTimestamp := current, seqno := sq\<rparr>, rest))))"

definition GenerateString :: "snowflake \<Rightarrow> i64 list \<Rightarrow> (gostring \<times> snowflake \<times> i64 list) option" where
  "GenerateString s clk = map_option (\<lambda>(i, s', r). (itoa (sint i), s', r)) (Generate s clk)"

record SnowflakeInfo =
  Timestamp :: i64
  NodeID :: i64
  Sequence :: i64

definition ParseSnowflakeID :: "i64 \<Rightarrow> SnowflakeInfo" where
  "ParseSnowflakeID i =
     \<lparr>Timestamp = signed_drop_bit 22 i + 1288834974657,
      NodeID = signed_drop_bit 12 i AND 0x3FF,
      Sequence = i AND 0xFFF\<rparr>"

text \<open>Several calls one after the other: the ids they return.\<close>

fun gen_run :: "nat \<Rightarrow> snowflake \<Rightarrow> i64 list \<Rightarrow> i64 list option" where
  "gen_run 0 s clk = Some []"
| "gen_run (Suc n) s clk =
     (case Generate s clk of
        None \<Rightarrow> None
      | Some (i, s', clk') \<Rightarrow> map_option ((#) i) (gen_run n s' clk'))"

section \<open>The bits of an id\<close>

text \<open>Clock readings before the year 2039: 41 bits, not negative.\<close>

definition clock_ok :: "i64 \<Rightarrow> bool" where
  "clock_ok t \<longleftrightarrow> unat t < 2 ^ 41"

definition sf_inv :: "snowflake \<Rightarrow> bool" where
  [inv_defs]: "sf_inv s \<longleftrightarrow> clock_ok (lastTimestamp s) \<and> unat (seqno s) < 2 ^ 12 \<and> unat (nodeID s) < 2 ^ 10"

lemma bit_below: "unat (w :: i64) < 2 ^ k \<Longrightarrow> bit w n \<Longrightarrow> n < k"
proof -
  assume "unat w < 2 ^ k" "bit w n"
  then have "take_bit k (unat w) = unat w" by (simp add: take_bit_nat_eq_self)
  then have "unat (take_bit k w) = unat w" by (simp add: unsigned_take_bit_eq)
  then have "take_bit k w = w" by (simp add: word_unat_eq_iff)
  with \<open>bit w n\<close> show "n < k" by (metis bit_take_bit_iff)
qed

lemma make_id_plus:
  assumes "unat c < 2 ^ 41" "unat (n :: i64) < 2 ^ 10" "unat (q :: i64) < 2 ^ 12"
  shows "make_id c n q = push_bit 22 c + push_bit 12 n + q"
proof -
  have "push_bit 22 c + push_bit 12 n = push_bit 22 c OR push_bit 12 n"
    by (rule disjunctive_add) (use bit_below [OF assms(2)] in \<open>fastforce simp: bit_simps\<close>)
  moreover have "(push_bit 22 c OR push_bit 12 n) + q = push_bit 22 c OR push_bit 12 n OR q"
    by (subst disjunctive_add) (use bit_below [OF assms(3)] in \<open>fastforce simp: bit_simps or.assoc\<close>)+
  ultimately show ?thesis by (simp add: make_id_def)
qed

lemma unat_make_id:
  assumes "unat c < 2 ^ 41" "unat (n :: i64) < 2 ^ 10" "unat (q :: i64) < 2 ^ 12"
  shows "unat (make_id c n q) = unat c * 2 ^ 22 + unat n * 2 ^ 12 + unat q"
proof -
  have "unat (push_bit 22 c) = unat c * 2 ^ 22" "unat (push_bit 12 n) = unat n * 2 ^ 12"
    using assms by (simp_all add: push_bit_eq_mult unat_word_ariths)
  then show ?thesis
    unfolding make_id_plus [OF assms] using assms by (simp add: unat_word_ariths)
qed

lemma unat_make_id_less:
  assumes "unat c < 2 ^ 41" "unat (n :: i64) < 2 ^ 10" "unat (q :: i64) < 2 ^ 12"
  shows "unat (make_id c n q) < 2 ^ 63"
  using assms by (simp add: unat_make_id)

lemma sint_unat: assumes "unat (a :: i64) < 2 ^ 63" shows "sint a = int (unat a)"
proof -
  have u: "uint a = int (unat a)" by simp
  moreover have "int (unat a) < int (2 ^ 63)" using assms by (simp only: of_nat_less_iff)
  ultimately have "uint a < 2 ^ 63" by simp
  then have "signed_take_bit 63 (uint a) = uint a"
    by (intro signed_take_bit_int_eq_self) (simp_all add: order_trans [OF _ uint_ge_0])
  then have "sint a = uint a" by (simp add: sint_uint)
  with u show ?thesis by simp
qed

lemma sless_unat:
  "unat (a :: i64) < 2 ^ 63 \<Longrightarrow> unat b < 2 ^ 63 \<Longrightarrow> a <s b \<longleftrightarrow> unat a < unat b"
  by (simp only: word_sless_alt sint_unat of_nat_less_iff)

lemma sle_unat:
  "unat (a :: i64) < 2 ^ 63 \<Longrightarrow> unat b < 2 ^ 63 \<Longrightarrow> a \<le>s b \<longleftrightarrow> unat a \<le> unat b"
  by (simp only: word_sle_eq sint_unat of_nat_le_iff)

lemma clock_ok_sless: "clock_ok a \<Longrightarrow> clock_ok b \<Longrightarrow> a <s b \<longleftrightarrow> unat a < unat b"
  by (rule sless_unat) (simp_all add: clock_ok_def)

lemma clock_ok_sle: "clock_ok a \<Longrightarrow> clock_ok b \<Longrightarrow> a \<le>s b \<longleftrightarrow> unat a \<le> unat b"
  by (rule sle_unat) (simp_all add: clock_ok_def)

section \<open>One call\<close>

lemma wait_past_stop: "\<not> c \<le>s lst \<Longrightarrow> wait_past lst c cs = Some (c, cs)"
  by (simp add: wait_past.simps [of lst c cs])

lemma wait_past_dry: "c \<le>s lst \<Longrightarrow> wait_past lst c [] = None"
  by (simp add: wait_past.simps [of lst c "[]"])

lemma wait_past_again: "c \<le>s lst \<Longrightarrow> wait_past lst c (d # cs) = wait_past lst d cs"
  by (simp add: wait_past.simps [of lst c "d # cs"])

lemmas wait_past_eqs = wait_past_stop wait_past_dry wait_past_again

lemma wait_past_Some:
  "wait_past lst c cs = Some (t, rest) \<Longrightarrow> clock_ok lst \<Longrightarrow> clock_ok c \<Longrightarrow> list_all clock_ok cs
   \<Longrightarrow> unat lst < unat t \<and> clock_ok t \<and> list_all clock_ok rest"
proof (induction cs arbitrary: c)
  case Nil
  then show ?case by (cases "c \<le>s lst") (auto simp: wait_past_eqs clock_ok_sle)
next
  case (Cons d cs)
  then show ?case by (cases "c \<le>s lst") (auto simp: wait_past_eqs clock_ok_sle)
qed

lemma wait_past_above: "wait_past lst c cs = Some (t, rest) \<Longrightarrow> \<not> t \<le>s lst"
proof (induction cs arbitrary: c)
  case Nil
  then show ?case by (cases "c \<le>s lst") (auto simp: wait_past_eqs)
next
  case (Cons d cs)
  then show ?case by (cases "c \<le>s lst") (auto simp: wait_past_eqs)
qed

lemma wait_past_returns:
  "\<exists>t \<in> set (c # cs). \<not> t \<le>s lst \<Longrightarrow> \<exists>r. wait_past lst c cs = Some r"
proof (induction cs arbitrary: c)
  case (Cons d cs)
  then show ?case by (cases "c \<le>s lst") (auto simp: wait_past_eqs)
qed (auto simp: wait_past_eqs)

lemma low_bits: "(w :: i64) AND 0xFFF = take_bit 12 w"
  by (simp add: take_bit_eq_mask mask_eq_exp_minus_1)

lemma unat_low_bits: "unat ((w :: i64) AND 0xFFF) = unat w mod 2 ^ 12"
proof -
  have "unat (w AND 0xFFF) = take_bit 12 (unat w)" by (simp only: low_bits unsigned_take_bit_eq)
  then show ?thesis by (simp only: take_bit_eq_mod)
qed

lemma seq_next_bound: "unat ((q + 1) AND 0xFFF :: i64) < 2 ^ 12"
  unfolding unat_low_bits by simp

lemma seq_next_val:
  assumes q: "unat (q :: i64) < 2 ^ 12" and nz: "(q + 1) AND 0xFFF \<noteq> 0"
  shows "unat ((q + 1) AND 0xFFF) = unat q + 1"
proof -
  have u: "unat ((q + 1) AND 0xFFF) = (unat q + 1) mod 2 ^ 12"
    unfolding unat_low_bits using q by (simp add: unat_word_ariths)
  from nz have "unat ((q + 1) AND 0xFFF) \<noteq> 0" by (simp add: unat_eq_zero)
  with u q have "unat q + 1 < 2 ^ 12" by (cases "unat q + 1 = 2 ^ 12") auto
  with u show ?thesis by simp
qed

text \<open>
  The contract of a call, from which everything below follows: the invariant is kept, the
  id is made of the state left behind, and (time, sequence) has grown lexicographically.
\<close>

definition sf_stamp :: "snowflake \<Rightarrow> nat" where
  "sf_stamp s = unat (lastTimestamp s) * 2 ^ 12 + unat (seqno s)"

lemma Generate_spec:
  assumes "Generate s clk = Some (i, s', rest)" "sf_inv s" "list_all clock_ok clk"
  shows "i = make_id (lastTimestamp s') (nodeID s) (seqno s') \<and> nodeID s' = nodeID s
       \<and> sf_inv s' \<and> list_all clock_ok rest \<and> sf_stamp s < sf_stamp s'"
proof -
  obtain c cs where clk: "clk = c # cs"
    using assms(1) by (cases clk) (auto simp: Generate_def)
  let ?w = "if c <s lastTimestamp s then wait_past (lastTimestamp s) c cs else Some (c, cs)"
  obtain t r where w: "?w = Some (t, r)"
    using assms(1) clk by (cases ?w) (auto simp: Generate_def)
  have ok: "clock_ok (lastTimestamp s)" "clock_ok c" "list_all clock_ok cs"
    and sq: "unat (seqno s) < 2 ^ 12"
    using assms clk by (auto simp: inv_defs)
  have t: "unat (lastTimestamp s) \<le> unat t" "clock_ok t" "list_all clock_ok r"
    using w wait_past_Some [of "lastTimestamp s" c cs t r] ok
    by (auto simp: clock_ok_sless split: if_splits)
  show ?thesis
  proof (cases "t = lastTimestamp s")
    case False
    then have "unat (lastTimestamp s) < unat t" using t(1) by (metis le_neq_implies_less word_unat_eq_iff)
    then have lt: "(unat (lastTimestamp s) + 1) * 2 ^ 12 \<le> unat t * 2 ^ 12" by (intro mult_le_mono) auto
    from False have "i = make_id t (nodeID s) 0 \<and> s' = s\<lparr>lastTimestamp := t, seqno := 0\<rparr> \<and> rest = r"
      using assms(1) w unfolding clk Generate_def by simp
    with t lt sq assms(2) show ?thesis by (auto simp: inv_defs sf_stamp_def)
  next
    case True
    let ?q = "(seqno s + 1) AND 0xFFF"
    show ?thesis
    proof (cases "?q = 0")
      case False
      then have "i = make_id t (nodeID s) ?q \<and> s' = s\<lparr>lastTimestamp := t, seqno := ?q\<rparr> \<and> rest = r"
        using assms(1) w True unfolding clk Generate_def Let_def by simp
      with True t False assms(2) seq_next_bound [of "seqno s"] seq_next_val [OF sq False]
      show ?thesis by (auto simp: inv_defs sf_stamp_def)
    next
      case q0: True
      obtain t' r' where w': "wait_past (lastTimestamp s) t r = Some (t', r')"
        and "i = make_id t' (nodeID s) 0 \<and> s' = s\<lparr>lastTimestamp := t', seqno := 0\<rparr> \<and> rest = r'"
        using assms(1) w True q0 unfolding clk Generate_def Let_def
        by (cases "wait_past (lastTimestamp s) t r") auto
      moreover have g: "unat (lastTimestamp s) < unat t' \<and> clock_ok t' \<and> list_all clock_ok r'"
        using wait_past_Some [OF w' ok(1) t(2,3)] .
      moreover from g have "(unat (lastTimestamp s) + 1) * 2 ^ 12 \<le> unat t' * 2 ^ 12"
        by (intro mult_le_mono) auto
      ultimately show ?thesis using sq assms(2) by (auto simp: inv_defs sf_stamp_def)
    qed
  qed
qed

lemma id_stamp:
  assumes "sf_inv s"
  shows "unat (make_id (lastTimestamp s) (nodeID s) (seqno s))
       = unat (lastTimestamp s) * 2 ^ 22 + unat (nodeID s) * 2 ^ 12 + unat (seqno s)"
  using assms by (intro unat_make_id) (simp_all add: inv_defs clock_ok_def)

lemma stamp_mono_id:
  assumes "sf_inv s" "sf_inv s'" "nodeID s' = nodeID s" "sf_stamp s < sf_stamp s'"
  shows "unat (make_id (lastTimestamp s) (nodeID s) (seqno s))
       < unat (make_id (lastTimestamp s') (nodeID s') (seqno s'))"
proof -
  have b: "unat (seqno s) < 2 ^ 12" "unat (seqno s') < 2 ^ 12" "unat (nodeID s) < 2 ^ 10"
    using assms(1,2) by (auto simp: inv_defs)
  show ?thesis
  proof (cases "unat (lastTimestamp s) < unat (lastTimestamp s')")
    case True
    then have "(unat (lastTimestamp s) + 1) * 2 ^ 22 \<le> unat (lastTimestamp s') * 2 ^ 22"
      by (intro mult_le_mono) auto
    with b show ?thesis unfolding id_stamp [OF assms(1)] id_stamp [OF assms(2)] by simp
  next
    case False
    have "unat (lastTimestamp s) = unat (lastTimestamp s') \<and> unat (seqno s) < unat (seqno s')"
    proof (rule ccontr)
      assume "\<not> ?thesis"
      with False consider "unat (lastTimestamp s') + 1 \<le> unat (lastTimestamp s)"
        | "unat (lastTimestamp s) = unat (lastTimestamp s')" "unat (seqno s') \<le> unat (seqno s)"
        by linarith
      then show False
      proof cases
        case 1
        then have "(unat (lastTimestamp s') + 1) * 2 ^ 12 \<le> unat (lastTimestamp s) * 2 ^ 12"
          by (intro mult_le_mono) auto
        with assms(4) b show False by (simp add: sf_stamp_def)
      qed (use assms(4) in \<open>simp add: sf_stamp_def\<close>)
    qed
    with assms(3) show ?thesis unfolding id_stamp [OF assms(1)] id_stamp [OF assms(2)] by simp
  qed
qed

section \<open>Runs\<close>

definition id_after :: "snowflake \<Rightarrow> i64" where
  "id_after s = make_id (lastTimestamp s) (nodeID s) (seqno s)"

lemma Generate_grows:
  assumes "Generate s clk = Some (i, s', rest)" "sf_inv s" "list_all clock_ok clk"
  shows "i = id_after s' \<and> unat (id_after s) < unat i \<and> sf_inv s' \<and> list_all clock_ok rest
       \<and> nodeID s' = nodeID s"
  using Generate_spec [OF assms] stamp_mono_id [of s s'] assms(2) by (simp add: id_after_def)

lemma gen_run_sorted:
  "gen_run n s clk = Some ids \<Longrightarrow> sf_inv s \<Longrightarrow> list_all clock_ok clk
   \<Longrightarrow> sorted_wrt (<) (map unat (id_after s # ids)) \<and> length ids = n"
proof (induction n arbitrary: s clk ids)
  case (Suc n)
  then obtain i s' clk' ids' where g: "Generate s clk = Some (i, s', clk')"
    and r: "gen_run n s' clk' = Some ids'" and ids: "ids = i # ids'"
    by (auto split: option.splits)
  note step = Generate_grows [OF g Suc.prems(2,3)]
  have "sorted_wrt (<) (map unat (i # ids')) \<and> length ids' = n"
    using Suc.IH [OF r] step by simp
  with step ids show ?case by auto
qed simp

lemma gen_run_node:
  "gen_run n s clk = Some ids \<Longrightarrow> sf_inv s \<Longrightarrow> list_all clock_ok clk
   \<Longrightarrow> i \<in> set ids \<Longrightarrow> \<exists>t q. clock_ok t \<and> unat q < 2 ^ 12 \<and> i = make_id t (nodeID s) q"
proof (induction n arbitrary: s clk ids)
  case (Suc n)
  then obtain j s' clk' ids' where g: "Generate s clk = Some (j, s', clk')"
    and r: "gen_run n s' clk' = Some ids'" and ids: "ids = j # ids'"
    by (auto split: option.splits)
  note step = Generate_grows [OF g Suc.prems(2,3)]
  show ?case
  proof (cases "i = j")
    case True
    with step show ?thesis by (auto simp: id_after_def inv_defs)
  next
    case False
    with Suc.prems(4) ids have "i \<in> set ids'" by simp
    with Suc.IH [OF r] step show ?thesis by simp
  qed
qed simp

lemma sf_inv_fresh:
  assumes "NewSnowflake node = Inr s"
  shows "sf_inv s"
proof -
  have s: "\<not> node <s 0" "\<not> 1023 <s node" "s = \<lparr>lastTimestamp = 0, seqno = 0, nodeID = node\<rparr>"
    using assms by (auto simp: NewSnowflake_def split: if_splits)
  then have "0 \<le> sint node" "sint node \<le> 1023" by (simp_all add: word_sless_alt)
  moreover have "uint node = take_bit LENGTH(64) (sint node)" by (rule uint_sint)
  moreover have "take_bit LENGTH(64) (sint node) = sint node"
    using calculation(1,2) by (intro take_bit_int_eq_self) (simp_all only:, simp)
  ultimately have "uint node \<le> 1023" by linarith
  moreover have "uint node = int (unat node)" by simp
  ultimately have "int (unat node) \<le> 1023" by (simp only:)
  then have "unat node \<le> 1023" by linarith
  then have "unat node < 2 ^ 10" by simp
  with s(3) show ?thesis by (simp add: inv_defs clock_ok_def)
qed


lemma gen_run_bound:
  assumes "gen_run n s clk = Some ids" "sf_inv s" "list_all clock_ok clk" "i \<in> set ids"
  shows "unat i < 2 ^ 63"
proof -
  obtain t q where "i = make_id t (nodeID s) q" "clock_ok t" "unat q < 2 ^ 12"
    using gen_run_node [OF assms] by blast
  with assms(2) unat_make_id_less [of t "nodeID s" q] show ?thesis
    by (simp add: inv_defs clock_ok_def)
qed

lemma pack_inj: "(q :: nat) < b \<Longrightarrow> q' < b \<Longrightarrow> a * b + q = a' * b + q' \<Longrightarrow> a = a' \<and> q = q'"
  by (metis add.commute div_mult_self3 div_less less_nat_zero_code mod_less mod_mult_self3 add_0)

lemma fields_unique:
  assumes "t * 2 ^ 22 + n * 2 ^ 12 + q = t' * 2 ^ 22 + n' * 2 ^ 12 + (q' :: nat)"
    and "n < 2 ^ 10" "n' < 2 ^ 10" "q < 2 ^ 12" "q' < 2 ^ 12"
  shows "t = t' \<and> n = n' \<and> q = q'"
proof -
  have "(t * 2 ^ 10 + n) * 2 ^ 12 + q = (t' * 2 ^ 10 + n') * 2 ^ 12 + q'"
    using assms(1) by (simp add: algebra_simps)
  from pack_inj [OF assms(4,5) this] have tn: "t * 2 ^ 10 + n = t' * 2 ^ 10 + n'" and q: "q = q'" by auto
  from pack_inj [OF assms(2,3) tn] q show ?thesis by simp
qed

lemma make_id_inj:
  assumes "make_id t n q = make_id t' n' q'" "clock_ok t" "clock_ok t'"
    and "unat n < 2 ^ 10" "unat n' < 2 ^ 10" "unat q < 2 ^ 12" "unat q' < 2 ^ 12"
  shows "t = t' \<and> n = n' \<and> q = q'"
proof -
  have "unat t * 2 ^ 22 + unat n * 2 ^ 12 + unat q = unat t' * 2 ^ 22 + unat n' * 2 ^ 12 + unat q'"
    using arg_cong [OF assms(1), of unat] assms(2-7)
    by (simp only: unat_make_id clock_ok_def)
  from fields_unique [OF this assms(4-7)] show ?thesis by (simp add: word_unat_eq_iff)
qed

text \<open>Reading the fields back, bit by bit.\<close>

lemma bit_make_id:
  "bit (make_id t n q) k \<longleftrightarrow> k < 64 \<and> (22 \<le> k \<and> bit t (k - 22) \<or> 12 \<le> k \<and> bit n (k - 12) \<or> bit q k)"
  by (auto simp: make_id_def bit_simps dest: bit_imp_le_length)

lemma make_id_seq:
  assumes "unat t < 2 ^ 41" "unat (n :: i64) < 2 ^ 10" "unat (q :: i64) < 2 ^ 12"
  shows "make_id t n q AND 0xFFF = q"
  unfolding low_bits
  by (rule bit_word_eqI) (use bit_below [OF assms(3)] in \<open>auto simp: bit_make_id bit_take_bit_iff\<close>)

lemma make_id_node:
  assumes "unat t < 2 ^ 41" "unat (n :: i64) < 2 ^ 10" "unat (q :: i64) < 2 ^ 12"
  shows "signed_drop_bit 12 (make_id t n q) AND 0x3FF = n"
proof -
  have m: "w AND 0x3FF = take_bit 10 w" for w :: i64 by (simp add: take_bit_eq_mask mask_eq_exp_minus_1)
  show ?thesis unfolding m
  proof (rule bit_word_eqI)
    fix k assume "k < LENGTH(64)"
    show "bit (take_bit 10 (signed_drop_bit 12 (make_id t n q))) k = bit n k"
      using bit_below [OF assms(2), of k] bit_below [OF assms(3), of "12 + k"]
      by (auto simp: bit_take_bit_iff bit_signed_drop_bit_iff bit_make_id)
  qed
qed

lemma make_id_time:
  assumes "unat t < 2 ^ 41" "unat (n :: i64) < 2 ^ 10" "unat (q :: i64) < 2 ^ 12"
  shows "signed_drop_bit 22 (make_id t n q) = t"
proof (rule bit_word_eqI)
  fix k assume "k < LENGTH(64)"
  show "bit (signed_drop_bit 22 (make_id t n q)) k = bit t k"
  proof (cases "42 \<le> k")
    case True
    then show ?thesis
      using bit_below [OF assms(1), of k] bit_below [OF assms(1), of 41] bit_below [OF assms(2), of 51]
        bit_below [OF assms(3), of 63] \<open>k < LENGTH(64)\<close>
      by (auto simp: bit_signed_drop_bit_iff bit_make_id)
  next
    case False
    then show ?thesis
      using bit_below [OF assms(2), of "10 + k"] bit_below [OF assms(3), of "22 + k"]
      by (auto simp: bit_signed_drop_bit_iff bit_make_id)
  qed
qed

section \<open>Properties\<close>

text \<open>
  C22. Ids are unique and increasing: any number of consecutive calls on a new generator
  return strictly increasing, pairwise distinct, non-negative \<open>int64\<close> values, whatever
  the clock does meanwhile (it may stand still or run backwards), as long as its readings
  stay below \<open>2^41\<close> milliseconds.
\<close>

theorem snowflake_ids_increasing:
  assumes "NewSnowflake node = Inr s" "list_all clock_ok clk" "gen_run n s clk = Some ids"
  shows "sorted_wrt (\<lambda>i j. sint i < sint j) ids \<and> distinct ids \<and> length ids = n \<and> list_all (\<lambda>i. 0 \<le> sint i) ids"
proof -
  note inv = sf_inv_fresh [OF assms(1)]
  note run = gen_run_sorted [OF assms(3) inv assms(2)]
  have nat: "sint i = int (unat i)" if "i \<in> set ids" for i
    using gen_run_bound [OF assms(3) inv assms(2) that] by (rule sint_unat)
  from run have st: "sorted_wrt (<) (map unat ids)" and len: "length ids = n" by auto
  from st have "distinct (map unat ids)" by (simp add: strict_sorted_iff)
  then have "distinct ids" by (simp add: distinct_map)
  moreover from st have "sorted_wrt (\<lambda>i j. sint i < sint j) ids"
    unfolding sorted_wrt_map by (rule sorted_wrt_mono_rel [rotated]) (simp only: nat of_nat_less_iff)
  moreover have "list_all (\<lambda>i. 0 \<le> sint i) ids" by (simp add: list_all_iff nat del: sint_unat)
  ultimately show ?thesis using len by simp
qed

theorem snowflake_ids_increasing_witness:
  "\<exists>s ids. NewSnowflake 7 = Inr s \<and> gen_run 3 s [1000, 1000, 999, 998, 1001] = Some ids
     \<and> distinct ids \<and> length ids = 3"
proof -
  let ?s = "\<lparr>lastTimestamp = 0, seqno = 0, nodeID = 7\<rparr> :: snowflake"
  let ?ids = "[make_id 1000 7 0, make_id 1000 7 1, make_id 1001 7 0]"
  have n: "NewSnowflake 7 = Inr ?s" by (simp add: NewSnowflake_def word_sless_alt)
  have r: "gen_run 3 ?s [1000, 1000, 999, 998, 1001] = Some ?ids"
    by (simp add: numeral_3_eq_3 Generate_def wait_past.simps Let_def word_sless_alt word_sle_eq)
  have c: "list_all clock_ok [1000, 1000, 999, 998, 1001]" by (simp add: clock_ok_def)
  from snowflake_ids_increasing [OF n c r] n r show ?thesis by blast
qed

text \<open>
  No livelock: a call returns whenever the clock readings it is given eventually pass
  the time of the previous id (they do as soon as the clock has made up a step backwards
  and a full millisecond).
\<close>

theorem snowflake_generate_returns:
  assumes "\<exists>t \<in> set clk. lastTimestamp s <s t"
  shows "\<exists>i s' rest. Generate s clk = Some (i, s', rest)"
proof -
  obtain c cs where clk: "clk = c # cs" using assms by (cases clk) auto
  let ?l = "lastTimestamp s"
  have past: "\<exists>t \<in> set (c # cs). \<not> t \<le>s ?l"
    using assms clk by (simp add: word_sless_alt word_sle_eq not_le)
  show ?thesis
  proof (cases "c <s ?l")
    case True
    from wait_past_returns [OF past] obtain t r where w: "wait_past ?l c cs = Some (t, r)" by auto
    then have "t \<noteq> ?l" by (metis wait_past_above word_sle_eq order_refl)
    with True w clk show ?thesis by (simp add: Generate_def)
  next
    case False
    show ?thesis
    proof (cases "c = ?l \<and> (seqno s + 1) AND 0xFFF = 0")
      case True
      with False clk wait_past_returns [OF past] show ?thesis
        by (auto simp: Generate_def Let_def)
    next
      case stay: False
      with False clk show ?thesis by (cases "c = ?l") (auto simp: Generate_def Let_def)
    qed
  qed
qed

theorem snowflake_generate_returns_witness:
  "\<exists>i s' rest. Generate \<lparr>lastTimestamp = 50, seqno = 4095, nodeID = 1\<rparr> [50, 50, 49, 51] = Some (i, s', rest)"
  by (rule snowflake_generate_returns) (simp add: word_sless_alt)

text \<open>
  Parsing an id: \<open>ParseSnowflakeID\<close> recovers the node and the sequence of every id
  a generator makes, and its timestamp is the generation time shifted by the epoch
  \<open>1288834974657\<close>, which \<open>Generate\<close> never subtracted: no id is parsed to the time
  it was made at.
\<close>

theorem snowflake_parse_generate:
  assumes "Generate s clk = Some (i, s', rest)" "sf_inv s" "list_all clock_ok clk"
  shows "ParseSnowflakeID i = \<lparr>Timestamp = lastTimestamp s' + 1288834974657, NodeID = nodeID s, Sequence = seqno s'\<rparr>
       \<and> Timestamp (ParseSnowflakeID i) \<noteq> lastTimestamp s'"
proof -
  have i: "i = make_id (lastTimestamp s') (nodeID s) (seqno s')" and inv: "sf_inv s'" "nodeID s' = nodeID s"
    using Generate_spec [OF assms] by auto
  then have b: "unat (lastTimestamp s') < 2 ^ 41" "unat (nodeID s) < 2 ^ 10" "unat (seqno s') < 2 ^ 12"
    by (auto simp: inv_defs clock_ok_def)
  have "ParseSnowflakeID i = \<lparr>Timestamp = lastTimestamp s' + 1288834974657, NodeID = nodeID s, Sequence = seqno s'\<rparr>"
    unfolding ParseSnowflakeID_def i
    by (simp only: make_id_time [OF b] make_id_node [OF b] make_id_seq [OF b])
  then show ?thesis by simp
qed

theorem snowflake_parse_generate_witness:
  "\<exists>i s' rest. Generate \<lparr>lastTimestamp = 9, seqno = 0, nodeID = 5\<rparr> [9] = Some (i, s', rest)
     \<and> NodeID (ParseSnowflakeID i) = 5 \<and> Sequence (ParseSnowflakeID i) = 1"
proof -
  let ?s = "\<lparr>lastTimestamp = 9, seqno = 0, nodeID = 5\<rparr> :: snowflake"
  have g: "Generate ?s [9] = Some (make_id 9 5 1, ?s\<lparr>seqno := 1\<rparr>, [])"
    by (simp add: Generate_def Let_def word_sless_alt)
  have "sf_inv ?s" "list_all clock_ok [9]" by (simp_all add: inv_defs clock_ok_def)
  from snowflake_parse_generate [OF g this] g show ?thesis by auto
qed

text \<open>
  Two nodes never issue the same id: generators with different node numbers (the
  gateway, Logic and Agent are configured apart) produce disjoint sets of ids, even when
  their clocks agree.
\<close>

theorem snowflake_nodes_disjoint:
  assumes "NewSnowflake m = Inr s" "NewSnowflake n = Inr t" "m \<noteq> n"
    and "list_all clock_ok c" "list_all clock_ok d" "gen_run j s c = Some xs" "gen_run k t d = Some ys"
  shows "set xs \<inter> set ys = {}"
proof (rule ccontr)
  assume "set xs \<inter> set ys \<noteq> {}"
  then obtain i where i: "i \<in> set xs" "i \<in> set ys" by blast
  note inv = sf_inv_fresh [OF assms(1)] sf_inv_fresh [OF assms(2)]
  obtain a p b q where "i = make_id a (nodeID s) p" "clock_ok a" "unat p < 2 ^ 12"
    "i = make_id b (nodeID t) q" "clock_ok b" "unat q < 2 ^ 12"
    using gen_run_node [OF assms(6) inv(1) assms(4) i(1)] gen_run_node [OF assms(7) inv(2) assms(5) i(2)] by blast
  then have "nodeID s = nodeID t"
    using make_id_inj [of a "nodeID s" p b "nodeID t" q] inv by (auto simp: inv_defs)
  with assms(1-3) show False by (auto simp: NewSnowflake_def split: if_splits)
qed

theorem snowflake_nodes_disjoint_witness:
  "\<exists>xs ys. gen_run 1 \<lparr>lastTimestamp = 0, seqno = 0, nodeID = 1\<rparr> [77] = Some xs
     \<and> gen_run 1 \<lparr>lastTimestamp = 0, seqno = 0, nodeID = 2\<rparr> [77] = Some ys \<and> set xs \<inter> set ys = {}"
proof -
  let ?s = "\<lambda>n. \<lparr>lastTimestamp = 0, seqno = 0, nodeID = n\<rparr> :: snowflake"
  have n: "NewSnowflake 1 = Inr (?s 1)" "NewSnowflake 2 = Inr (?s 2)" "(1 :: i64) \<noteq> 2"
    by (simp_all add: NewSnowflake_def word_sless_alt)
  have r: "gen_run 1 (?s 1) [77] = Some [make_id 77 1 0]" "gen_run 1 (?s 2) [77] = Some [make_id 77 2 0]"
    by (simp_all add: Generate_def word_sless_alt)
  have c: "list_all clock_ok [77]" by (simp add: clock_ok_def)
  from snowflake_nodes_disjoint [OF n c c r] r show ?thesis by blast
qed

end
