(* ===== verification/Consistent_Hash.thy ===== *)
theory Consistent_Hash
  imports Prelude
begin

text \<open>
  The hash ring of \<open>apps/pkg/geeRPC/xclient/consistent_hash.go\<close>: every server name owns
  \<open>replicas\<close> virtual nodes, and a key belongs to the first virtual node clockwise of its
  hash. The hash function is a field of the ring, as in the code; the default is
  \<open>crc32.ChecksumIEEE\<close>, written out below.
\<close>

unbundle bit_operations_syntax

section \<open>The default hash\<close>

definition crc_step :: "u32 \<Rightarrow> u32" where
  "crc_step c = (if bit c 0 then drop_bit 1 c XOR 0xEDB88320 else drop_bit 1 c)"

definition crc_byte :: "u32 \<Rightarrow> char \<Rightarrow> u32" where
  "crc_byte c x = (crc_step ^^ 8) (c XOR of_nat (of_char x))"

definition ChecksumIEEE :: "gostring \<Rightarrow> u32" where
  "ChecksumIEEE s = foldl crc_byte 0xFFFFFFFF s XOR 0xFFFFFFFF"

section \<open>The ring\<close>

record hash_ring =
  hash_fn :: "gostring \<Rightarrow> u32"
  replicas :: int
  keys :: "int list"
  hashMap :: "int \<rightharpoonup> gostring"

definition New :: "int \<Rightarrow> (gostring \<Rightarrow> u32) option \<Rightarrow> hash_ring" where
  "New reps fn =
     \<lparr>hash_fn = (case fn of None \<Rightarrow> ChecksumIEEE | Some f \<Rightarrow> f),
      replicas = reps, keys = [], hashMap = Map.empty\<rparr>"

text \<open>\<open>int(m.hash([]byte(strconv.Itoa(i) + key)))\<close>\<close>

definition vnode_hash :: "hash_ring \<Rightarrow> nat \<Rightarrow> gostring \<Rightarrow> int" where
  "vnode_hash m i key = uint (hash_fn m (itoa (int i) @ key))"

definition add_vnode :: "gostring \<Rightarrow> nat \<Rightarrow> hash_ring \<Rightarrow> hash_ring" where
  "add_vnode key i m =
     (let h = vnode_hash m i key
      in m\<lparr>keys := keys m @ [h], hashMap := (hashMap m)(h \<mapsto> key)\<rparr>)"

definition add_node :: "gostring \<Rightarrow> hash_ring \<Rightarrow> hash_ring" where
  "add_node key m = fold (add_vnode key) [0..<nat (replicas m)] m"

definition Add :: "gostring list \<Rightarrow> hash_ring \<Rightarrow> hash_ring" where
  "Add names m = (let m' = fold add_node names m in m'\<lparr>keys := sort (keys m')\<rparr>)"

text \<open>
  The zero value of a missing map entry is \<open>""\<close>. The slice read
  \<open>m.keys[idx % len(m.keys)]\<close> is in range because the remainder is.
\<close>

definition Get :: "hash_ring \<Rightarrow> gostring \<Rightarrow> gostring" where
  "Get m key =
     (if keys m = [] then ''''
      else let h = uint (hash_fn m key);
               idx = sort_search (length (keys m)) (\<lambda>i. h \<le> keys m ! i)
           in (case hashMap m (keys m ! (idx mod length (keys m))) of
                 None \<Rightarrow> '''' | Some name \<Rightarrow> name))"

section \<open>What the ring promises\<close>

text \<open>
  The abstract view: the owner of a point is the name at the least position not below it,
  and at the least position of all when there is none.
\<close>

definition positions :: "hash_ring \<Rightarrow> int set" where
  "positions m = dom (hashMap m)"

definition clockwise :: "int set \<Rightarrow> int \<Rightarrow> int" where
  "clockwise P h = (if \<exists>p \<in> P. h \<le> p then Min {p \<in> P. h \<le> p} else Min P)"

definition owner :: "hash_ring \<Rightarrow> int \<Rightarrow> gostring" where
  "owner m h = (case hashMap m (clockwise (positions m) h) of None \<Rightarrow> '''' | Some name \<Rightarrow> name)"

definition ring_inv :: "hash_ring \<Rightarrow> bool" where
  [inv_defs]: "ring_inv m \<longleftrightarrow> sorted (keys m) \<and> set (keys m) = dom (hashMap m)"

lemma finite_positions: "ring_inv m \<Longrightarrow> finite (positions m)"
  by (metis List.finite_set positions_def ring_inv_def)

lemma ring_inv_New: "ring_inv (New reps fn)"
  by (simp add: inv_defs New_def)

lemma fold_vnodes:
  "hash_fn (fold (add_vnode key) js m) = hash_fn m
   \<and> replicas (fold (add_vnode key) js m) = replicas m
   \<and> set (keys (fold (add_vnode key) js m)) = set (keys m) \<union> (\<lambda>i. vnode_hash m i key) ` set js
   \<and> hashMap (fold (add_vnode key) js m)
       = (\<lambda>p. if p \<in> (\<lambda>i. vnode_hash m i key) ` set js then Some key else hashMap m p)"
  by (induction js arbitrary: m) (auto simp: add_vnode_def vnode_hash_def Let_def fun_eq_iff)

definition node_points :: "hash_ring \<Rightarrow> gostring \<Rightarrow> int set" where
  "node_points m name = (\<lambda>i. vnode_hash m i name) ` {0..<nat (replicas m)}"

lemma add_node_effect:
  shows "hash_fn (add_node key m) = hash_fn m" "replicas (add_node key m) = replicas m"
    and "set (keys (add_node key m)) = set (keys m) \<union> node_points m key"
    and "hashMap (add_node key m) = (\<lambda>p. if p \<in> node_points m key then Some key else hashMap m p)"
  using fold_vnodes [of key "[0..<nat (replicas m)]" m]
  by (auto simp: add_node_def node_points_def)

lemma node_points_cong:
  "hash_fn m' = hash_fn m \<Longrightarrow> replicas m' = replicas m \<Longrightarrow> node_points m' = node_points m"
  by (simp add: node_points_def vnode_hash_def fun_eq_iff)

lemma fold_nodes:
  "hash_fn (fold add_node names m) = hash_fn m \<and> replicas (fold add_node names m) = replicas m
   \<and> set (keys (fold add_node names m)) = set (keys m) \<union> (\<Union>n \<in> set names. node_points m n)
   \<and> dom (hashMap (fold add_node names m)) = dom (hashMap m) \<union> (\<Union>n \<in> set names. node_points m n)
   \<and> ran (hashMap (fold add_node names m)) \<subseteq> ran (hashMap m) \<union> set names"
proof (induction names arbitrary: m)
  case (Cons n names)
  have c: "node_points (add_node n m) = node_points m"
    by (rule node_points_cong) (simp_all add: add_node_effect)
  have r: "ran (hashMap (add_node n m)) \<subseteq> insert n (ran (hashMap m))"
    by (auto simp: add_node_effect ran_def split: if_splits)
  have d: "dom (hashMap (add_node n m)) = dom (hashMap m) \<union> node_points m n"
    by (auto simp: add_node_effect dom_def split: if_splits)
  show ?case using Cons.IH [of "add_node n m"] r
    by (auto simp: c d add_node_effect)
qed auto

lemma Add_fields:
  "hash_fn (Add names m) = hash_fn m" "replicas (Add names m) = replicas m"
  "set (keys (Add names m)) = set (keys m) \<union> (\<Union>n \<in> set names. node_points m n)"
  "dom (hashMap (Add names m)) = dom (hashMap m) \<union> (\<Union>n \<in> set names. node_points m n)"
  "ran (hashMap (Add names m)) \<subseteq> ran (hashMap m) \<union> set names"
  using fold_nodes [of names m] by (auto simp: Add_def Let_def)

lemma ring_inv_Add: "ring_inv m \<Longrightarrow> ring_inv (Add names m)"
proof -
  assume "ring_inv m"
  moreover have "sorted (keys (Add names m))" by (simp add: Add_def Let_def)
  ultimately show ?thesis by (auto simp: inv_defs Add_fields)
qed

section \<open>Binary search finds the owner\<close>

lemma search_clockwise:
  assumes s: "sorted ks" and ne: "ks \<noteq> []"
  shows "ks ! (sort_search (length ks) (\<lambda>i. h \<le> ks ! i) mod length ks) = clockwise (set ks) h"
proof -
  let ?n = "length ks" and ?f = "\<lambda>i. h \<le> ks ! i"
  let ?i = "sort_search ?n ?f"
  have mono: "\<And>a b. a \<le> b \<Longrightarrow> b < ?n \<Longrightarrow> ?f a \<Longrightarrow> ?f b"
    using s sorted_nth_mono order_trans by metis
  have least: "\<forall>k < ?i. \<not> ?f k" "\<forall>k. ?i \<le> k \<and> k < ?n \<longrightarrow> ?f k"
    by (rule sort_search_least, erule (2) mono)+
  show ?thesis
  proof (cases "?i < ?n")
    case True
    then have ge: "h \<le> ks ! ?i" using least(2) by blast
    have "Min {p \<in> set ks. h \<le> p} = ks ! ?i"
    proof (rule Min_eqI)
      fix p assume "p \<in> {p \<in> set ks. h \<le> p}"
      then obtain k where "k < ?n" "p = ks ! k" "h \<le> ks ! k" by (auto simp: in_set_conv_nth)
      with least(1) s show "ks ! ?i \<le> p" by (metis not_le sorted_nth_mono)
    qed (use True ge in auto)
    with True ge show ?thesis by (auto simp: clockwise_def)
  next
    case False
    then have "?i = ?n" using sort_search_le [of ?n ?f] by simp
    with least(1) have "\<not> (\<exists>p \<in> set ks. h \<le> p)" by (auto simp: in_set_conv_nth)
    moreover have "Min (set ks) = ks ! 0"
      by (rule Min_eqI) (use ne s in \<open>auto simp: in_set_conv_nth sorted_nth_mono\<close>)
    ultimately show ?thesis using \<open>?i = ?n\<close> by (simp add: clockwise_def)
  qed
qed

lemma Get_owner: "ring_inv m \<Longrightarrow> keys m \<noteq> [] \<Longrightarrow> Get m key = owner m (uint (hash_fn m key))"
  by (simp add: Get_def Let_def owner_def positions_def inv_defs search_clockwise)

lemma clockwise_in: "finite P \<Longrightarrow> P \<noteq> {} \<Longrightarrow> clockwise P h \<in> P"
  using Min_in [of "{p \<in> P. h \<le> p}"] by (auto simp: clockwise_def)

lemma Get_ran: "ring_inv m \<Longrightarrow> keys m \<noteq> [] \<Longrightarrow> Get m key \<in> ran (hashMap m)"
proof -
  assume a: "ring_inv m" "keys m \<noteq> []"
  then have "clockwise (positions m) (uint (hash_fn m key)) \<in> dom (hashMap m)"
    by (metis clockwise_in finite_positions positions_def ring_inv_def set_empty)
  with a show ?thesis by (auto simp: Get_owner owner_def intro: ranI)
qed

text \<open>Adding points moves the owner of a point only to a new point.\<close>

lemma clockwise_insert:
  assumes "finite P" "finite Q" "P \<noteq> {}"
  shows "clockwise (P \<union> Q) h \<in> Q \<or> clockwise (P \<union> Q) h = clockwise P h"
proof (rule disjCI)
  assume "clockwise (P \<union> Q) h \<noteq> clockwise P h"
  have R: "clockwise R h \<in> R \<and> ((\<exists>p\<in>R. h \<le> p) \<longrightarrow> h \<le> clockwise R h \<and> (\<forall>p\<in>R. h \<le> p \<longrightarrow> clockwise R h \<le> p))
     \<and> (\<not> (\<exists>p\<in>R. h \<le> p) \<longrightarrow> (\<forall>p\<in>R. clockwise R h \<le> p))" if "finite R" "R \<noteq> {}" for R
  proof (cases "\<exists>p\<in>R. h \<le> p")
    case True
    then have "Min {p \<in> R. h \<le> p} \<in> {p \<in> R. h \<le> p}" using that by (intro Min_in) auto
    with True that show ?thesis by (auto simp: clockwise_def)
  next
    case False
    with that show ?thesis by (auto simp: clockwise_def)
  qed
  show "clockwise (P \<union> Q) h \<in> Q"
    using R [of P] R [of "P \<union> Q"] assms \<open>clockwise (P \<union> Q) h \<noteq> clockwise P h\<close>
    by (metis UnCI UnE antisym finite_UnI sup_eq_bot_iff)
qed

section \<open>Properties\<close>

text \<open>
  C23. The binary search is the ring's specification: on a ring built by \<open>New\<close> and any number
  of \<open>Add\<close>s, \<open>Get\<close> returns the owner of the key's hash, that is the name at the first
  position clockwise of it, wrapping around at the top.
\<close>

theorem ring_get_is_clockwise_owner:
  assumes "m = fold Add batches (New reps fn)" "keys m \<noteq> []"
  shows "Get m key = owner m (uint (hash_fn m key))"
proof -
  have "ring_inv (fold Add batches m0)" if "ring_inv m0" for m0
    using that by (induction batches arbitrary: m0) (auto intro: ring_inv_Add)
  with assms ring_inv_New show ?thesis by (auto intro: Get_owner)
qed

definition len_hash :: "gostring \<Rightarrow> u32" where
  "len_hash s = of_nat (10 * length s)"

lemma ring_example:
  "Add [''bb'', ''a''] (New 1 (Some len_hash))
   = \<lparr>hash_fn = len_hash, replicas = 1, keys = [20, 30], hashMap = [30 \<mapsto> ''bb'', 20 \<mapsto> ''a'']\<rparr>"
  by (simp add: Add_def add_node_def add_vnode_def vnode_hash_def New_def len_hash_def Let_def itoa_def
      nat_text.simps [of 0])

theorem ring_get_is_clockwise_owner_witness:
  "keys (fold Add [[''bb'', ''a'']] (New 1 (Some len_hash))) \<noteq> []
   \<and> Get (fold Add [[''bb'', ''a'']] (New 1 (Some len_hash))) ''xyz''
     = owner (fold Add [[''bb'', ''a'']] (New 1 (Some len_hash))) 30"
  using ring_get_is_clockwise_owner [of _ "[[''bb'', ''a'']]" 1 "Some len_hash" "''xyz''", OF refl]
  by (simp add: ring_example len_hash_def)

text \<open>
  Minimal disruption, the point of consistent hashing: after adding one more server, every
  key is served by the server it had before or by the new one, never by a third.
\<close>

theorem ring_add_moves_only_to_new:
  assumes "ring_inv m" "keys m \<noteq> []"
  shows "Get (Add [name] m) key = Get m key \<or> Get (Add [name] m) key = name"
proof -
  let ?m = "Add [name] m" and ?h = "uint (hash_fn m key)"
  have P: "positions ?m = positions m \<union> node_points m name"
    by (simp add: positions_def Add_fields)
  have hm: "hashMap ?m = (\<lambda>p. if p \<in> node_points m name then Some name else hashMap m p)"
    by (simp add: Add_def Let_def add_node_effect)
  have fin: "finite (positions m)" "finite (node_points m name)" "positions m \<noteq> {}"
    using assms finite_positions [OF assms(1)] by (auto simp: node_points_def positions_def inv_defs)
  have "keys ?m \<noteq> []" using assms(2) Add_fields(3) [of "[name]" m] by auto
  then have G: "Get ?m key = owner ?m ?h" "Get m key = owner m ?h"
    using assms by (simp_all add: Get_owner ring_inv_Add Add_fields)
  from clockwise_insert [OF fin, of ?h] show ?thesis
    unfolding G owner_def P by (auto simp: hm)
qed

theorem ring_add_moves_only_to_new_witness:
  "Get (Add [''ccc''] (Add [''bb'', ''a''] (New 1 (Some len_hash)))) ''wxyz'' = ''ccc''
   \<and> Get (Add [''bb'', ''a''] (New 1 (Some len_hash))) ''wxyz'' = ''a''"
proof -
  have i: "ring_inv (Add [''bb'', ''a''] (New 1 (Some len_hash)))"
    "keys (Add [''bb'', ''a''] (New 1 (Some len_hash))) \<noteq> []"
    by (simp_all add: ring_inv_Add ring_inv_New) (simp add: ring_example)
  show ?thesis using ring_add_moves_only_to_new [OF i, of "''ccc''" "''wxyz''"]
    unfolding ring_example
    by (simp add: Add_def add_node_def add_vnode_def vnode_hash_def len_hash_def Let_def itoa_def
        nat_text.simps [of 0] Get_def sort_search_def search_between.simps)
qed

end
