(* ===== verification/Discovery.thy ===== *)
theory Discovery
  imports Consistent_Hash
begin

text \<open>
  Service discovery and load balancing: \<open>apps/pkg/geeRPC/xclient/discovery.go\<close> (the
  interface \<open>Discovery\<close> and the list maintained by hand) and \<open>discovery_gee.go\<close>
  (the list fetched from the registry).

  The interface is the locale \<open>discovery\<close>; both implementations are interpretations of
  it. What an implementation needs to serve \<open>ConsistentHash\<close> as well is the locale
  \<open>keyed_discovery\<close>, which only the first one satisfies.

  \<open>math/rand\<close> is an argument: \<open>intn g n\<close> is the next state of the source and the
  value of \<open>r.Intn(n)\<close>. Clock readings and the registry's HTTP answer are arguments too.
  A read past the end of the slice, which is a panic in Go, is the error
  \<open>index_panic\<close>.
\<close>

type_synonym SelectMode = int

definition RandomSelect :: SelectMode where "RandomSelect = 0"
definition RoundRobinSelect :: SelectMode where "RoundRobinSelect = 1"
definition ConsistentHash :: SelectMode where "ConsistentHash = 2"

lemmas select_modes = RandomSelect_def RoundRobinSelect_def ConsistentHash_def

definition index_panic :: goerror where
  "index_panic = ''runtime error: index out of range''"

definition slice_read :: "'a list \<Rightarrow> int \<Rightarrow> 'a result" where
  "slice_read xs i = (if 0 \<le> i \<and> i < int (length xs) then Inr (xs ! nat i) else Inl index_panic)"

lemma slice_read_Inr [simp]: "slice_read xs i = Inr x \<Longrightarrow> x \<in> set xs"
  by (auto simp: slice_read_def split: if_splits)

section \<open>The interface\<close>

locale discovery =
  fixes refresh :: "'d \<Rightarrow> 'd \<times> goerror option"
    and update :: "gostring list \<Rightarrow> 'd \<Rightarrow> 'd \<times> goerror option"
    and get :: "SelectMode \<Rightarrow> gostring \<Rightarrow> 'd \<Rightarrow> 'd \<times> gostring result"
    and get_all :: "'d \<Rightarrow> 'd \<times> (gostring list) result"
    and servers_of :: "'d \<Rightarrow> gostring list"
    and inv :: "'d \<Rightarrow> bool"
  assumes inv_refresh: "inv d \<Longrightarrow> inv (fst (refresh d))"
    and inv_update: "inv d \<Longrightarrow> inv (fst (update ss d))"
    and inv_get: "inv d \<Longrightarrow> inv (fst (get mode key d))"
    and inv_get_all: "inv d \<Longrightarrow> inv (fst (get_all d))"
    and update_servers: "update ss d = (d', None) \<Longrightarrow> servers_of d' = ss"
    and get_all_servers: "get_all d = (d', Inr ss) \<Longrightarrow> ss = servers_of d'"
    and get_server: "inv d \<Longrightarrow> mode \<noteq> ConsistentHash \<Longrightarrow> get mode key d = (d', Inr s) \<Longrightarrow> s \<in> set (servers_of d')"
    and get_empty: "get mode key d = (d', Inr s) \<Longrightarrow> servers_of d' \<noteq> []"
begin

text \<open>A client that asks the interface never calls an address outside the current list.\<close>

lemma selected_is_listed:
  assumes "inv d" "mode \<noteq> ConsistentHash" "get mode key d = (d', Inr s)"
  shows "s \<in> set (servers_of d') \<and> inv d'"
  using get_server [OF assms] inv_get [OF assms(1), of mode key] assms(3) by simp

end

locale keyed_discovery = discovery +
  assumes get_keyed: "inv d \<Longrightarrow> get ConsistentHash key d = (d', Inr s) \<Longrightarrow> s \<in> set (servers_of d')"
    and get_sticky: "inv d \<Longrightarrow> get ConsistentHash key d = (d', Inr s) \<Longrightarrow> d' = d"
begin

lemma any_mode_listed:
  assumes "inv d" "get mode key d = (d', Inr s)"
  shows "s \<in> set (servers_of d') \<and> inv d'"
  using assms selected_is_listed [of d mode key d' s] get_keyed inv_get [OF assms(1), of mode key]
  by (cases "mode = ConsistentHash") auto

text \<open>One key always reaches one server, as long as nothing else touches the list.\<close>

lemma routing_stable:
  assumes "inv d" "get ConsistentHash key d = (d', Inr s)" "get ConsistentHash key d' = (d'', r)"
  shows "r = Inr s"
  using get_sticky [OF assms(1,2)] assms(2,3) by simp

end

section \<open>The list maintained by hand\<close>

record 'g multi_servers =
  rand_src :: 'g
  servers :: "gostring list"
  index :: int
  ring :: hash_ring

text \<open>50 virtual nodes per server, the default hash.\<close>

definition build_ring :: "gostring list \<Rightarrow> hash_ring" where
  "build_ring ss = Add ss (New 50 None)"

definition NewMultiServerDiscovery ::
    "('g \<Rightarrow> int \<Rightarrow> 'g \<times> int) \<Rightarrow> 'g \<Rightarrow> gostring list \<Rightarrow> 'g multi_servers" where
  "NewMultiServerDiscovery intn g ss =
     (case intn g (2147483647 - 1) of (g', i) \<Rightarrow>
       \<lparr>rand_src = g', servers = ss, index = i, ring = build_ring ss\<rparr>)"

definition MultiRefresh :: "('g, 'z) multi_servers_scheme \<Rightarrow> ('g, 'z) multi_servers_scheme \<times> goerror option" where
  "MultiRefresh d = (d, None)"

definition MultiUpdate ::
    "gostring list \<Rightarrow> ('g, 'z) multi_servers_scheme \<Rightarrow> ('g, 'z) multi_servers_scheme \<times> goerror option" where
  "MultiUpdate ss d = (d\<lparr>servers := ss, ring := build_ring ss\<rparr>, None)"

definition MultiGet ::
    "('g \<Rightarrow> int \<Rightarrow> 'g \<times> int) \<Rightarrow> SelectMode \<Rightarrow> gostring \<Rightarrow> ('g, 'z) multi_servers_scheme
     \<Rightarrow> ('g, 'z) multi_servers_scheme \<times> gostring result" where
  "MultiGet intn mode key d =
     (let n = int (length (servers d)) in
      if n = 0 then (d, Inl ''rpc discovery: no available servers'')
      else if mode = RandomSelect then
        (case intn (rand_src d) n of (g', r) \<Rightarrow> (d\<lparr>rand_src := g'\<rparr>, slice_read (servers d) r))
      else if mode = RoundRobinSelect then
        (case slice_read (servers d) (go_rem (index d) n) of
           Inl e \<Rightarrow> (d, Inl e)
         | Inr s \<Rightarrow> (d\<lparr>index := go_rem (index d + 1) n\<rparr>, Inr s))
      else if mode = ConsistentHash then
        (if key = '''' then (d, Inl ''rpc discovery: key is required for ConsistentHash'')
         else (d, Inr (Get (ring d) key)))
      else (d, Inl ''rpc discovery: not supported select mode''))"

definition MultiGetAll ::
    "('g, 'z) multi_servers_scheme \<Rightarrow> ('g, 'z) multi_servers_scheme \<times> (gostring list) result" where
  "MultiGetAll d = (d, Inr (servers d))"

text \<open>The ring is the ring of the list: \<open>NewMultiServerDiscovery\<close> and \<open>Update\<close> rebuild it.\<close>

definition ring_synced :: "('g, 'z) multi_servers_scheme \<Rightarrow> bool" where
  [inv_defs]: "ring_synced d \<longleftrightarrow> ring d = build_ring (servers d)"

lemma build_ring_inv: "ring_inv (build_ring ss)"
  by (simp add: build_ring_def ring_inv_Add ring_inv_New)

lemma build_ring_empty: "keys (build_ring ss) = [] \<longleftrightarrow> ss = []"
proof -
  have "node_points (New 50 None) n \<noteq> {}" for n by (simp add: node_points_def New_def)
  then have "set (keys (build_ring ss)) = {} \<longleftrightarrow> ss = []"
    unfolding build_ring_def Add_fields by (cases ss) (simp_all add: New_def)
  then show ?thesis by simp
qed

lemma build_ring_serves: "ss \<noteq> [] \<Longrightarrow> Get (build_ring ss) key \<in> set ss"
proof -
  assume "ss \<noteq> []"
  then have "Get (build_ring ss) key \<in> ran (hashMap (build_ring ss))"
    by (intro Get_ran) (simp_all add: build_ring_inv build_ring_empty)
  moreover have "ran (hashMap (build_ring ss)) \<subseteq> set ss"
    using Add_fields(5) [of ss "New 50 None"] by (simp add: build_ring_def New_def)
  ultimately show ?thesis by blast
qed

lemma MultiGet_frame:
  "MultiGet intn mode key d = (d', r) \<Longrightarrow>
   servers d' = servers d \<and> ring d' = ring d \<and> multi_servers.more d' = multi_servers.more d"
  by (auto simp: MultiGet_def Let_def split: if_splits prod.splits sum.splits)

lemma MultiGet_ok:
  assumes "MultiGet intn mode key d = (d', Inr s)"
  shows "servers d \<noteq> [] \<and> (mode \<noteq> ConsistentHash \<longrightarrow> s \<in> set (servers d))
       \<and> (mode = ConsistentHash \<longrightarrow> key \<noteq> '''' \<and> d' = d \<and> s = Get (ring d) key)"
  using assms
  by (auto simp: MultiGet_def Let_def select_modes dest!: slice_read_Inr split: if_splits prod.splits sum.splits)

interpretation multi: keyed_discovery MultiRefresh MultiUpdate "MultiGet intn" MultiGetAll servers ring_synced
  for intn :: "'g \<Rightarrow> int \<Rightarrow> 'g \<times> int"
proof (unfold_locales, goal_cases)
  case (3 d mode key)
  then show ?case using MultiGet_frame [of intn mode key d] by (cases "MultiGet intn mode key d") (auto simp: inv_defs)
next
  case (7 d mode key d' s)
  then show ?case using MultiGet_ok MultiGet_frame by metis
next
  case (8 mode key d d' s)
  then show ?case using MultiGet_ok MultiGet_frame by metis
next
  case (9 d key d' s)
  then show ?case using MultiGet_ok [OF 9(2)] build_ring_serves by (auto simp: inv_defs)
next
  case (10 d key d' s)
  then show ?case using MultiGet_ok [OF 10(2)] by simp
qed (auto simp: inv_defs MultiRefresh_def MultiUpdate_def MultiGetAll_def)

section \<open>The list kept by the registry\<close>

record 'g gee_discovery = "'g multi_servers" +
  registry :: gostring
  timeout :: time
  lastUpdate :: time

definition defaultUpdateTimeout :: time where
  "defaultUpdateTimeout = 10 * second"

text \<open>The zero \<open>time.Time\<close>: January 1 of year 1, in nanoseconds before 1970.\<close>

definition zero_time :: time where
  "zero_time = - 62135596800 * second"

definition NewGeeRegistryDiscovery ::
    "('g \<Rightarrow> int \<Rightarrow> 'g \<times> int) \<Rightarrow> 'g \<Rightarrow> gostring \<Rightarrow> time \<Rightarrow> 'g gee_discovery" where
  "NewGeeRegistryDiscovery intn g addr t =
     multi_servers.extend (NewMultiServerDiscovery intn g [])
       (gee_discovery.fields addr (if t = 0 then defaultUpdateTimeout else t) zero_time)"

definition GeeUpdate :: "time \<Rightarrow> gostring list \<Rightarrow> 'g gee_discovery \<Rightarrow> 'g gee_discovery \<times> goerror option" where
  "GeeUpdate now ss d = (d\<lparr>servers := ss, lastUpdate := now\<rparr>, None)"

text \<open>The loop over \<open>strings.Split(header, ",")\<close>: drop blank entries, trim the others.\<close>

definition parse_servers :: "gostring \<Rightarrow> gostring list" where
  "parse_servers header =
     map trim_space (filter (\<lambda>s. trim_space s \<noteq> '''') (split_on CHR '','' header))"

text \<open>
  \<open>env_now\<close> is the reading of the staleness test, \<open>env_answer\<close> the outcome of
  \<open>http.Get(d.registry)\<close> (its error, or the header \<open>X-Geerpc-Servers\<close> of the response),
  \<open>env_later\<close> the reading after it.
\<close>

record registry_env =
  env_now :: time
  env_answer :: "gostring result"
  env_later :: time

definition GeeRefresh :: "registry_env \<Rightarrow> 'g gee_discovery \<Rightarrow> 'g gee_discovery \<times> goerror option" where
  "GeeRefresh e d =
     (if env_now e < lastUpdate d + timeout d then (d, None)
      else case env_answer e of
        Inl err \<Rightarrow> (d, Some err)
      | Inr header \<Rightarrow> (d\<lparr>servers := parse_servers header, lastUpdate := env_later e\<rparr>, None))"

definition GeeGet ::
    "('g \<Rightarrow> int \<Rightarrow> 'g \<times> int) \<Rightarrow> registry_env \<Rightarrow> SelectMode \<Rightarrow> gostring \<Rightarrow> 'g gee_discovery
     \<Rightarrow> 'g gee_discovery \<times> gostring result" where
  "GeeGet intn e mode key d =
     (case GeeRefresh e d of
        (d', Some err) \<Rightarrow> (d', Inl err)
      | (d', None) \<Rightarrow> MultiGet intn mode key d')"

definition GeeGetAll :: "registry_env \<Rightarrow> 'g gee_discovery \<Rightarrow> 'g gee_discovery \<times> (gostring list) result" where
  "GeeGetAll e d =
     (case GeeRefresh e d of
        (d', Some err) \<Rightarrow> (d', Inl err)
      | (d', None) \<Rightarrow> MultiGetAll d')"

text \<open>What is true of this implementation instead: its ring is the empty one it started with.\<close>

definition ring_never_built :: "'g gee_discovery \<Rightarrow> bool" where
  [inv_defs]: "ring_never_built d \<longleftrightarrow> ring d = build_ring []"

lemma GeeRefresh_ring: "ring (fst (GeeRefresh e d)) = ring d"
  by (simp add: GeeRefresh_def split: sum.splits)

lemma GeeGet_ok:
  assumes "GeeGet intn e mode key d = (d', Inr s)"
  obtains d1 where "GeeRefresh e d = (d1, None)" "MultiGet intn mode key d1 = (d', Inr s)"
  using assms by (auto simp: GeeGet_def split: prod.splits option.splits)

lemma GeeGet_ring: "ring (fst (GeeGet intn e mode key d)) = ring d"
  using GeeRefresh_ring [of e d] MultiGet_frame [of intn mode key "fst (GeeRefresh e d)"]
  by (cases "GeeRefresh e d"; cases "MultiGet intn mode key (fst (GeeRefresh e d))")
    (auto simp: GeeGet_def split: option.splits)

lemma GeeGetAll_ring: "ring (fst (GeeGetAll e d)) = ring d"
  using GeeRefresh_ring [of e d]
  by (auto simp: GeeGetAll_def MultiGetAll_def split: prod.splits option.splits)

interpretation gee: discovery "GeeRefresh e" "GeeUpdate now" "GeeGet intn e" "GeeGetAll e" servers ring_never_built
  for e :: registry_env and now :: time and intn :: "'g \<Rightarrow> int \<Rightarrow> 'g \<times> int"
proof (unfold_locales, goal_cases)
  case (4 d)
  then show ?case by (simp add: inv_defs GeeGetAll_ring)
next
  case (7 d mode key d' s)
  then show ?case using MultiGet_ok MultiGet_frame by (metis GeeGet_ok)
next
  case (8 mode key d d' s)
  then show ?case using MultiGet_ok MultiGet_frame by (metis GeeGet_ok)
qed (auto simp: inv_defs GeeUpdate_def GeeRefresh_ring GeeGet_ring GeeGetAll_ring GeeGetAll_def MultiGetAll_def
      split: prod.splits option.splits)

section \<open>Properties\<close>

text \<open>Several \<open>Get\<close>s in a row, collecting the answers.\<close>

fun get_many :: "('d \<Rightarrow> 'd \<times> 'a) \<Rightarrow> nat \<Rightarrow> 'd \<Rightarrow> 'a list" where
  "get_many g 0 d = []"
| "get_many g (Suc n) d = snd (g d) # get_many g n (fst (g d))"

lemma round_robin_step:
  assumes "servers d \<noteq> []" "0 \<le> index d"
  shows "MultiGet intn RoundRobinSelect key d
       = (d\<lparr>index := (index d + 1) mod int (length (servers d))\<rparr>,
          Inr (servers d ! nat (index d mod int (length (servers d)))))"
  using assms by (simp add: MultiGet_def Let_def select_modes slice_read_def)

lemma round_robin_many:
  assumes "servers d \<noteq> []" "0 \<le> index d"
  shows "get_many (MultiGet intn RoundRobinSelect key) n d
       = map (\<lambda>i. Inr (servers d ! nat ((index d + int i) mod int (length (servers d))))) [0..<n]"
  using assms
proof (induction n arbitrary: d)
  case (Suc n)
  let ?L = "int (length (servers d))"
  let ?d = "d\<lparr>index := (index d + 1) mod ?L\<rparr>"
  have "0 < ?L" using Suc.prems by simp
  then have "0 \<le> index ?d" by simp
  note ih = Suc.IH [of ?d, OF _ this]
  have shift: "((index d + 1) mod ?L + int i) mod ?L = (index d + int (Suc i)) mod ?L" for i
    using mod_add_left_eq [of "index d + 1" ?L "int i"] by (simp add: ac_simps del: mod_add_left_eq)
  show ?case
    using ih Suc.prems unfolding upt_conv_Cons [OF zero_less_Suc] map_Suc_upt [symmetric]
    by (simp add: round_robin_step shift)
qed simp

text \<open>
  Round robin is fair: from any non-negative starting index, one round of as many calls as
  there are servers returns each position of the list exactly once, in list order from where
  the last round stopped.
\<close>

theorem round_robin_fair:
  assumes "servers d \<noteq> []" "0 \<le> index d"
  shows "get_many (MultiGet intn RoundRobinSelect key) (length (servers d)) d
       = map Inr (rotate (nat (index d)) (servers d))"
proof -
  let ?n = "length (servers d)"
  have "nat ((index d + int i) mod int ?n) = (nat (index d) + i) mod ?n" for i
    using assms(2) by (simp add: nat_mod_distrib nat_add_distrib)
  then have "get_many (MultiGet intn RoundRobinSelect key) ?n d
      = map Inr (map (\<lambda>i. servers d ! ((nat (index d) + i) mod ?n)) [0..<?n])"
    unfolding round_robin_many [OF assms] by simp
  then show ?thesis by (simp add: map_nth_rotate)
qed

theorem round_robin_fair_witness:
  "get_many (MultiGet (\<lambda>g n. (g, 0)) RoundRobinSelect '''') 3
     \<lparr>rand_src = (), servers = [''a'', ''b'', ''c''], index = 4, ring = build_ring []\<rparr>
   = [Inr ''b'', Inr ''c'', Inr ''a'']"
  using round_robin_fair [of "\<lparr>rand_src = (), servers = [''a'', ''b'', ''c''], index = 4, ring = build_ring []\<rparr>"
      "\<lambda>g n. (g, 0)" "''''"]
  by (simp add: numeral_3_eq_3 eval_nat_numeral rotate1_def)

text \<open>
  Consistent hashing is sound and sticky on the hand-kept list: as long as the ring is
  the ring of the list (it is after construction and after every operation), a key is always
  answered with a server of the list, the state is untouched, and asking again gives the same
  server.
\<close>

theorem multi_consistent_hash_sticky:
  assumes "ring_synced d" "servers d \<noteq> []" "key \<noteq> ''''"
  shows "\<exists>s \<in> set (servers d). MultiGet intn ConsistentHash key d = (d, Inr s)
       \<and> s = owner (build_ring (servers d)) (uint (ChecksumIEEE key))"
proof -
  obtain s where s: "MultiGet intn ConsistentHash key d = (d, Inr s)" "s = Get (ring d) key"
    using assms by (simp add: MultiGet_def Let_def select_modes)
  have "hash_fn (build_ring (servers d)) = ChecksumIEEE"
    by (simp add: build_ring_def Add_fields New_def)
  then have "s = owner (build_ring (servers d)) (uint (ChecksumIEEE key))"
    using assms s(2) Get_owner [OF build_ring_inv] build_ring_empty by (simp add: inv_defs)
  moreover have "s \<in> set (servers d)" using multi.get_keyed [OF assms(1) s(1)] .
  ultimately show ?thesis using s(1) by blast
qed

theorem multi_consistent_hash_sticky_witness:
  "\<exists>s \<in> {''tcp@localhost:8001''}.
     MultiGet (\<lambda>g n. (g, 0)) ConsistentHash ''42''
       (NewMultiServerDiscovery (\<lambda>g n. (g, 0)) () [''tcp@localhost:8001''])
     = (NewMultiServerDiscovery (\<lambda>g n. (g, 0)) () [''tcp@localhost:8001''], Inr s)"
  using multi_consistent_hash_sticky [of "NewMultiServerDiscovery (\<lambda>g n. (g, 0)) () [''tcp@localhost:8001'']"
      "''42''" "\<lambda>g n. (g, 0)"]
  by (simp add: NewMultiServerDiscovery_def inv_defs)

text \<open>
  The registry-backed list cannot serve \<open>ConsistentHash\<close>: neither \<open>Update\<close> nor
  \<open>Refresh\<close> rebuilds the ring, so for every key, every answer of the registry and every
  later state, \<open>Get\<close> succeeds with the empty address.
\<close>

theorem gee_consistent_hash_empty_address:
  assumes "ring_never_built d" "GeeGet intn e ConsistentHash key d = (d', Inr s)"
  shows "s = '''' \<and> '''' \<notin> set (parse_servers header) \<and> ring_never_built d'"
proof -
  obtain d1 where d1: "GeeRefresh e d = (d1, None)" "MultiGet intn ConsistentHash key d1 = (d', Inr s)"
    using GeeGet_ok [OF assms(2)] .
  then have "s = Get (ring d1) key" using MultiGet_ok [OF d1(2)] by simp
  moreover have "ring d1 = build_ring []" using assms(1) d1(1) GeeRefresh_ring [of e d] by (simp add: inv_defs)
  ultimately have "s = ''''" by (simp add: Get_def build_ring_empty)
  moreover have "ring_never_built d'" using gee.inv_get [OF assms(1)] assms(2) by (metis fst_conv)
  ultimately show ?thesis by (auto simp: parse_servers_def)
qed

theorem gee_consistent_hash_empty_address_witness:
  "\<exists>d'. GeeGet (\<lambda>g n. (g, 0)) \<lparr>env_now = 0, env_answer = Inr ''tcp@a:1,tcp@b:2'', env_later = 0\<rparr> ConsistentHash ''k''
     (NewGeeRegistryDiscovery (\<lambda>g n. (g, 0)) () ''http://reg'' 0) = (d', Inr '''')
   \<and> servers d' = [''tcp@a:1'', ''tcp@b:2'']"
proof -
  let ?d = "NewGeeRegistryDiscovery (\<lambda>g n. (g, 0)) () ''http://reg'' 0"
  let ?e = "\<lparr>env_now = 0, env_answer = Inr ''tcp@a:1,tcp@b:2'', env_later = 0\<rparr>"
  have sv: "parse_servers ''tcp@a:1,tcp@b:2'' = [''tcp@a:1'', ''tcp@b:2'']" by code_simp
  have i: "ring_never_built ?d"
    by (simp add: inv_defs NewGeeRegistryDiscovery_def NewMultiServerDiscovery_def
        gee_discovery.defs multi_servers.defs)
  obtain d' s where g: "GeeGet (\<lambda>g n. (g, 0)) ?e ConsistentHash ''k'' ?d = (d', Inr s)" "servers d' = [''tcp@a:1'', ''tcp@b:2'']"
    by (simp add: GeeGet_def GeeRefresh_def MultiGet_def Let_def select_modes sv time_units zero_time_def
        defaultUpdateTimeout_def NewGeeRegistryDiscovery_def NewMultiServerDiscovery_def
        gee_discovery.defs multi_servers.defs)
  with gee_consistent_hash_empty_address [OF i g(1)] show ?thesis by blast
qed

end
