(* ===== verification/Registry.thy ===== *)
theory Registry
  imports Discovery
begin

text \<open>
  The registry of \<open>apps/pkg/geeRPC/registry/registry.go\<close>: servers announce themselves with
  an HTTP \<open>POST\<close>, clients fetch the list of the live ones with a \<open>GET\<close>.

  The Go map \<open>servers\<close> is an association list with distinct keys: its iteration order is
  arbitrary, and \<open>aliveServers\<close> sorts what it collects. \<open>now a\<close> is the clock reading
  \<open>time.Now()\<close> gives while the loop visits the address \<open>a\<close>.
\<close>

section \<open>State and operations\<close>

record ServerItem =
  Addr :: gostring
  start :: time

record GeeRegistry =
  reg_timeout :: time
  reg_servers :: "(gostring \<times> ServerItem) list"

definition defaultTimeout :: time where
  "defaultTimeout = 5 * minute"

definition NewRegistry :: "time \<Rightarrow> GeeRegistry" where
  "NewRegistry t = \<lparr>reg_timeout = t, reg_servers = []\<rparr>"

definition DefaultGeeRegistry :: GeeRegistry where
  "DefaultGeeRegistry = NewRegistry defaultTimeout"

text \<open>\<open>s.start = time.Now()\<close> through the pointer stored under \<open>addr\<close>.\<close>

fun touch :: "time \<Rightarrow> gostring \<Rightarrow> (gostring \<times> ServerItem) list \<Rightarrow> (gostring \<times> ServerItem) list" where
  "touch now addr [] = []"
| "touch now addr ((a, it) # es) =
     (if a = addr then (a, it\<lparr>start := now\<rparr>) # es else (a, it) # touch now addr es)"

definition putServer :: "time \<Rightarrow> gostring \<Rightarrow> GeeRegistry \<Rightarrow> GeeRegistry" where
  "putServer now addr r =
     (case map_of (reg_servers r) addr of
        None \<Rightarrow> r\<lparr>reg_servers := (addr, \<lparr>Addr = addr, start = now\<rparr>) # reg_servers r\<rparr>
      | Some item \<Rightarrow> r\<lparr>reg_servers := touch now addr (reg_servers r)\<rparr>)"

definition alive :: "GeeRegistry \<Rightarrow> (gostring \<Rightarrow> time) \<Rightarrow> gostring \<times> ServerItem \<Rightarrow> bool" where
  "alive r now = (\<lambda>(a, it). reg_timeout r = 0 \<or> now a < start it + reg_timeout r)"

text \<open>The loop: collect the live addresses, delete the expired entries.\<close>

fun alive_loop :: "(gostring \<times> ServerItem \<Rightarrow> bool) \<Rightarrow> (gostring \<times> ServerItem) list
    \<Rightarrow> gostring list \<times> (gostring \<times> ServerItem) list" where
  "alive_loop p [] = ([], [])"
| "alive_loop p (e # es) =
     (case alive_loop p es of (as, kept) \<Rightarrow> if p e then (fst e # as, e # kept) else (as, kept))"

definition aliveServers :: "(gostring \<Rightarrow> time) \<Rightarrow> GeeRegistry \<Rightarrow> gostring list \<times> GeeRegistry" where
  "aliveServers now r =
     (case alive_loop (alive r now) (reg_servers r) of
        (as, kept) \<Rightarrow> (sort as, r\<lparr>reg_servers := kept\<rparr>))"

text \<open>
  The HTTP side. A request is its method and its headers (in canonical form, as
  \<open>net/http\<close> stores them); a missing header reads as the empty string.
\<close>

record http_request =
  Method :: gostring
  Header :: "gostring \<rightharpoonup> gostring"

record http_response =
  status :: nat
  resp_header :: "gostring \<rightharpoonup> gostring"

definition header_get :: "(gostring \<rightharpoonup> gostring) \<Rightarrow> gostring \<Rightarrow> gostring" where
  "header_get h k = (case h k of None \<Rightarrow> '''' | Some v \<Rightarrow> v)"

definition StatusOK :: nat where "StatusOK = 200"
definition StatusInternalServerError :: nat where "StatusInternalServerError = 500"
definition StatusMethodNotAllowed :: nat where "StatusMethodNotAllowed = 405"

lemmas http_status = StatusOK_def StatusInternalServerError_def StatusMethodNotAllowed_def

definition RegistryServeHTTP ::
    "time \<Rightarrow> (gostring \<Rightarrow> time) \<Rightarrow> http_request \<Rightarrow> GeeRegistry \<Rightarrow> http_response \<times> GeeRegistry" where
  "RegistryServeHTTP now nows req r =
     (if Method req = ''GET'' then
        (case aliveServers nows r of (as, r') \<Rightarrow>
          (\<lparr>status = StatusOK, resp_header = [''X-Geerpc-Servers'' \<mapsto> join_with CHR '','' as]\<rparr>, r'))
      else if Method req = ''POST'' then
        (let addr = header_get (Header req) ''X-Geerpc-Servers'' in
         if addr = '''' then (\<lparr>status = StatusInternalServerError, resp_header = Map.empty\<rparr>, r)
         else (\<lparr>status = StatusOK, resp_header = Map.empty\<rparr>, putServer now addr r))
      else (\<lparr>status = StatusMethodNotAllowed, resp_header = Map.empty\<rparr>, r))"

text \<open>
  The announcing side: the request \<open>sendHeartbeat\<close> builds, and \<open>Heartbeat\<close>, which sends one
  request at once and one per tick until a send fails. \<open>answers\<close> lists whether the successive
  \<open>httpClient.Do\<close> calls failed (their status code is never looked at); the result counts the
  requests sent, the goroutine being still alive when the ticks listed are used up.
\<close>

definition heartbeat_request :: "gostring \<Rightarrow> http_request" where
  "heartbeat_request addr = \<lparr>Method = ''POST'', Header = [''X-Geerpc-Server'' \<mapsto> addr]\<rparr>"

definition heartbeat_period :: "time \<Rightarrow> time" where
  "heartbeat_period duration = (if duration = 0 then defaultTimeout - 1 * minute else duration)"

fun heartbeat_loop :: "goerror option list \<Rightarrow> goerror option \<Rightarrow> nat" where
  "heartbeat_loop ticks (Some err) = 0"
| "heartbeat_loop [] None = 0"
| "heartbeat_loop (err # ticks) None = Suc (heartbeat_loop ticks err)"

definition Heartbeat :: "goerror option list \<Rightarrow> nat" where
  "Heartbeat answers = (case answers of [] \<Rightarrow> 0 | err # ticks \<Rightarrow> Suc (heartbeat_loop ticks err))"

section \<open>What the registry keeps\<close>

definition reg_inv :: "GeeRegistry \<Rightarrow> bool" where
  [inv_defs]: "reg_inv r \<longleftrightarrow> distinct (map fst (reg_servers r)) \<and> (\<forall>(a, it) \<in> set (reg_servers r). Addr it = a)"

lemma alive_loop_filter: "alive_loop p es = (map fst (filter p es), filter p es)"
  by (induction es) auto

lemma aliveServers_filter:
  "aliveServers now r = (sort (map fst (filter (alive r now) (reg_servers r))),
     r\<lparr>reg_servers := filter (alive r now) (reg_servers r)\<rparr>)"
  by (simp add: aliveServers_def alive_loop_filter)

lemma touch_keys [simp]: "map fst (touch now addr es) = map fst es"
  by (induction es) auto

lemma touch_Addr: "\<forall>(a, it) \<in> set es. Addr it = a \<Longrightarrow> \<forall>(a, it) \<in> set (touch now addr es). Addr it = a"
  by (induction es) (auto split: if_splits)

lemma map_of_touch:
  "map_of (touch now addr es) a
     = (if a = addr then map_option (\<lambda>it. it\<lparr>start := now\<rparr>) (map_of es a) else map_of es a)"
  by (induction es) auto

lemma putServer_keys:
  "set (map fst (reg_servers (putServer now addr r))) = insert addr (set (map fst (reg_servers r)))"
proof (cases "map_of (reg_servers r) addr")
  case (Some item)
  then have "addr \<in> set (map fst (reg_servers r))" by (force dest: map_of_SomeD)
  moreover from Some have "putServer now addr r = r\<lparr>reg_servers := touch now addr (reg_servers r)\<rparr>"
    by (simp add: putServer_def)
  moreover have "map fst (reg_servers (r\<lparr>reg_servers := touch now addr (reg_servers r)\<rparr>)) = map fst (reg_servers r)"
    by simp
  ultimately show ?thesis by (simp only: insert_absorb)
qed (simp add: putServer_def)

lemma putServer_start:
  "map_option start (map_of (reg_servers (putServer now addr r)) a)
     = (if a = addr then Some now else map_option start (map_of (reg_servers r) a))"
  by (cases "map_of (reg_servers r) addr") (auto simp: putServer_def map_of_touch option.map_comp o_def)

lemma reg_inv_put:
  assumes r: "reg_inv r"
  shows "reg_inv (putServer now addr r)"
proof (cases "map_of (reg_servers r) addr")
  case None
  then have "putServer now addr r = r\<lparr>reg_servers := (addr, \<lparr>Addr = addr, start = now\<rparr>) # reg_servers r\<rparr>"
    by (simp add: putServer_def)
  moreover from None have "addr \<notin> set (map fst (reg_servers r))" by (simp add: map_of_eq_None_iff)
  ultimately show ?thesis using r by (simp add: inv_defs)
next
  case (Some item)
  with r touch_Addr [of "reg_servers r" now addr] show ?thesis by (simp add: putServer_def inv_defs)
qed

lemma reg_inv_alive: "reg_inv r \<Longrightarrow> reg_inv (snd (aliveServers now r))"
  by (auto simp: aliveServers_filter inv_defs distinct_map intro: inj_on_subset)

lemma registry_alive_set:
  assumes "reg_inv r"
  shows "set (fst (aliveServers now r))
    = {a. \<exists>it. map_of (reg_servers r) a = Some it \<and> (reg_timeout r = 0 \<or> now a < start it + reg_timeout r)}"
  using assms by (force simp: aliveServers_filter alive_def inv_defs)

section \<open>Properties\<close>

text \<open>
  \<open>aliveServers\<close> returns, sorted and without repetition, exactly the addresses whose last
  announcement is younger than the timeout (all of them when the timeout is 0), and keeps
  exactly those entries: an address it drops is gone for good.
\<close>

theorem registry_alive_exact:
  assumes "reg_inv r" "aliveServers now r = (as, r')"
  shows "sorted as \<and> distinct as \<and> reg_inv r'
       \<and> set as = {a. \<exists>it. map_of (reg_servers r) a = Some it \<and> (reg_timeout r = 0 \<or> now a < start it + reg_timeout r)}
       \<and> map_of (reg_servers r') = (map_of (reg_servers r)) |` set as"
proof -
  have d: "distinct (map fst (reg_servers r))" using assms(1) by (simp add: inv_defs)
  have as: "as = sort (map fst (filter (alive r now) (reg_servers r)))"
    and r': "r' = r\<lparr>reg_servers := filter (alive r now) (reg_servers r)\<rparr>"
    using assms(2) by (simp_all add: aliveServers_filter)
  have "distinct as" using d by (simp add: as distinct_map_filter)
  moreover have S: "set as = {a. \<exists>it. map_of (reg_servers r) a = Some it \<and> (reg_timeout r = 0 \<or> now a < start it + reg_timeout r)}"
    using registry_alive_set [OF assms(1), of now] assms(2) by simp
  moreover have "map_of (filter (alive r now) es) a = (if a \<in> fst ` set (filter (alive r now) es) then map_of es a else None)"
    if "distinct (map fst es)" for es a
    using that by (induction es) (auto simp: map_of_eq_None_iff image_iff)
  then have "map_of (reg_servers r') = (map_of (reg_servers r)) |` set as"
    using d by (auto simp: r' as restrict_map_def fun_eq_iff)
  moreover have "reg_inv r'" using reg_inv_alive [OF assms(1), of now] assms(2) by simp
  ultimately show ?thesis by (simp add: as)
qed

theorem registry_alive_exact_witness:
  "\<exists>r'. aliveServers (\<lambda>a. 300) (putServer 250 ''b:2'' (putServer 10 ''c:3'' (putServer 299 ''a:1'' (NewRegistry 100))))
     = ([''a:1'', ''b:2''], r') \<and> reg_inv r'"
proof -
  let ?r = "putServer 250 ''b:2'' (putServer 10 ''c:3'' (putServer 299 ''a:1'' (NewRegistry 100)))"
  have i: "reg_inv ?r" by (intro reg_inv_put) (simp add: inv_defs NewRegistry_def)
  obtain r' where a: "aliveServers (\<lambda>a. 300) ?r = ([''a:1'', ''b:2''], r')"
    by (simp add: aliveServers_filter putServer_def NewRegistry_def alive_def)
  with registry_alive_exact [OF i a] show ?thesis by blast
qed

text \<open>
  An announcement keeps a server listed for exactly the timeout: after a \<open>POST\<close> with a
  non-empty \<open>X-Geerpc-Servers\<close> header at time \<open>t\<close>, the address is on the list at every later
  reading before \<open>t + timeout\<close> and off it from then on; no other server is affected.
\<close>

theorem registry_post_then_listed:
  assumes "reg_inv r" "Method req = ''POST''" "Header req ''X-Geerpc-Servers'' = Some addr" "addr \<noteq> ''''"
    and "reg_timeout r \<noteq> 0" "RegistryServeHTTP t nows req r = (resp, r')"
  shows "status resp = 200 \<and> reg_inv r'
       \<and> (addr \<in> set (fst (aliveServers now r')) \<longleftrightarrow> now addr < t + reg_timeout r)
       \<and> (\<forall>a. a \<noteq> addr \<longrightarrow> (a \<in> set (fst (aliveServers now r')) \<longleftrightarrow> a \<in> set (fst (aliveServers now r))))"
proof -
  have r': "r' = putServer t addr r" and st: "status resp = 200"
    using assms by (auto simp: RegistryServeHTTP_def header_get_def http_status)
  have inv': "reg_inv r'" using reg_inv_put [OF assms(1)] r' by simp
  have to: "reg_timeout r' = reg_timeout r" by (simp add: r' putServer_def split: option.splits)
  have alive: "a \<in> set (fst (aliveServers now q)) \<longleftrightarrow>
      (\<exists>s. map_option start (map_of (reg_servers q) a) = Some s \<and> (reg_timeout q = 0 \<or> now a < s + reg_timeout q))"
    if "reg_inv q" for q a
    using registry_alive_set [OF that, of now] by auto
  have st': "map_option start (map_of (reg_servers r') a)
      = (if a = addr then Some t else map_option start (map_of (reg_servers r) a))" for a
    by (simp add: r' putServer_start)
  from st inv' show ?thesis
    by (simp add: alive [OF inv'] alive [OF assms(1)] to assms(5) st' del: map_option_eq_Some)
qed

theorem registry_post_then_listed_witness:
  "\<exists>resp r'. RegistryServeHTTP 50 (\<lambda>a. 50) \<lparr>Method = ''POST'', Header = [''X-Geerpc-Servers'' \<mapsto> ''tcp@a:1'']\<rparr> (NewRegistry 10)
     = (resp, r') \<and> ''tcp@a:1'' \<in> set (fst (aliveServers (\<lambda>a. 59) r'))
     \<and> ''tcp@a:1'' \<notin> set (fst (aliveServers (\<lambda>a. 60) r'))"
proof -
  let ?req = "\<lparr>Method = ''POST'', Header = [''X-Geerpc-Servers'' \<mapsto> ''tcp@a:1'']\<rparr>"
  have h: "reg_inv (NewRegistry 10)" "Method ?req = ''POST''" "Header ?req ''X-Geerpc-Servers'' = Some ''tcp@a:1''"
    "''tcp@a:1'' \<noteq> ''''" "reg_timeout (NewRegistry 10) \<noteq> 0"
    by (simp_all add: inv_defs NewRegistry_def)
  obtain resp r' where s: "RegistryServeHTTP 50 (\<lambda>a. 50) ?req (NewRegistry 10) = (resp, r')" by fastforce
  from registry_post_then_listed [OF h s, of "\<lambda>a. 59"] registry_post_then_listed [OF h s, of "\<lambda>a. 60"] s
  show ?thesis by (simp add: NewRegistry_def)
qed

text \<open>
  Registry to discovery, end to end: whatever list the registry serves, a client whose copy
  is stale refreshes to exactly that list, the text of the header being split and trimmed
  back to the addresses that were joined. Addresses must be what the code can carry: not
  empty, no comma, no blank at either end.
\<close>

definition plain_addr :: "gostring \<Rightarrow> bool" where
  "plain_addr a \<longleftrightarrow> a \<noteq> '''' \<and> CHR '','' \<notin> set a \<and> trimmed a"

lemma parse_servers_join:
  assumes "\<forall>a \<in> set as. plain_addr a"
  shows "parse_servers (join_with CHR '','' as) = as"
proof (cases "as = []")
  case True
  then show ?thesis by (simp add: parse_servers_def)
next
  case False
  with assms have "split_on CHR '','' (join_with CHR '','' as) = as"
    by (intro split_on_join) (auto simp: plain_addr_def)
  moreover have "filter (\<lambda>s. trim_space s \<noteq> '''') as = as" "map trim_space as = as"
    using assms by (auto simp: plain_addr_def trimmed_def intro: filter_True map_idI)
  ultimately show ?thesis by (simp add: parse_servers_def)
qed

theorem registry_get_refresh_roundtrip:
  assumes "reg_inv r" "\<forall>a \<in> set (map fst (reg_servers r)). plain_addr a"
    and "RegistryServeHTTP t nows \<lparr>Method = ''GET'', Header = h\<rparr> r = (resp, r')"
    and "env_answer e = Inr (header_get (resp_header resp) ''X-Geerpc-Servers'')"
    and "lastUpdate d + timeout d \<le> env_now e"
  shows "\<exists>d'. GeeRefresh e d = (d', None) \<and> servers d' = fst (aliveServers nows r)
       \<and> GeeGetAll e d = (d', Inr (fst (aliveServers nows r)))"
proof -
  have "set (fst (aliveServers nows r)) \<subseteq> set (map fst (reg_servers r))"
    by (auto simp: aliveServers_filter)
  then have "\<forall>a \<in> set (fst (aliveServers nows r)). plain_addr a" using assms(2) by blast
  then have "parse_servers (join_with CHR '','' (fst (aliveServers nows r))) = fst (aliveServers nows r)"
    by (rule parse_servers_join)
  moreover have "header_get (resp_header resp) ''X-Geerpc-Servers'' = join_with CHR '','' (fst (aliveServers nows r))"
    using assms(3) by (auto simp: RegistryServeHTTP_def header_get_def split: prod.splits)
  ultimately show ?thesis
    using assms(4,5) by (simp add: GeeRefresh_def GeeGetAll_def MultiGetAll_def)
qed

theorem registry_get_refresh_roundtrip_witness:
  "\<exists>d'. GeeRefresh \<lparr>env_now = 0, env_answer = Inr ''tcp@a:1,tcp@b:2'', env_later = 0\<rparr>
      (NewGeeRegistryDiscovery (\<lambda>g n. (g, 0)) () ''http://reg'' 0) = (d', None)
    \<and> servers d' = [''tcp@a:1'', ''tcp@b:2'']"
proof -
  let ?r = "putServer 5 ''tcp@b:2'' (putServer 5 ''tcp@a:1'' (NewRegistry 0))"
  let ?e = "\<lparr>env_now = 0, env_answer = Inr ''tcp@a:1,tcp@b:2'', env_later = 0\<rparr>"
  let ?d = "NewGeeRegistryDiscovery (\<lambda>g n. (g, 0)) () ''http://reg'' 0"
  have rs: "reg_servers ?r = [(''tcp@b:2'', \<lparr>Addr = ''tcp@b:2'', start = 5\<rparr>), (''tcp@a:1'', \<lparr>Addr = ''tcp@a:1'', start = 5\<rparr>)]"
    "reg_timeout ?r = 0"
    by (simp_all add: putServer_def NewRegistry_def)
  have al: "fst (aliveServers (\<lambda>a. 9) ?r) = [''tcp@a:1'', ''tcp@b:2'']"
    by (simp add: aliveServers_filter rs alive_def)
  have i: "reg_inv ?r" by (intro reg_inv_put) (simp add: inv_defs NewRegistry_def)
  have p: "\<forall>a \<in> set (map fst (reg_servers ?r)). plain_addr a"
    unfolding rs by (simp add: plain_addr_def trimmed_def) code_simp
  obtain resp r' where g: "RegistryServeHTTP 9 (\<lambda>a. 9) \<lparr>Method = ''GET'', Header = Map.empty\<rparr> ?r = (resp, r')"
    by fastforce
  then have "header_get (resp_header resp) ''X-Geerpc-Servers'' = ''tcp@a:1,tcp@b:2''"
    using al by (auto simp: RegistryServeHTTP_def header_get_def split: prod.splits)
  then have a: "env_answer ?e = Inr (header_get (resp_header resp) ''X-Geerpc-Servers'')" by simp
  have l: "lastUpdate ?d + timeout ?d \<le> env_now ?e"
    by (simp add: NewGeeRegistryDiscovery_def NewMultiServerDiscovery_def gee_discovery.defs multi_servers.defs
        time_units zero_time_def defaultUpdateTimeout_def)
  from registry_get_refresh_roundtrip [OF i p g a l] show ?thesis unfolding al by blast
qed

text \<open>
  Heartbeats never register anything: the announcing side sends its address in the header
  \<open>X-Geerpc-Server\<close>, the registry reads \<open>X-Geerpc-Servers\<close>. Every heartbeat is answered with
  500 and leaves the registry as it was; the sender, which does not look at the status,
  goes on sending for as long as the transport works.
\<close>

theorem heartbeat_never_registers:
  "RegistryServeHTTP now nows (heartbeat_request addr) r
     = (\<lparr>status = 500, resp_header = Map.empty\<rparr>, r)
   \<and> Heartbeat (replicate (Suc n) None) = Suc n"
proof -
  have "heartbeat_loop (replicate n None) None = n" by (induction n) auto
  then show ?thesis
    by (simp add: RegistryServeHTTP_def heartbeat_request_def header_get_def http_status Heartbeat_def)
qed

end
