(* ===== verification/Codec.thy ===== *)
theory Codec
  imports Prelude
begin

text \<open>
  The wire of geeRPC: \<open>apps/pkg/geeRPC/codec\<close>. A connection carries headers and bodies; the
  interface \<open>Codec\<close> (\<open>codec.go\<close>) has three implementations, of which \<open>protobuf.go\<close> does its
  own framing (a big-endian \<open>uint32\<close> length, then the bytes) and \<open>gob.go\<close> and \<open>json.go\<close> lean on
  the encoders of the standard library.

  \<open>google.golang.org/protobuf\<close> is not part of the repository: \<open>proto.Marshal\<close> and
  \<open>proto.Unmarshal\<close> are the argument \<open>proto_lib\<close>. The streaming encoders of \<open>encoding/gob\<close>
  and \<open>encoding/json\<close> are the argument \<open>stream_lib\<close>.
\<close>

unbundle bit_operations_syntax

section \<open>The header\<close>

record header =
  ServiceMethod :: gostring
  Seq :: u64
  ErrorText :: gostring

definition zero_header :: header where
  "zero_header = \<lparr>ServiceMethod = '''', Seq = 0, ErrorText = ''''\<rparr>"

datatype codec_type = GobType | JsonType | ProtobufType

definition codec_type_text :: "codec_type \<Rightarrow> gostring" where
  "codec_type_text t =
     (case t of GobType \<Rightarrow> ''application/gob'' | JsonType \<Rightarrow> ''application/json''
      | ProtobufType \<Rightarrow> ''application/protobuf'')"

text \<open>\<open>NewCodecFuncMap\<close>: the codec registered under a content type, if any.\<close>

definition NewCodecFuncMap :: "gostring \<rightharpoonup> codec_type" where
  "NewCodecFuncMap =
     [codec_type_text GobType \<mapsto> GobType, codec_type_text JsonType \<mapsto> JsonType,
      codec_type_text ProtobufType \<mapsto> ProtobufType]"

section \<open>A connection and its buffered writer\<close>

text \<open>
  One end of a connection: the bytes that will still arrive before the end of the stream, the
  bytes handed to the network, the content of the 4096-byte \<open>bufio.Writer\<close> with its sticky
  error, whether this end is closed and whether the network has failed for writing.
\<close>

record pipe_end =
  inbuf :: "byte list"
  outbuf :: "byte list"
  wbuf :: "byte list"
  werr :: "goerror option"
  closed :: bool
  broken :: bool

definition bufio_size :: nat where "bufio_size = 4096"

definition conn_write :: "byte list \<Rightarrow> pipe_end \<Rightarrow> pipe_end \<times> goerror option" where
  "conn_write data p =
     (if closed p \<or> broken p then (p, Some ''write error'')
      else (p\<lparr>outbuf := outbuf p @ data\<rparr>, None))"

definition bufio_direct :: "byte list \<Rightarrow> pipe_end \<Rightarrow> pipe_end \<times> goerror option" where
  "bufio_direct data p =
     (case conn_write data p of (p', e) \<Rightarrow> (p'\<lparr>werr := e\<rparr>, e))"

definition bufio_flush :: "pipe_end \<Rightarrow> pipe_end \<times> goerror option" where
  "bufio_flush p =
     (if werr p \<noteq> None then (p, werr p)
      else if wbuf p = [] then (p, None)
      else (case conn_write (wbuf p) p of
              (p', Some e) \<Rightarrow> (p'\<lparr>werr := Some e\<rparr>, Some e)
            | (p', None) \<Rightarrow> (p'\<lparr>wbuf := []\<rparr>, None)))"

definition bufio_write :: "byte list \<Rightarrow> pipe_end \<Rightarrow> pipe_end \<times> goerror option" where
  "bufio_write data p =
     (let room = bufio_size - length (wbuf p) in
      if werr p \<noteq> None then (p, werr p)
      else if length data \<le> room then (p\<lparr>wbuf := wbuf p @ data\<rparr>, None)
      else if wbuf p = [] then bufio_direct data p
      else (case bufio_flush (p\<lparr>wbuf := wbuf p @ take room data\<rparr>) of
              (p', Some e) \<Rightarrow> (p', Some e)
            | (p', None) \<Rightarrow>
                (let rest = drop room data in
                 if length rest \<le> bufio_size then (p'\<lparr>wbuf := rest\<rparr>, None)
                 else bufio_direct rest p')))"

text \<open>\<open>io.ReadFull\<close> of \<open>n\<close> bytes: \<open>EOF\<close> when not one is left.\<close>

definition EOF :: goerror where "EOF = ''EOF''"
definition ErrUnexpectedEOF :: goerror where "ErrUnexpectedEOF = ''unexpected EOF''"

definition read_full :: "nat \<Rightarrow> pipe_end \<Rightarrow> pipe_end \<times> (byte list) result" where
  "read_full n p =
     (if n = 0 then (p, Inr [])
      else if closed p then (p, Inl ''use of closed network connection'')
      else if inbuf p = [] then (p, Inl EOF)
      else if length (inbuf p) < n then (p\<lparr>inbuf := []\<rparr>, Inl ErrUnexpectedEOF)
      else (p\<lparr>inbuf := drop n (inbuf p)\<rparr>, Inr (take n (inbuf p))))"

section \<open>Big-endian lengths\<close>

definition put_be32 :: "u32 \<Rightarrow> byte list" where
  "put_be32 w = [ucast (drop_bit 24 w), ucast (drop_bit 16 w), ucast (drop_bit 8 w), ucast w]"

definition get_be32 :: "byte list \<Rightarrow> u32" where
  "get_be32 bs = foldl (\<lambda>a b. push_bit 8 a OR ucast b) 0 bs"

lemma get_put_be32 [simp]: "get_be32 (put_be32 w) = w"
proof (rule bit_word_eqI)
  fix n assume "n < LENGTH(32)"
  then consider "n < 8" | "8 \<le> n" "n < 16" | "16 \<le> n" "n < 24" | "24 \<le> n" "n < 32" by fastforce
  then show "bit (get_be32 (put_be32 w)) n = bit w n"
    by cases (auto simp: get_be32_def put_be32_def bit_simps)
qed

lemma length_put_be32 [simp]: "length (put_be32 w) = 4"
  by (simp add: put_be32_def)

section \<open>The protobuf codec\<close>

record 'm proto_lib =
  Marshal :: "'m \<Rightarrow> (byte list) result"
  Unmarshal :: "byte list \<Rightarrow> 'm result"

text \<open>
  What \<open>interface{}\<close> bodies the codec meets: \<open>nil\<close>, the empty struct the server answers errors
  with, a protobuf message, any other value.
\<close>

datatype 'b body = NilBody | EmptyStruct | ProtoMsg 'b | OtherBody

definition writeMessage :: "'m proto_lib \<Rightarrow> 'm \<Rightarrow> pipe_end \<Rightarrow> pipe_end \<times> goerror option" where
  "writeMessage lib msg p =
     (case Marshal lib msg of
        Inl e \<Rightarrow> (p, Some e)
      | Inr data \<Rightarrow>
          (case bufio_write (put_be32 (of_nat (length data))) p of
             (p1, Some e) \<Rightarrow> (p1, Some e)
           | (p1, None) \<Rightarrow> bufio_write data p1))"

definition writeEmptyBody :: "pipe_end \<Rightarrow> pipe_end \<times> goerror option" where
  "writeEmptyBody p =
     (case bufio_write (put_be32 0) p of
        (p1, Some e) \<Rightarrow> (p1, Some e)
      | (p1, None) \<Rightarrow> bufio_flush p1)"

definition ProtobufWrite ::
    "header proto_lib \<Rightarrow> 'b proto_lib \<Rightarrow> header \<Rightarrow> 'b body \<Rightarrow> pipe_end \<Rightarrow> pipe_end \<times> goerror option" where
  "ProtobufWrite hl bl h bdy p =
     (case writeMessage hl h p of
        (p1, Some e) \<Rightarrow> (p1, Some e)
      | (p1, None) \<Rightarrow>
          (case bdy of
             NilBody \<Rightarrow> writeEmptyBody p1
           | EmptyStruct \<Rightarrow> writeEmptyBody p1
           | OtherBody \<Rightarrow> (p1, Some ''rpc codec: body must implement proto.Message'')
           | ProtoMsg m \<Rightarrow>
               (case writeMessage bl m p1 of
                  (p2, Some e) \<Rightarrow> (p2, Some e)
                | (p2, None) \<Rightarrow> bufio_flush p2)))"

text \<open>
  \<open>readMessage\<close>: a failed read of the length is an error, a failed read of the data is not
  (\<open>return nil\<close>). \<open>Inr None\<close> says the message passed in was left as it was.
\<close>

definition readMessage :: "'m proto_lib option \<Rightarrow> pipe_end \<Rightarrow> pipe_end \<times> ('m option) result" where
  "readMessage lib p =
     (case read_full 4 p of
        (p1, Inl e) \<Rightarrow> (p1, Inl e)
      | (p1, Inr len) \<Rightarrow>
          (case read_full (unat (get_be32 len)) p1 of
             (p2, Inl e) \<Rightarrow> (p2, Inr None)
           | (p2, Inr data) \<Rightarrow>
               (case lib of
                  None \<Rightarrow> (p2, Inr None)
                | Some l \<Rightarrow> (case Unmarshal l data of Inl e \<Rightarrow> (p2, Inl e) | Inr m \<Rightarrow> (p2, Inr (Some m))))))"

text \<open>
  \<open>ReadHeader(h)\<close>: the header after the call and the error. An error of \<open>readMessage\<close> is
  answered with \<open>nil\<close> and \<open>h\<close> untouched; a message left untouched is the zero message.
\<close>

definition ProtobufReadHeader :: "header proto_lib \<Rightarrow> header \<Rightarrow> pipe_end \<Rightarrow> pipe_end \<times> header \<times> goerror option" where
  "ProtobufReadHeader hl h p =
     (case readMessage (Some hl) p of
        (p1, Inl e) \<Rightarrow> (p1, h, None)
      | (p1, Inr None) \<Rightarrow> (p1, zero_header, None)
      | (p1, Inr (Some h')) \<Rightarrow> (p1, h', None))"

datatype target = NilTarget | ProtoTarget | OtherTarget

definition ProtobufReadBody :: "'b proto_lib \<Rightarrow> target \<Rightarrow> pipe_end \<Rightarrow> pipe_end \<times> ('b option) result" where
  "ProtobufReadBody bl t p =
     (case t of
        NilTarget \<Rightarrow> readMessage None p
      | OtherTarget \<Rightarrow> (p, Inl ''rpc codec: body must implement proto.Message'')
      | ProtoTarget \<Rightarrow> readMessage (Some bl) p)"

definition ProtobufClose :: "pipe_end \<Rightarrow> pipe_end \<times> goerror option" where
  "ProtobufClose p = (if closed p then (p, Some ''use of closed network connection'') else (p\<lparr>closed := True\<rparr>, None))"

definition NewProtobufCodec :: "byte list \<Rightarrow> pipe_end" where
  "NewProtobufCodec arriving =
     \<lparr>inbuf = arriving, outbuf = [], wbuf = [], werr = None, closed = False, broken = False\<rparr>"

section \<open>The buffered writer on a healthy connection\<close>

definition healthy :: "pipe_end \<Rightarrow> bool" where
  "healthy p \<longleftrightarrow> \<not> closed p \<and> \<not> broken p \<and> werr p = None \<and> length (wbuf p) \<le> bufio_size"

definition pending :: "pipe_end \<Rightarrow> byte list" where
  "pending p = outbuf p @ wbuf p"

lemma bufio_flush_healthy:
  "healthy p \<Longrightarrow> \<exists>p'. bufio_flush p = (p', None) \<and> healthy p' \<and> wbuf p' = []
     \<and> outbuf p' = pending p \<and> inbuf p' = inbuf p"
  by (auto simp: bufio_flush_def conn_write_def healthy_def pending_def bufio_size_def)

lemma bufio_write_healthy:
  "healthy p \<Longrightarrow> \<exists>p'. bufio_write data p = (p', None) \<and> healthy p'
     \<and> pending p' = pending p @ data \<and> inbuf p' = inbuf p"
  by (auto simp: bufio_write_def bufio_flush_def bufio_direct_def conn_write_def healthy_def
      pending_def Let_def)

lemma writeMessage_healthy:
  assumes "healthy p" and "Marshal lib m = Inr data"
  shows "\<exists>p'. writeMessage lib m p = (p', None) \<and> healthy p'
    \<and> pending p' = pending p @ put_be32 (of_nat (length data)) @ data \<and> inbuf p' = inbuf p"
proof -
  obtain p1 where p1: "bufio_write (put_be32 (of_nat (length data))) p = (p1, None)" "healthy p1"
      "pending p1 = pending p @ put_be32 (of_nat (length data))" "inbuf p1 = inbuf p"
    using bufio_write_healthy [OF assms(1)] by blast
  moreover obtain p2 where "bufio_write data p1 = (p2, None)" "healthy p2"
      "pending p2 = pending p1 @ data" "inbuf p2 = inbuf p1"
    using bufio_write_healthy [OF p1(2)] by blast
  ultimately show ?thesis using assms(2) by (simp add: writeMessage_def)
qed

lemma writeEmptyBody_healthy:
  assumes "healthy p"
  shows "\<exists>p'. writeEmptyBody p = (p', None) \<and> healthy p' \<and> wbuf p' = []
    \<and> outbuf p' = pending p @ put_be32 0 \<and> inbuf p' = inbuf p"
proof -
  obtain p1 where p1: "bufio_write (put_be32 0) p = (p1, None)" "healthy p1"
      "pending p1 = pending p @ put_be32 0" "inbuf p1 = inbuf p"
    using bufio_write_healthy [OF assms] by blast
  with bufio_flush_healthy [OF p1(2)] show ?thesis by (auto simp: writeEmptyBody_def)
qed

section \<open>One message on the wire\<close>

text \<open>
  The bytes of a message: the header's and the body's block. There are none when the encoder
  refuses, when a block is too long for its length field, or when the body is no protobuf message.
\<close>

definition block :: "'m proto_lib \<Rightarrow> 'm \<Rightarrow> byte list option" where
  "block lib m =
     (case Marshal lib m of
        Inl e \<Rightarrow> None
      | Inr data \<Rightarrow> if length data < 2 ^ 32 then Some (put_be32 (of_nat (length data)) @ data) else None)"

definition body_block :: "'b proto_lib \<Rightarrow> 'b body \<Rightarrow> byte list option" where
  "body_block bl b =
     (case b of NilBody \<Rightarrow> Some (put_be32 0) | EmptyStruct \<Rightarrow> Some (put_be32 0)
      | ProtoMsg m \<Rightarrow> block bl m | OtherBody \<Rightarrow> None)"

definition pb_frame :: "header proto_lib \<Rightarrow> 'b proto_lib \<Rightarrow> header \<Rightarrow> 'b body \<Rightarrow> byte list option" where
  "pb_frame hl bl h b =
     (case (block hl h, body_block bl b) of (Some x, Some y) \<Rightarrow> Some (x @ y) | _ \<Rightarrow> None)"

definition body_target :: "'b body \<Rightarrow> target" where
  "body_target b = (case b of ProtoMsg m \<Rightarrow> ProtoTarget | _ \<Rightarrow> NilTarget)"

definition body_value :: "'b body \<Rightarrow> 'b option" where
  "body_value b = (case b of ProtoMsg m \<Rightarrow> Some m | _ \<Rightarrow> None)"

text \<open>The two calls both ends make for each message: \<open>ReadHeader\<close>, then \<open>ReadBody\<close>.\<close>

definition pb_receive ::
    "header proto_lib \<Rightarrow> 'b proto_lib \<Rightarrow> target \<Rightarrow> pipe_end \<Rightarrow> pipe_end \<times> (header \<times> 'b option) result" where
  "pb_receive hl bl t p =
     (case ProtobufReadHeader hl zero_header p of
        (p1, h, Some e) \<Rightarrow> (p1, Inl e)
      | (p1, h, None) \<Rightarrow>
          (case ProtobufReadBody bl t p1 of
             (p2, Inl e) \<Rightarrow> (p2, Inl e)
           | (p2, Inr v) \<Rightarrow> (p2, Inr (h, v))))"

lemma read_full_prefix:
  "\<not> closed p \<Longrightarrow> inbuf p = xs @ rest \<Longrightarrow> length xs = n \<Longrightarrow>
   read_full n p = (p\<lparr>inbuf := rest\<rparr>, Inr xs)"
  by (auto simp: read_full_def)

lemma block_Some:
  "block lib m = Some bs \<longleftrightarrow>
     (\<exists>data. Marshal lib m = Inr data \<and> length data < 2 ^ 32
        \<and> bs = put_be32 (of_nat (length data)) @ data)"
  by (auto simp: block_def split: sum.splits)

lemma readMessage_data:
  assumes "\<not> closed p" and "length data < 2 ^ 32"
    and "inbuf p = put_be32 (of_nat (length data)) @ data @ rest"
  shows "readMessage lib p = (p\<lparr>inbuf := rest\<rparr>,
    case lib of None \<Rightarrow> Inr None
    | Some l \<Rightarrow> (case Unmarshal l data of Inl e \<Rightarrow> Inl e | Inr m \<Rightarrow> Inr (Some m)))"
proof -
  have "unat (of_nat (length data) :: u32) = length data"
    using assms(2) by (simp add: unat_of_nat take_bit_nat_eq_self)
  moreover have "read_full 4 p = (p\<lparr>inbuf := data @ rest\<rparr>, Inr (put_be32 (of_nat (length data))))"
    using assms by (intro read_full_prefix) simp_all
  moreover have "read_full (length data) (p\<lparr>inbuf := data @ rest\<rparr>) = (p\<lparr>inbuf := rest\<rparr>, Inr data)"
    using assms read_full_prefix [of "p\<lparr>inbuf := data @ rest\<rparr>" data rest] by simp
  ultimately show ?thesis by (simp add: readMessage_def split: option.split sum.split)
qed

lemma writeMessage_block:
  assumes "healthy p" and "block lib m = Some bs"
  shows "\<exists>p'. writeMessage lib m p = (p', None) \<and> healthy p' \<and> pending p' = pending p @ bs"
proof -
  from assms(2) obtain data where "Marshal lib m = Inr data"
    and "bs = put_be32 (of_nat (length data)) @ data" by (auto simp: block_Some)
  with writeMessage_healthy [OF assms(1)] show ?thesis by metis
qed

text \<open>What the codec relies on in \<open>proto\<close>: decoding what was encoded gives it back.\<close>

definition faithful :: "'m proto_lib \<Rightarrow> bool" where
  "faithful lib \<longleftrightarrow> (\<forall>m data. Marshal lib m = Inr data \<longrightarrow> Unmarshal lib data = Inr m)"

lemma faithfulD: "faithful lib \<Longrightarrow> Marshal lib m = Inr data \<Longrightarrow> Unmarshal lib data = Inr m"
  by (simp add: faithful_def)

lemma readMessage_block:
  assumes "faithful lib" and "\<not> closed p" and "block lib m = Some bs" and "inbuf p = bs @ rest"
  shows "readMessage (Some lib) p = (p\<lparr>inbuf := rest\<rparr>, Inr (Some m))"
  using assms by (auto simp: block_Some readMessage_data faithfulD)

lemma readMessage_empty:
  "\<not> closed p \<Longrightarrow> inbuf p = put_be32 0 @ rest \<Longrightarrow> readMessage None p = (p\<lparr>inbuf := rest\<rparr>, Inr None)"
  using readMessage_data [of p "[]" rest None] by simp

section \<open>Sessions over any codec\<close>

text \<open>Both ends of a connection, for any codec: write a list of messages, read as many back.\<close>

primrec send_all ::
    "(header \<Rightarrow> 'b body \<Rightarrow> pipe_end \<Rightarrow> pipe_end \<times> goerror option) \<Rightarrow> (header \<times> 'b body) list \<Rightarrow>
     pipe_end \<Rightarrow> pipe_end \<times> goerror option" where
  "send_all snd_msg [] p = (p, None)"
| "send_all snd_msg (m # ms) p =
     (case snd_msg (fst m) (snd m) p of
        (p1, Some e) \<Rightarrow> (p1, Some e)
      | (p1, None) \<Rightarrow> send_all snd_msg ms p1)"

primrec receive_all ::
    "(target \<Rightarrow> pipe_end \<Rightarrow> pipe_end \<times> (header \<times> 'b option) result) \<Rightarrow> target list \<Rightarrow> pipe_end \<Rightarrow>
     pipe_end \<times> (header \<times> 'b option) list result" where
  "receive_all rcv_msg [] q = (q, Inr [])"
| "receive_all rcv_msg (t # ts) q =
     (case rcv_msg t q of
        (q1, Inl e) \<Rightarrow> (q1, Inl e)
      | (q1, Inr v) \<Rightarrow>
          (case receive_all rcv_msg ts q1 of
             (q2, Inl e) \<Rightarrow> (q2, Inl e)
           | (q2, Inr vs) \<Rightarrow> (q2, Inr (v # vs))))"

locale wire_codec =
  fixes frame :: "header \<Rightarrow> 'b body \<Rightarrow> byte list option"
    and snd_msg :: "header \<Rightarrow> 'b body \<Rightarrow> pipe_end \<Rightarrow> pipe_end \<times> goerror option"
    and rcv_msg :: "target \<Rightarrow> pipe_end \<Rightarrow> pipe_end \<times> (header \<times> 'b option) result"
  assumes write_frame:
      "healthy p \<Longrightarrow> frame h b = Some bs \<Longrightarrow>
       \<exists>p'. snd_msg h b p = (p', None) \<and> healthy p' \<and> wbuf p' = [] \<and> outbuf p' = pending p @ bs"
    and read_frame:
      "\<not> closed q \<Longrightarrow> frame h b = Some bs \<Longrightarrow> inbuf q = bs @ rest \<Longrightarrow>
       rcv_msg (body_target b) q = (q\<lparr>inbuf := rest\<rparr>, Inr (h, body_value b))"
begin

lemma sent_bytes:
  assumes "healthy p" and "wbuf p = []" and "\<forall>m \<in> set ms. frame (fst m) (snd m) \<noteq> None"
  shows "\<exists>p'. send_all snd_msg ms p = (p', None) \<and> healthy p' \<and> wbuf p' = []
    \<and> outbuf p' = outbuf p @ concat (map (\<lambda>m. the (frame (fst m) (snd m))) ms)"
  using assms
proof (induction ms arbitrary: p)
  case (Cons m ms)
  then obtain bs where bs: "frame (fst m) (snd m) = Some bs" by auto
  from write_frame [OF Cons.prems(1) bs] obtain p1
    where p1: "snd_msg (fst m) (snd m) p = (p1, None)" "healthy p1" "wbuf p1 = []"
      "outbuf p1 = outbuf p @ bs" using Cons.prems(2) by (auto simp: pending_def)
  from Cons.IH [OF p1(2,3)] Cons.prems(3) obtain p2
    where "send_all snd_msg ms p1 = (p2, None)" "healthy p2" "wbuf p2 = []"
      "outbuf p2 = outbuf p1 @ concat (map (\<lambda>m. the (frame (fst m) (snd m))) ms)" by auto
  with p1 bs show ?case by simp
qed simp

lemma received_messages:
  assumes "\<not> closed q" and "\<forall>m \<in> set ms. frame (fst m) (snd m) \<noteq> None"
    and "inbuf q = concat (map (\<lambda>m. the (frame (fst m) (snd m))) ms) @ rest"
  shows "receive_all rcv_msg (map (\<lambda>m. body_target (snd m)) ms) q =
    (q\<lparr>inbuf := rest\<rparr>, Inr (map (\<lambda>m. (fst m, body_value (snd m))) ms))"
  using assms
proof (induction ms arbitrary: q)
  case (Cons m ms)
  then obtain bs where bs: "frame (fst m) (snd m) = Some bs" by auto
  let ?more = "concat (map (\<lambda>m. the (frame (fst m) (snd m))) ms) @ rest"
  have "rcv_msg (body_target (snd m)) q = (q\<lparr>inbuf := ?more\<rparr>, Inr (fst m, body_value (snd m)))"
    using Cons.prems bs by (intro read_frame) simp_all
  moreover have "receive_all rcv_msg (map (\<lambda>m. body_target (snd m)) ms) (q\<lparr>inbuf := ?more\<rparr>) =
      (q\<lparr>inbuf := rest\<rparr>, Inr (map (\<lambda>m. (fst m, body_value (snd m))) ms))"
    using Cons.IH [of "q\<lparr>inbuf := ?more\<rparr>"] Cons.prems by simp
  ultimately show ?case by simp
qed simp

lemma session:
  assumes "healthy p" and "wbuf p = []" and "outbuf p = []"
    and "\<forall>m \<in> set ms. frame (fst m) (snd m) \<noteq> None"
    and "\<not> closed q" and "inbuf q = outbuf (fst (send_all snd_msg ms p))"
  shows "snd (send_all snd_msg ms p) = None
    \<and> receive_all rcv_msg (map (\<lambda>m. body_target (snd m)) ms) q =
        (q\<lparr>inbuf := []\<rparr>, Inr (map (\<lambda>m. (fst m, body_value (snd m))) ms))"
proof -
  from sent_bytes [OF assms(1,2,4)] obtain p' where p': "send_all snd_msg ms p = (p', None)"
    "outbuf p' = concat (map (\<lambda>m. the (frame (fst m) (snd m))) ms)" using assms(3) by auto
  moreover from this assms(6) have "inbuf q = concat (map (\<lambda>m. the (frame (fst m) (snd m))) ms) @ []"
    by simp
  ultimately show ?thesis using received_messages [OF assms(5,4)] by simp
qed

end

text \<open>The protobuf codec is such a codec, whatever the two faithful encoders are.\<close>

locale proto_pair =
  fixes hl :: "header proto_lib" and bl :: "'b proto_lib"
  assumes header_faithful: "faithful hl" and body_faithful: "faithful bl"

lemma ProtobufWrite_frame:
  assumes "healthy p" and "pb_frame hl bl h b = Some bs"
  shows "\<exists>p'. ProtobufWrite hl bl h b p = (p', None) \<and> healthy p' \<and> wbuf p' = []
    \<and> outbuf p' = pending p @ bs"
proof -
  from assms(2) obtain x y where xy: "block hl h = Some x" "body_block bl b = Some y" "bs = x @ y"
    by (auto simp: pb_frame_def split: option.splits)
  obtain p1 where p1: "writeMessage hl h p = (p1, None)" "healthy p1" "pending p1 = pending p @ x"
    using writeMessage_block [OF assms(1) xy(1)] by blast
  show ?thesis
  proof (cases b)
    case (ProtoMsg m)
    with xy(2) have "block bl m = Some y" by (simp add: body_block_def)
    from writeMessage_block [OF p1(2) this] obtain p2
      where p2: "writeMessage bl m p1 = (p2, None)" "healthy p2" "pending p2 = pending p1 @ y"
      by blast
    from bufio_flush_healthy [OF p2(2)] p1 p2 ProtoMsg xy(3) show ?thesis
      by (auto simp: ProtobufWrite_def)
  next
    case NilBody
    with writeEmptyBody_healthy [OF p1(2)] p1 xy show ?thesis
      by (auto simp: ProtobufWrite_def body_block_def)
  next
    case EmptyStruct
    with writeEmptyBody_healthy [OF p1(2)] p1 xy show ?thesis
      by (auto simp: ProtobufWrite_def body_block_def)
  next
    case OtherBody
    with xy(2) show ?thesis by (simp add: body_block_def)
  qed
qed

lemma pb_receive_frame:
  assumes laws: "faithful hl" "faithful bl" and "\<not> closed q"
    and "pb_frame hl bl h b = Some bs" and inq: "inbuf q = bs @ rest"
  shows "pb_receive hl bl (body_target b) q = (q\<lparr>inbuf := rest\<rparr>, Inr (h, body_value b))"
proof -
  from assms(4) obtain x y where xy: "block hl h = Some x" "body_block bl b = Some y" "bs = x @ y"
    by (auto simp: pb_frame_def split: option.splits)
  let ?q1 = "q\<lparr>inbuf := y @ rest\<rparr>"
  have "ProtobufReadHeader hl zero_header q = (?q1, h, None)"
    using readMessage_block [OF laws(1) assms(3) xy(1)] inq xy(3)
    by (simp add: ProtobufReadHeader_def)
  moreover have "ProtobufReadBody bl (body_target b) ?q1 = (q\<lparr>inbuf := rest\<rparr>, Inr (body_value b))"
    using xy(2) assms(3) readMessage_block [OF laws(2), of ?q1 _ y rest] readMessage_empty [of ?q1 rest]
    by (cases b) (simp_all add: ProtobufReadBody_def body_block_def body_target_def body_value_def)
  ultimately show ?thesis by (simp add: pb_receive_def)
qed

sublocale proto_pair \<subseteq> pb: wire_codec "pb_frame hl bl" "ProtobufWrite hl bl" "pb_receive hl bl"
  by unfold_locales
    (blast intro: ProtobufWrite_frame pb_receive_frame header_faithful body_faithful)+

section \<open>The wire format of protobuf\<close>

text \<open>
  An instance of the laws: the documented encoding of the messages of \<open>header.proto\<close>
  (\<open>RequestHeader\<close> and \<open>HelloArgs\<close>, whose generated code is \<open>codec/pb\<close>). A message is a
  sequence of fields, each a tag \<open>8 * number + kind\<close> and a varint or a counted string; fields
  with the default value are left out. The check that a string is UTF-8 is left out too.
\<close>

datatype wire_value = Varint nat | Bytes "byte list"

fun put_varint :: "nat \<Rightarrow> byte list" where
  "put_varint n = (if n < 128 then [of_nat n] else of_nat (n mod 128 + 128) # put_varint (n div 128))"

declare put_varint.simps [simp del]

fun get_varint :: "byte list \<Rightarrow> (nat \<times> byte list) option" where
  "get_varint [] = None"
| "get_varint (b # bs) =
     (if unat b < 128 then Some (unat b, bs)
      else (case get_varint bs of
              None \<Rightarrow> None
            | Some (m, rest) \<Rightarrow> Some (unat b - 128 + 128 * m, rest)))"

lemma unat_small_byte: "n < 256 \<Longrightarrow> unat (of_nat n :: byte) = n"
  by (simp add: unat_of_nat take_bit_nat_eq_self)

lemma get_put_varint [simp]: "get_varint (put_varint n @ rest) = Some (n, rest)"
proof (induction n rule: put_varint.induct)
  case (1 n)
  show ?case
  proof (cases "n < 128")
    case True
    then show ?thesis by (subst put_varint.simps) (simp add: unat_small_byte)
  next
    case False
    then have "unat (of_nat (n mod 128 + 128) :: byte) = n mod 128 + 128"
      by (intro unat_small_byte) simp
    moreover have "n mod 128 + 128 * (n div 128) = n" by simp
    ultimately show ?thesis
      using False 1 by (subst put_varint.simps) simp
  qed
qed

definition put_field :: "nat \<times> wire_value \<Rightarrow> byte list" where
  "put_field f =
     (case f of
        (k, Varint n) \<Rightarrow> put_varint (8 * k) @ put_varint n
      | (k, Bytes bs) \<Rightarrow> put_varint (8 * k + 2) @ put_varint (length bs) @ bs)"

fun get_fields :: "nat \<Rightarrow> byte list \<Rightarrow> (nat \<times> wire_value) list option" where
  "get_fields fuel [] = Some []"
| "get_fields 0 (b # bs) = None"
| "get_fields (Suc fuel) (b # bs) =
     (case get_varint (b # bs) of
        None \<Rightarrow> None
      | Some (tag, r1) \<Rightarrow>
          (case get_varint r1 of
             None \<Rightarrow> None
           | Some (n, r2) \<Rightarrow>
               if tag mod 8 = 0 then map_option (Cons (tag div 8, Varint n)) (get_fields fuel r2)
               else if tag mod 8 = 2 \<and> n \<le> length r2
               then map_option (Cons (tag div 8, Bytes (take n r2))) (get_fields fuel (drop n r2))
               else None))"

lemma put_varint_nonempty [simp]: "put_varint n \<noteq> []"
  by (subst put_varint.simps) simp

lemma put_field_nonempty [simp]: "put_field f \<noteq> []"
  by (cases f; cases "snd f") (auto simp: put_field_def)

lemma get_fields_step:
  "bs \<noteq> [] \<Longrightarrow> get_fields (Suc fuel) bs =
     (case get_varint bs of
        None \<Rightarrow> None
      | Some (tag, r1) \<Rightarrow>
          (case get_varint r1 of
             None \<Rightarrow> None
           | Some (n, r2) \<Rightarrow>
               if tag mod 8 = 0 then map_option (Cons (tag div 8, Varint n)) (get_fields fuel r2)
               else if tag mod 8 = 2 \<and> n \<le> length r2
               then map_option (Cons (tag div 8, Bytes (take n r2))) (get_fields fuel (drop n r2))
               else None))"
  by (cases bs) simp_all

lemma get_put_field:
  "get_fields (Suc fuel) (put_field f @ rest) = map_option (Cons f) (get_fields fuel rest)"
proof (cases f)
  case (Pair k v)
  show ?thesis
  proof (cases v)
    case (Varint n)
    have "get_varint (put_field f @ rest) = Some (8 * k, put_varint n @ rest)"
      by (simp add: Pair Varint put_field_def)
    then show ?thesis by (subst get_fields_step) (simp_all add: Pair Varint)
  next
    case (Bytes bs)
    have "get_varint (put_field f @ rest) = Some (8 * k + 2, put_varint (length bs) @ bs @ rest)"
      by (simp add: Pair Bytes put_field_def)
    moreover have "(8 * k + 2) mod 8 = 2" "(8 * k + 2) div 8 = k" by presburger+
    ultimately show ?thesis by (subst get_fields_step) (simp_all add: Pair Bytes)
  qed
qed

lemma get_put_fields:
  "length fs \<le> fuel \<Longrightarrow> get_fields fuel (concat (map put_field fs)) = Some fs"
proof (induction fs arbitrary: fuel)
  case (Cons f fs)
  then obtain n where "fuel = Suc n" "length fs \<le> n" by (cases fuel) auto
  with Cons.IH show ?case by (simp add: get_put_field)
qed simp

lemma length_put_fields: "length fs \<le> length (concat (map put_field fs))"
proof (induction fs)
  case (Cons f fs)
  have "1 \<le> length (put_field f)" by (cases "put_field f") simp_all
  with Cons show ?case by simp
qed simp

definition string_bytes :: "gostring \<Rightarrow> byte list" where "string_bytes = map of_char"
definition bytes_string :: "byte list \<Rightarrow> gostring" where "bytes_string = map (\<lambda>b. char_of (unat b))"

lemma bytes_string_bytes [simp]: "bytes_string (string_bytes s) = s"
proof -
  have "unat (of_char c :: byte) = of_char c" for c
    using unat_small_byte [of "of_char c"] by (simp add: of_nat_of_char)
  then show ?thesis by (simp add: string_bytes_def bytes_string_def comp_def)
qed

text \<open>The generic part of both messages: a default-skipping list of fields.\<close>

definition text_field :: "nat \<Rightarrow> gostring \<Rightarrow> (nat \<times> wire_value) list" where
  "text_field k s = (if s = [] then [] else [(k, Bytes (string_bytes s))])"

definition uint_field :: "nat \<Rightarrow> nat \<Rightarrow> (nat \<times> wire_value) list" where
  "uint_field k n = (if n = 0 then [] else [(k, Varint n)])"

definition get_text :: "nat \<Rightarrow> (nat \<times> wire_value) list \<Rightarrow> gostring" where
  "get_text k fs = (case map_of fs k of Some (Bytes bs) \<Rightarrow> bytes_string bs | _ \<Rightarrow> [])"

definition get_uint :: "nat \<Rightarrow> (nat \<times> wire_value) list \<Rightarrow> nat" where
  "get_uint k fs = (case map_of fs k of Some (Varint n) \<Rightarrow> n | _ \<Rightarrow> 0)"

definition decode_with :: "((nat \<times> wire_value) list \<Rightarrow> 'm) \<Rightarrow> byte list \<Rightarrow> 'm result" where
  "decode_with f bs =
     (case get_fields (length bs) bs of None \<Rightarrow> Inl ''proto: cannot parse invalid wire-format data''
      | Some fs \<Rightarrow> Inr (f fs))"

lemma decode_with_put: "decode_with f (concat (map put_field fs)) = Inr (f fs)"
  by (simp only: decode_with_def get_put_fields [OF length_put_fields] option.simps)

definition header_fields :: "header \<Rightarrow> (nat \<times> wire_value) list" where
  "header_fields h =
     text_field 1 (ServiceMethod h) @ uint_field 2 (unat (Seq h)) @ text_field 3 (ErrorText h)"

definition RequestHeader_lib :: "header proto_lib" where
  "RequestHeader_lib =
     \<lparr>Marshal = \<lambda>h. Inr (concat (map put_field (header_fields h))),
      Unmarshal = decode_with (\<lambda>fs. \<lparr>ServiceMethod = get_text 1 fs, Seq = of_nat (get_uint 2 fs),
                                      ErrorText = get_text 3 fs\<rparr>)\<rparr>"

lemma RequestHeader_faithful: "faithful RequestHeader_lib"
proof -
  have "get_text 1 (header_fields h) = ServiceMethod h" "get_uint 2 (header_fields h) = unat (Seq h)"
    "get_text 3 (header_fields h) = ErrorText h" for h
    by (simp_all add: header_fields_def text_field_def uint_field_def get_text_def get_uint_def)
  then show ?thesis by (simp add: faithful_def RequestHeader_lib_def decode_with_put)
qed

record hello_args =
  HelloName :: gostring
  HelloAge :: u32

definition HelloArgs_lib :: "hello_args proto_lib" where
  "HelloArgs_lib =
     \<lparr>Marshal = \<lambda>a. Inr (concat (map put_field
         (text_field 1 (HelloName a) @ uint_field 2 (unat (scast (HelloAge a) :: u64))))),
      Unmarshal = decode_with (\<lambda>fs. \<lparr>HelloName = get_text 1 fs, HelloAge = of_nat (get_uint 2 fs)\<rparr>)\<rparr>"

lemma HelloArgs_faithful: "faithful HelloArgs_lib"
proof -
  have "(of_nat (unat (scast w :: u64)) :: u32) = w" for w :: u32
  proof -
    have "(of_nat (unat (scast w :: u64)) :: u32) = ucast (scast w :: u64)"
      by (simp add: unsigned_of_nat [symmetric]) 
    also have "\<dots> = w" by (rule bit_word_eqI) (auto simp: bit_simps)
    finally show ?thesis .
  qed
  moreover have "get_text 1 (text_field 1 s @ uint_field 2 n) = s" "get_uint 2 (text_field 1 s @ uint_field 2 n) = n"
    for s n by (simp_all add: text_field_def uint_field_def get_text_def get_uint_def)
  ultimately show ?thesis by (simp add: faithful_def HelloArgs_lib_def decode_with_put del: map_append concat_append)
qed

context proto_pair begin

lemma messages_faithful:
  assumes "\<forall>m \<in> set ms. pb_frame hl bl (fst m) (snd m) \<noteq> None"
    and "\<not> closed q"
    and "inbuf q = outbuf (fst (send_all (ProtobufWrite hl bl) ms (NewProtobufCodec arriving)))"
  shows "snd (send_all (ProtobufWrite hl bl) ms (NewProtobufCodec arriving)) = None
    \<and> receive_all (pb_receive hl bl) (map (\<lambda>m. body_target (snd m)) ms) q =
        (q\<lparr>inbuf := []\<rparr>, Inr (map (\<lambda>m. (fst m, body_value (snd m))) ms))"
  using assms by (intro pb.session) (simp_all add: NewProtobufCodec_def healthy_def)

end

interpretation hello: proto_pair RequestHeader_lib HelloArgs_lib
  by unfold_locales (rule RequestHeader_faithful HelloArgs_faithful)+

section \<open>The gob and json codecs\<close>

text \<open>
  \<open>gob.go\<close> and \<open>json.go\<close> have the same text but for the package of the encoder. An encoder
  keeps a state (\<open>gob\<close> sends a type once), yields the bytes it writes and possibly an error; a
  decoder reads from the connection through its own buffer.
\<close>

record ('e, 'd, 'b) stream_lib =
  EncodeHeader :: "'e \<Rightarrow> header \<Rightarrow> 'e \<times> byte list \<times> goerror option"
  EncodeBody :: "'e \<Rightarrow> 'b \<Rightarrow> 'e \<times> byte list \<times> goerror option"
  DecodeHeader :: "'d \<Rightarrow> pipe_end \<Rightarrow> 'd \<times> pipe_end \<times> header result"
  DecodeBody :: "'d \<Rightarrow> target \<Rightarrow> pipe_end \<Rightarrow> 'd \<times> pipe_end \<times> ('b option) result"

record ('e, 'd) stream_codec =
  sc_conn :: pipe_end
  sc_enc :: 'e
  sc_dec :: 'd

definition NewStreamCodec :: "'e \<Rightarrow> 'd \<Rightarrow> pipe_end \<Rightarrow> ('e, 'd) stream_codec" where
  "NewStreamCodec enc dec conn = \<lparr>sc_conn = conn, sc_enc = enc, sc_dec = dec\<rparr>"

definition StreamClose :: "('e, 'd) stream_codec \<Rightarrow> ('e, 'd) stream_codec \<times> goerror option" where
  "StreamClose c = (case ProtobufClose (sc_conn c) of (p, e) \<Rightarrow> (c\<lparr>sc_conn := p\<rparr>, e))"

definition StreamReadHeader ::
    "('e, 'd, 'b) stream_lib \<Rightarrow> ('e, 'd) stream_codec \<Rightarrow> ('e, 'd) stream_codec \<times> header result" where
  "StreamReadHeader lib c =
     (case DecodeHeader lib (sc_dec c) (sc_conn c) of
        (d, p, r) \<Rightarrow> (c\<lparr>sc_conn := p, sc_dec := d\<rparr>, r))"

definition StreamReadBody ::
    "('e, 'd, 'b) stream_lib \<Rightarrow> target \<Rightarrow> ('e, 'd) stream_codec \<Rightarrow> ('e, 'd) stream_codec \<times> ('b option) result" where
  "StreamReadBody lib t c =
     (case DecodeBody lib (sc_dec c) t (sc_conn c) of
        (d, p, r) \<Rightarrow> (c\<lparr>sc_conn := p, sc_dec := d\<rparr>, r))"

text \<open>One \<open>Encode\<close>: its bytes go to the buffered writer, whose error becomes its own.\<close>

definition stream_encode ::
    "('e \<times> byte list \<times> goerror option) \<Rightarrow> ('e, 'd) stream_codec \<Rightarrow> ('e, 'd) stream_codec \<times> goerror option" where
  "stream_encode r c =
     (case r of (enc, bs, err) \<Rightarrow>
        case bufio_write bs (sc_conn c) of (p, werror) \<Rightarrow>
          (c\<lparr>sc_conn := p, sc_enc := enc\<rparr>, if err \<noteq> None then err else werror))"

text \<open>
  \<open>Write\<close>: a failing header is returned, a failing body only logged; the deferred function
  flushes whatever was buffered and closes the connection when an error is returned.
\<close>

definition StreamWrite ::
    "('e, 'd, 'b) stream_lib \<Rightarrow> header \<Rightarrow> 'b \<Rightarrow> ('e, 'd) stream_codec \<Rightarrow> ('e, 'd) stream_codec \<times> goerror option" where
  "StreamWrite lib h b c =
     (let (c2, err) =
        (case stream_encode (EncodeHeader lib (sc_enc c) h) c of
           (c1, Some e) \<Rightarrow> (c1, Some e)
         | (c1, None) \<Rightarrow> (case stream_encode (EncodeBody lib (sc_enc c1) b) c1 of (c2, _) \<Rightarrow> (c2, None)));
          c3 = c2\<lparr>sc_conn := fst (bufio_flush (sc_conn c2))\<rparr>
      in if err \<noteq> None then (fst (StreamClose c3), err) else (c3, None))"

section \<open>Properties\<close>

text \<open>
  C5. A protobuf connection carries messages faithfully: with a \<open>proto\<close> library that decodes what
  it encodes, any sequence of messages that can be encoded is written without an error and
  read back, header by header and body by body, in order and with nothing left over. A body
  that is no message (\<open>nil\<close>, the empty struct) is an empty block, skipped by reading into \<open>nil\<close>.
\<close>

theorem protobuf_session_roundtrip:
  assumes "faithful hl" and "faithful bl"
    and "\<forall>m \<in> set ms. pb_frame hl bl (fst m) (snd m) \<noteq> None"
    and "\<not> closed q"
    and "inbuf q = outbuf (fst (send_all (ProtobufWrite hl bl) ms (NewProtobufCodec arriving)))"
  shows "snd (send_all (ProtobufWrite hl bl) ms (NewProtobufCodec arriving)) = None
    \<and> receive_all (pb_receive hl bl) (map (\<lambda>m. body_target (snd m)) ms) q =
        (q\<lparr>inbuf := []\<rparr>, Inr (map (\<lambda>m. (fst m, body_value (snd m))) ms))"
  by (rule proto_pair.messages_faithful [OF proto_pair.intro]) (rule assms)+

definition hello_session :: "(header \<times> hello_args body) list" where
  "hello_session =
     [(\<lparr>ServiceMethod = ''HelloService.Hello'', Seq = 300, ErrorText = ''''\<rparr>,
       ProtoMsg \<lparr>HelloName = ''geektutu'', HelloAge = 18\<rparr>),
      (\<lparr>ServiceMethod = ''Foo.Sum'', Seq = 301, ErrorText = ''no such method''\<rparr>, EmptyStruct)]"

lemma hello_session_encodes:
  "\<forall>m \<in> set hello_session. pb_frame RequestHeader_lib HelloArgs_lib (fst m) (snd m) \<noteq> None"
  by (simp add: hello_session_def pb_frame_def block_def body_block_def RequestHeader_lib_def
      HelloArgs_lib_def header_fields_def text_field_def uint_field_def put_field_def
      put_varint.simps string_bytes_def)

lemma protobuf_session_roundtrip_witness:
  "let q = NewProtobufCodec (outbuf (fst (send_all (ProtobufWrite RequestHeader_lib HelloArgs_lib)
             hello_session (NewProtobufCodec []))))
   in snd (receive_all (pb_receive RequestHeader_lib HelloArgs_lib)
             (map (\<lambda>m. body_target (snd m)) hello_session) q) =
        Inr [(\<lparr>ServiceMethod = ''HelloService.Hello'', Seq = 300, ErrorText = ''''\<rparr>,
              Some \<lparr>HelloName = ''geektutu'', HelloAge = 18\<rparr>),
             (\<lparr>ServiceMethod = ''Foo.Sum'', Seq = 301, ErrorText = ''no such method''\<rparr>, None)]"
proof -
  let ?q = "NewProtobufCodec (outbuf (fst (send_all (ProtobufWrite RequestHeader_lib HelloArgs_lib)
             hello_session (NewProtobufCodec []))))"
  have "snd (receive_all (pb_receive RequestHeader_lib HelloArgs_lib)
      (map (\<lambda>m. body_target (snd m)) hello_session) ?q) =
    Inr (map (\<lambda>m. (fst m, body_value (snd m))) hello_session)"
    using protobuf_session_roundtrip [OF RequestHeader_faithful HelloArgs_faithful hello_session_encodes, of ?q "[]"]
    by (simp add: NewProtobufCodec_def)
  then show ?thesis
    by (simp only: Let_def) (simp add: hello_session_def body_value_def)
qed

lemma ProtobufReadHeader_eof:
  "\<not> closed p \<Longrightarrow> inbuf p = [] \<Longrightarrow> ProtobufReadHeader hl h p = (p, h, None)"
  by (simp add: ProtobufReadHeader_def readMessage_def read_full_def)

text \<open>
  A stream cut inside a body goes unnoticed: when fewer bytes arrive than the length field
  announces, \<open>ReadBody\<close> reports success and leaves the message as it was, and at the end of the
  stream \<open>ReadHeader\<close> reports success too, with the header and the connection as they were, so that it does so as often as it is called.
\<close>

theorem protobuf_read_errors_hidden:
  assumes "\<not> closed p" and "inbuf p = put_be32 n @ data" and "length data < unat n"
  shows "ProtobufReadBody bl ProtoTarget p = (p\<lparr>inbuf := []\<rparr>, Inr None)
    \<and> ProtobufReadHeader hl h (p\<lparr>inbuf := []\<rparr>) = (p\<lparr>inbuf := []\<rparr>, h, None)"
proof
  have "read_full 4 p = (p\<lparr>inbuf := data\<rparr>, Inr (put_be32 n))"
    using assms(1,2) by (intro read_full_prefix) simp_all
  moreover have "fst (read_full (unat n) (p\<lparr>inbuf := data\<rparr>)) = p\<lparr>inbuf := []\<rparr>"
    "\<exists>e. snd (read_full (unat n) (p\<lparr>inbuf := data\<rparr>)) = Inl e"
    using assms(1,3) by (auto simp: read_full_def)
  ultimately show "ProtobufReadBody bl ProtoTarget p = (p\<lparr>inbuf := []\<rparr>, Inr None)"
    by (cases "read_full (unat n) (p\<lparr>inbuf := data\<rparr>)")
      (auto simp: ProtobufReadBody_def readMessage_def)
next
  show "ProtobufReadHeader hl h (p\<lparr>inbuf := []\<rparr>) = (p\<lparr>inbuf := []\<rparr>, h, None)"
    using assms(1) by (intro ProtobufReadHeader_eof) simp_all
qed

lemma protobuf_read_errors_hidden_witness:
  "ProtobufReadBody HelloArgs_lib ProtoTarget (NewProtobufCodec [0, 0, 0, 9, 10, 7]) =
     (NewProtobufCodec [], Inr None)"
  using protobuf_read_errors_hidden [of "NewProtobufCodec [0, 0, 0, 9, 10, 7]" 9 "[10, 7]" HelloArgs_lib
      RequestHeader_lib zero_header]
  by (simp add: NewProtobufCodec_def put_be32_def)

text \<open>
  A body that is no protobuf message leaves its header behind: \<open>Write\<close> fails after the
  header has entered the buffer, nothing takes it out again, and the next successful \<open>Write\<close> on
  the connection sends it in front of its own message. The peer then reads that stale header
  and takes the next message's header for its body.
\<close>

theorem protobuf_failed_write_desynchronises:
  assumes "faithful hl" and "healthy p" and "block hl h = Some x" and "pb_frame hl bl h' b = Some bs"
  shows "snd (ProtobufWrite hl bl h OtherBody p) \<noteq> None
    \<and> outbuf (fst (ProtobufWrite hl bl h' b (fst (ProtobufWrite hl bl h OtherBody p)))) = pending p @ x @ bs
    \<and> (\<forall>q::pipe_end. \<not> closed q \<longrightarrow> inbuf q = x @ bs \<longrightarrow>
          ProtobufReadHeader hl zero_header q = (q\<lparr>inbuf := bs\<rparr>, h, None))"
proof (intro conjI allI impI)
  from writeMessage_block [OF assms(2,3)] obtain p1
    where p1: "writeMessage hl h p = (p1, None)" "healthy p1" "pending p1 = pending p @ x" by blast
  then have w: "ProtobufWrite hl bl h OtherBody p = (p1, Some ''rpc codec: body must implement proto.Message'')"
    by (simp add: ProtobufWrite_def)
  then show "snd (ProtobufWrite hl bl h OtherBody p) \<noteq> None" by simp
  from ProtobufWrite_frame [OF p1(2) assms(4)] w p1(3)
  show "outbuf (fst (ProtobufWrite hl bl h' b (fst (ProtobufWrite hl bl h OtherBody p)))) = pending p @ x @ bs"
    by auto
next
  fix q :: pipe_end assume "\<not> closed q" "inbuf q = x @ bs"
  with readMessage_block [OF assms(1) _ assms(3)]
  show "ProtobufReadHeader hl zero_header q = (q\<lparr>inbuf := bs\<rparr>, h, None)"
    by (simp add: ProtobufReadHeader_def)
qed

lemma protobuf_failed_write_desynchronises_witness:
  "let h = fst (hello_session ! 0); p = NewProtobufCodec [] in
   snd (ProtobufWrite RequestHeader_lib HelloArgs_lib h OtherBody p) \<noteq> None"
proof -
  obtain x where "block RequestHeader_lib (fst (hello_session ! 0)) = Some x"
    using hello_session_encodes by (auto simp: pb_frame_def hello_session_def split: option.splits)
  moreover obtain bs where "pb_frame RequestHeader_lib HelloArgs_lib (fst (hello_session ! 1)) (snd (hello_session ! 1)) = Some bs"
    using hello_session_encodes by (auto simp: hello_session_def)
  moreover have "healthy (NewProtobufCodec [])" by (simp add: healthy_def NewProtobufCodec_def)
  ultimately show ?thesis
    by (simp only: Let_def protobuf_failed_write_desynchronises [OF RequestHeader_faithful] not_False_eq_True)
qed

text \<open>
  The contract of \<open>Write\<close> of the gob and json codecs on a healthy connection: an error is
  returned, and the connection closed, exactly when the header cannot be encoded. What the
  body's encoder returns is never seen: the call succeeds, the connection stays open and the
  peer is left with whatever bytes the encoder had produced.
\<close>

theorem stream_write_ignores_body_error:
  assumes "healthy (sc_conn c)"
    and "EncodeHeader lib (sc_enc c) h = (enc1, hbytes, herr)"
    and "EncodeBody lib enc1 b = (enc2, bbytes, berr)"
  shows "snd (StreamWrite lib h b c) = herr
    \<and> (closed (sc_conn (fst (StreamWrite lib h b c))) \<longleftrightarrow> herr \<noteq> None)
    \<and> outbuf (sc_conn (fst (StreamWrite lib h b c))) =
        pending (sc_conn c) @ hbytes @ (if herr = None then bbytes else [])"
proof -
  from bufio_write_healthy [OF assms(1)] obtain p1
    where p1: "bufio_write hbytes (sc_conn c) = (p1, None)" "healthy p1"
      "pending p1 = pending (sc_conn c) @ hbytes" by blast
  from bufio_write_healthy [OF p1(2)] obtain p2
    where p2: "bufio_write bbytes p1 = (p2, None)" "healthy p2" "pending p2 = pending p1 @ bbytes" by blast
  from bufio_flush_healthy [OF p1(2)] obtain f1
    where f1: "bufio_flush p1 = (f1, None)" "healthy f1" "outbuf f1 = pending p1" by blast
  from bufio_flush_healthy [OF p2(2)] obtain f2
    where f2: "bufio_flush p2 = (f2, None)" "healthy f2" "outbuf f2 = pending p2" by blast
  note parts = StreamWrite_def stream_encode_def StreamClose_def ProtobufClose_def healthy_def
  show ?thesis
  proof (cases herr)
    case None
    with assms(2,3) p1 p2 f2 show ?thesis by (simp add: parts)
  next
    case (Some e)
    with assms(2) p1 f1 show ?thesis by (simp add: parts)
  qed
qed

definition failing_body_lib :: "(unit, unit, nat) stream_lib" where
  "failing_body_lib =
     \<lparr>EncodeHeader = \<lambda>u h. ((), string_bytes (ServiceMethod h), None),
      EncodeBody = \<lambda>u b. ((), [], Some ''json: unsupported type: chan int''),
      DecodeHeader = \<lambda>u p. ((), p, Inl EOF), DecodeBody = \<lambda>u t p. ((), p, Inl EOF)\<rparr>"

lemma stream_write_ignores_body_error_witness:
  "let r = StreamWrite failing_body_lib (fst (hello_session ! 1)) 0 (NewStreamCodec () () (NewProtobufCodec [])) in
   snd r = None \<and> \<not> closed (sc_conn (fst r))
   \<and> outbuf (sc_conn (fst r)) = string_bytes ''Foo.Sum''"
  using stream_write_ignores_body_error [of "NewStreamCodec () () (NewProtobufCodec [])" failing_body_lib
      "fst (hello_session ! 1)" "()" "string_bytes ''Foo.Sum''" None 0 "()" "[]"
      "Some ''json: unsupported type: chan int''"]
  by (simp add: failing_body_lib_def NewStreamCodec_def NewProtobufCodec_def healthy_def pending_def
      hello_session_def Let_def)

end
