(* ===== verification/Service.thy ===== *)
theory Service
  imports Prelude
begin

text \<open>
  Services found by reflection: \<open>apps/pkg/geeRPC/service.go\<close>. A value given to \<open>Register\<close> becomes
  a \<open>service\<close>: its exported methods of the right shape, under their names, each with its
  argument and reply type and a call counter.

  Of \<open>reflect\<close> the sources use what a type answers to \<open>Name\<close>, \<open>PkgPath\<close>, \<open>Kind\<close> and
  \<open>Elem\<close>, the method set of a type, zero values and calls. A method's body is code of the
  embedding program: an argument of \<open>call\<close>.
\<close>

section \<open>Types and values\<close>

datatype go_kind = KInt | KString | KStruct | KInterface | KPtr | KMap | KSlice | KOther

datatype go_type = GoType (ty_name: gostring) (ty_pkg: gostring) (ty_kind: go_kind) (ty_elem: "go_type option")

text \<open>\<open>Elem\<close> panics on a type that has no element type: \<open>None\<close> is that panic.\<close>

definition Elem :: "go_type \<Rightarrow> go_type option" where
  "Elem t = (if ty_kind t \<in> {KPtr, KMap, KSlice} then ty_elem t else None)"

definition error_type :: go_type where
  "error_type = GoType ''error'' '''' KInterface None"

definition pointer_to :: "go_type \<Rightarrow> go_type" where
  "pointer_to t = GoType '''' '''' KPtr (Some t)"

text \<open>\<open>ast.IsExported\<close>: the name begins with an upper-case letter.\<close>

definition IsExported :: "gostring \<Rightarrow> bool" where
  "IsExported s =
     (case s of [] \<Rightarrow> False | c # _ \<Rightarrow> (65::nat) \<le> of_char c \<and> (of_char c :: nat) \<le> 90)"

datatype go_value =
    VZero go_type
  | VPtr go_value
  | VMap
  | VSlice
  | VData gostring

section \<open>Methods and services\<close>

record reflect_method =
  mt_name :: gostring
  mt_in :: "go_type list"
  mt_out :: "go_type list"

record methodType =
  mt_method :: reflect_method
  ArgType :: go_type
  ReplyType :: go_type
  numCalls :: u64

definition NumCalls :: "methodType \<Rightarrow> u64" where
  "NumCalls m = numCalls m"

definition newArgv :: "methodType \<Rightarrow> go_value option" where
  "newArgv m =
     (if ty_kind (ArgType m) = KPtr then map_option (\<lambda>e. VPtr (VZero e)) (Elem (ArgType m))
      else Some (VZero (ArgType m)))"

definition newReplyv :: "methodType \<Rightarrow> go_value option" where
  "newReplyv m =
     map_option
       (\<lambda>e. VPtr (case ty_kind e of KMap \<Rightarrow> VMap | KSlice \<Rightarrow> VSlice | _ \<Rightarrow> VZero e))
       (Elem (ReplyType m))"

record service =
  svc_name :: gostring
  svc_typ :: "reflect_method list"
  svc_method :: "gostring \<rightharpoonup> methodType"

definition isExportedOrBuiltinType :: "go_type \<Rightarrow> bool" where
  "isExportedOrBuiltinType t \<longleftrightarrow> IsExported (ty_name t) \<or> ty_pkg t = ''''"

text \<open>One round of the loop of \<open>registerMethods\<close>: the entry a method gets, if any.\<close>

definition register_method :: "reflect_method \<Rightarrow> methodType option" where
  "register_method m =
     (if length (mt_in m) \<noteq> 3 \<or> length (mt_out m) \<noteq> 1 then None
      else if mt_out m ! 0 \<noteq> error_type then None
      else if \<not> isExportedOrBuiltinType (mt_in m ! 1) \<or> \<not> isExportedOrBuiltinType (mt_in m ! 2) then None
      else Some \<lparr>mt_method = m, ArgType = mt_in m ! 1, ReplyType = mt_in m ! 2, numCalls = 0\<rparr>)"

primrec register_loop :: "reflect_method list \<Rightarrow> (gostring \<rightharpoonup> methodType) \<Rightarrow> (gostring \<rightharpoonup> methodType)" where
  "register_loop [] tab = tab"
| "register_loop (m # ms) tab =
     register_loop ms (case register_method m of None \<Rightarrow> tab | Some e \<Rightarrow> tab(mt_name m \<mapsto> e))"

definition registerMethods :: "service \<Rightarrow> service" where
  "registerMethods s = s\<lparr>svc_method := register_loop (svc_typ s) Map.empty\<rparr>"

text \<open>\<open>newService\<close> ends the process (\<open>log.Fatalf\<close>) on a name that is not exported: \<open>Inl\<close>.\<close>

definition newService :: "gostring \<Rightarrow> reflect_method list \<Rightarrow> service result" where
  "newService tyname methods =
     (if \<not> IsExported tyname then Inl (''rpc server: '' @ tyname @ '' is not a valid service name'')
      else Inr (registerMethods \<lparr>svc_name = tyname, svc_typ = methods, svc_method = Map.empty\<rparr>))"

section \<open>Calls\<close>

text \<open>
  What the body of a method does with argument and reply: return an error or none with the
  reply filled in, or panic.
\<close>

datatype outcome = Ret "goerror option" | Panic gostring

type_synonym method_body = "gostring \<Rightarrow> gostring \<Rightarrow> go_value \<Rightarrow> go_value \<Rightarrow> go_value \<times> outcome"

definition call :: "method_body \<Rightarrow> service \<Rightarrow> gostring \<Rightarrow> go_value \<Rightarrow> go_value \<Rightarrow> service \<times> go_value \<times> outcome" where
  "call body s mname argv replyv =
     (case svc_method s mname of
        None \<Rightarrow> (s, replyv, Panic ''nil pointer dereference'')
      | Some m \<Rightarrow>
          (let s' = s\<lparr>svc_method := (svc_method s)(mname \<mapsto> m\<lparr>numCalls := numCalls m + 1\<rparr>)\<rparr>;
               (replyv', res) = body (svc_name s) (mt_name (mt_method m)) argv replyv
           in (s', replyv', res)))"

section \<open>Lemmas\<close>

lemma register_loop_lookup:
  assumes "distinct (map mt_name ms)"
  shows "register_loop ms tab n =
    (case find (\<lambda>m. mt_name m = n \<and> register_method m \<noteq> None) ms of
       Some m \<Rightarrow> register_method m | None \<Rightarrow> tab n)"
  using assms
proof (induction ms arbitrary: tab)
  case (Cons m ms)
  have other: "find (\<lambda>k. mt_name k = mt_name m \<and> register_method k \<noteq> None) ms = None"
    using Cons.prems by (auto simp: find_None_iff) (metis image_eqI)
  show ?case
  proof (cases "mt_name m = n")
    case True
    with other Cons show ?thesis by (auto split: option.split)
  next
    case False
    with Cons show ?thesis by (auto split: option.split)
  qed
qed simp

lemma find_unique_name:
  assumes "distinct (map mt_name ms)" and "m \<in> set ms" and "P m"
  shows "find (\<lambda>k. mt_name k = mt_name m \<and> P k) ms = Some m"
  using assms by (induction ms) (auto simp: image_iff)

lemma findD: "find P xs = Some x \<Longrightarrow> x \<in> set xs \<and> P x"
  by (induction xs) (auto split: if_splits)

lemma register_loop_Some:
  assumes "distinct (map mt_name ms)"
  shows "register_loop ms Map.empty n = Some e \<longleftrightarrow>
    (\<exists>m \<in> set ms. mt_name m = n \<and> register_method m = Some e)"
proof
  assume "register_loop ms Map.empty n = Some e"
  then obtain m where "find (\<lambda>m. mt_name m = n \<and> register_method m \<noteq> None) ms = Some m"
    and e: "register_method m = Some e"
    by (auto simp: register_loop_lookup [OF assms] split: option.splits)
  from findD [OF this(1)] e show "\<exists>m \<in> set ms. mt_name m = n \<and> register_method m = Some e" by blast
next
  assume "\<exists>m \<in> set ms. mt_name m = n \<and> register_method m = Some e"
  then obtain m where m: "m \<in> set ms" "mt_name m = n" "register_method m = Some e" by blast
  have "find (\<lambda>k. mt_name k = mt_name m \<and> register_method k \<noteq> None) ms = Some m"
    using m by (intro find_unique_name [OF assms m(1)]) simp
  then show "register_loop ms Map.empty n = Some e"
    using m(2,3) by (simp only: register_loop_lookup [OF assms] option.case)
qed

lemma register_method_Some:
  "register_method m = Some e \<longleftrightarrow>
     (\<exists>self a r. mt_in m = [self, a, r] \<and> mt_out m = [error_type]
        \<and> isExportedOrBuiltinType a \<and> isExportedOrBuiltinType r
        \<and> e = \<lparr>mt_method = m, ArgType = a, ReplyType = r, numCalls = 0\<rparr>)"
  by (auto simp: register_method_def length_Suc_conv numeral_3_eq_3)

section \<open>Properties\<close>

text \<open>
  C33. The method table of a service is exact. A name leads to an entry if and only if the type
  has a method of that name with two arguments beside the receiver, both of exported or unnamed
  type, and \<open>error\<close> as its one result; the entry holds that method, these types and a zero
  counter. (A type's method names are distinct.) Registration stops the process exactly when
  the type's own name is not exported.
\<close>

theorem service_methods_exact:
  assumes "distinct (map mt_name methods)"
  shows "(newService n methods = Inl e \<longrightarrow> \<not> IsExported n)
    \<and> (newService n methods = Inr s \<longrightarrow>
        IsExported n \<and> svc_name s = n
        \<and> (svc_method s k = Some entry \<longleftrightarrow>
            (\<exists>m \<in> set methods. \<exists>self a r. mt_name m = k \<and> mt_in m = [self, a, r]
               \<and> mt_out m = [error_type] \<and> isExportedOrBuiltinType a \<and> isExportedOrBuiltinType r
               \<and> entry = \<lparr>mt_method = m, ArgType = a, ReplyType = r, numCalls = 0\<rparr>)))"
  by (auto simp: newService_def registerMethods_def register_loop_Some [OF assms] register_method_Some)

definition foo_methods :: "reflect_method list" where
  "foo_methods =
     [\<lparr>mt_name = ''Sum'',
       mt_in = [pointer_to (GoType ''Foo'' ''main'' KStruct None), GoType ''Args'' ''main'' KStruct None,
                pointer_to (GoType ''int'' '''' KInt None)],
       mt_out = [error_type]\<rparr>,
      \<lparr>mt_name = ''Bad'',
       mt_in = [pointer_to (GoType ''Foo'' ''main'' KStruct None), GoType ''args'' ''main'' KStruct None,
                pointer_to (GoType ''int'' '''' KInt None)],
       mt_out = [error_type]\<rparr>,
      \<lparr>mt_name = ''ByValue'',
       mt_in = [pointer_to (GoType ''Foo'' ''main'' KStruct None), GoType ''Args'' ''main'' KStruct None,
                GoType ''int'' '''' KInt None],
       mt_out = [error_type]\<rparr>]"

definition foo_service :: service where
  "foo_service = registerMethods \<lparr>svc_name = ''Foo'', svc_typ = foo_methods, svc_method = Map.empty\<rparr>"

lemma foo_service_new: "newService ''Foo'' foo_methods = Inr foo_service"
  by (simp add: newService_def foo_service_def IsExported_def)

lemma foo_method_names: "distinct (map mt_name foo_methods)"
  by (simp add: foo_methods_def)

definition foo_sum :: methodType where
  "foo_sum = \<lparr>mt_method = foo_methods ! 0, ArgType = GoType ''Args'' ''main'' KStruct None,
     ReplyType = pointer_to (GoType ''int'' '''' KInt None), numCalls = 0\<rparr>"

lemma foo_sum_entry: "register_loop foo_methods Map.empty ''Sum'' = Some foo_sum"
  by (simp add: register_loop_Some [OF foo_method_names])
    (simp add: foo_sum_def foo_methods_def register_method_def isExportedOrBuiltinType_def IsExported_def pointer_to_def)

lemma service_methods_exact_witness:
  "svc_method foo_service ''Sum'' \<noteq> None \<and> svc_method foo_service ''Bad'' = None"
proof
  show "svc_method foo_service ''Sum'' \<noteq> None"
    using service_methods_exact [OF foo_method_names, of "''Foo''" "[]" foo_service "''Sum''"
        "\<lparr>mt_method = foo_methods ! 0, ArgType = GoType ''Args'' ''main'' KStruct None,
          ReplyType = pointer_to (GoType ''int'' '''' KInt None), numCalls = 0\<rparr>"] foo_service_new
    by (simp add: foo_methods_def isExportedOrBuiltinType_def IsExported_def pointer_to_def)
next
  show "svc_method foo_service ''Bad'' = None"
  proof (rule ccontr)
    assume "svc_method foo_service ''Bad'' \<noteq> None"
    then obtain entry where "svc_method foo_service ''Bad'' = Some entry" by blast
    with service_methods_exact [OF foo_method_names, of "''Foo''" "[]" foo_service "''Bad''" entry]
      foo_service_new show False
      by (simp add: foo_methods_def isExportedOrBuiltinType_def IsExported_def)
  qed
qed

text \<open>
  The reply type is not checked to be a pointer: a method whose reply is of a type without
  an element, such as \<open>func (f *Foo) ByValue(args Args, reply int) error\<close>, is registered like any
  other, and every request for it panics in \<open>newReplyv\<close> (\<open>Elem\<close> of that type) while the server
  reads the request.
\<close>

theorem service_reply_type_unchecked:
  assumes "mt_in m = [self, a, r]" and "mt_out m = [error_type]"
    and "isExportedOrBuiltinType a" and "isExportedOrBuiltinType r"
    and "ty_kind r \<notin> {KPtr, KMap, KSlice}"
  shows "\<exists>entry. register_method m = Some entry \<and> mt_method entry = m \<and> newReplyv entry = None"
  using assms by (simp add: register_method_def newReplyv_def Elem_def)

lemma service_reply_type_unchecked_witness:
  "\<exists>entry. svc_method foo_service ''ByValue'' = Some entry \<and> newReplyv entry = None"
proof -
  have "\<exists>entry. register_method (foo_methods ! 2) = Some entry \<and> mt_method entry = foo_methods ! 2
      \<and> newReplyv entry = None"
    by (rule service_reply_type_unchecked [where a = "GoType ''Args'' ''main'' KStruct None"
          and r = "GoType ''int'' '''' KInt None"])
      (simp_all add: foo_methods_def isExportedOrBuiltinType_def IsExported_def)
  then show ?thesis
    by (auto simp: foo_service_def registerMethods_def register_loop_Some [OF foo_method_names])
      (auto simp: foo_methods_def)
qed

text \<open>Calls in the order their atomic increments happen.\<close>

primrec run_calls :: "method_body \<Rightarrow> service \<Rightarrow> (gostring \<times> go_value \<times> go_value) list \<Rightarrow> service" where
  "run_calls body s [] = s"
| "run_calls body s (c # cs) =
     (case c of (mname, argv, replyv) \<Rightarrow> run_calls body (fst (call body s mname argv replyv)) cs)"

lemma call_entry:
  "svc_method s k = Some m \<Longrightarrow>
   svc_method (fst (call body s mname argv replyv)) k =
     Some (if k = mname then m\<lparr>numCalls := numCalls m + 1\<rparr> else m)"
  by (auto simp: call_def Let_def split: option.split prod.split)

text \<open>
  Call counters are exact: after any sequence of calls the counter of a method has grown by
  the number of calls of that method, modulo \<open>2 ^ 64\<close>, whatever the calls returned (an error or
  a panic counts too), and nothing else of its entry has changed.
\<close>

theorem service_counts_calls:
  assumes "svc_method s k = Some m"
  shows "svc_method (run_calls body s cs) k =
    Some (m\<lparr>numCalls := NumCalls m + of_nat (length (filter (\<lambda>c. fst c = k) cs))\<rparr>)"
  using assms
proof (induction cs arbitrary: s m)
  case (Cons c cs)
  obtain mname argv replyv where c: "c = (mname, argv, replyv)" by (cases c)
  from Cons.IH [OF call_entry [OF Cons.prems, of body mname argv replyv]]
  show ?case by (simp add: c NumCalls_def algebra_simps)
qed (simp add: NumCalls_def)

lemma service_counts_calls_witness:
  "let cs = [(''Sum'', VZero error_type, VMap), (''Sum'', VZero error_type, VMap), (''Nope'', VSlice, VMap)]
   in map_option NumCalls (svc_method (run_calls (\<lambda>s m a r. (r, Panic ''x'')) foo_service cs) ''Sum'') = Some 2"
proof -
  have "svc_method foo_service ''Sum'' = Some foo_sum"
    by (simp add: foo_service_def registerMethods_def foo_sum_entry)
  from service_counts_calls [OF this] show ?thesis by (simp add: NumCalls_def foo_sum_def)
qed

end
