(* ===== verification/Interceptors.thy ===== *)
theory Interceptors
  imports Service Codec
begin

text \<open>
  The middleware of the server: the types \<open>CallInfo\<close>, \<open>HandlerFunc\<close> and \<open>Interceptor\<close>, the loop of
  \<open>handleRequest\<close> that wraps the method call (\<open>server.go\<close>), and the two interceptors of
  \<open>apps/pkg/geeRPC/midware/interceptor.go\<close>. A handler works on a world: the process log and
  whatever else the methods touch. It returns an error or none, or it panics.

  The text of a log line is kept as its parts; the time a call took, which the logger prints,
  is left out.
\<close>

record call_info =
  ci_ServiceMethod :: gostring
  ci_Header :: header
  ci_ReqArgs :: go_value

datatype log_event =
    CallStart gostring go_value
  | CallEnd gostring "goerror option"
  | PanicRecovered gostring gostring

record 'w world =
  log :: "log_event list"
  rest :: 'w

type_synonym 'w handler = "call_info \<Rightarrow> 'w world \<Rightarrow> 'w world \<times> outcome"
type_synonym 'w interceptor = "'w handler \<Rightarrow> 'w handler"

definition log_line :: "log_event \<Rightarrow> 'w world \<Rightarrow> 'w world" where
  "log_line e w = w\<lparr>log := log w @ [e]\<rparr>"

definition LoggerInterceptor :: "'w interceptor" where
  "LoggerInterceptor next_h = (\<lambda>i w.
     case next_h i (log_line (CallStart (ci_ServiceMethod i) (ci_ReqArgs i)) w) of
       (w', Ret err) \<Rightarrow> (log_line (CallEnd (ci_ServiceMethod i) err) w', Ret err)
     | (w', Panic p) \<Rightarrow> (w', Panic p))"

definition RecoveryInterceptor :: "'w interceptor" where
  "RecoveryInterceptor next_h = (\<lambda>i w.
     case next_h i w of
       (w', Ret err) \<Rightarrow> (w', Ret err)
     | (w', Panic p) \<Rightarrow>
         (log_line (PanicRecovered (ci_ServiceMethod i) p) w', Ret (Some (''internal panic: '' @ p))))"

text \<open>\<open>for i := len(server.interceptors) - 1; i >= 0; i-- { handler = interceptors[i](handler) }\<close>\<close>

fun wrap_from :: "'w interceptor list \<Rightarrow> nat \<Rightarrow> 'w handler \<Rightarrow> 'w handler" where
  "wrap_from ics 0 h = h"
| "wrap_from ics (Suc i) h = wrap_from ics i ((ics ! i) h)"

definition assemble :: "'w interceptor list \<Rightarrow> 'w handler \<Rightarrow> 'w handler" where
  "assemble ics h = wrap_from ics (length ics) h"

text \<open>\<open>Use\<close> appends.\<close>

definition Use :: "'w interceptor list \<Rightarrow> 'w interceptor list \<Rightarrow> 'w interceptor list" where
  "Use added installed = installed @ added"

lemma wrap_from_take: "i \<le> length ics \<Longrightarrow> wrap_from ics i h = foldr id (take i ics) h"
  by (induction i arbitrary: h) (simp_all add: take_Suc_conv_app_nth)

lemma assemble_foldr: "assemble ics h = foldr id ics h"
  by (simp add: assemble_def wrap_from_take)

lemma assemble_append: "assemble (xs @ ys) h = assemble xs (assemble ys h)"
  by (simp add: assemble_foldr)

section \<open>Interfaces\<close>

text \<open>A handler that never panics, and interceptors by what they do to panics.\<close>

definition calm :: "'w handler \<Rightarrow> bool" where
  "calm h \<longleftrightarrow> (\<forall>i w w' p. h i w \<noteq> (w', Panic p))"

definition keeps_calm :: "'w interceptor \<Rightarrow> bool" where
  "keeps_calm ic \<longleftrightarrow> (\<forall>h. calm h \<longrightarrow> calm (ic h))"

lemma assemble_calm: "\<forall>ic \<in> set ics. keeps_calm ic \<Longrightarrow> calm h \<Longrightarrow> calm (assemble ics h)"
  unfolding assemble_foldr by (induction ics) (auto simp: keeps_calm_def)

locale calm_interceptor =
  fixes ic :: "'w interceptor"
  assumes calm_preserved: "calm h \<Longrightarrow> calm (ic h)"
begin

lemma keeps: "keeps_calm ic"
  by (simp add: keeps_calm_def calm_preserved)

end

locale panic_guard =
  fixes ic :: "'w interceptor"
  assumes guarded: "calm (ic h)"
begin

lemma shields:
  assumes "\<forall>outer \<in> set before. keeps_calm outer"
  shows "calm (assemble (before @ ic # after) h)"
proof -
  have "assemble (before @ ic # after) h = assemble before (ic (assemble after h))"
    by (simp add: assemble_foldr)
  with assms guarded show ?thesis by (simp add: assemble_calm)
qed

end

sublocale panic_guard \<subseteq> calm_interceptor
  by unfold_locales (rule guarded)

interpretation logger: calm_interceptor LoggerInterceptor
  by unfold_locales
    (auto simp: calm_def LoggerInterceptor_def split: prod.splits outcome.splits)

interpretation recovery: panic_guard RecoveryInterceptor
  by unfold_locales (auto simp: calm_def RecoveryInterceptor_def split: prod.splits outcome.splits)

section \<open>Properties\<close>

text \<open>
  The wrapping loop puts the interceptors around the call in the order they were installed:
  the first one is outermost, interceptors added by a later \<open>Use\<close> run inside all earlier ones,
  and with none installed the handler is the method call itself.
\<close>

theorem interceptors_nest_in_order:
  "assemble [] h = h
   \<and> assemble (ic # ics) h = ic (assemble ics h)
   \<and> assemble (Use added installed) h = assemble installed (assemble added h)"
  by (simp add: assemble_foldr Use_def)

text \<open>
  Nothing below the recovery interceptor can bring the server down: wherever it is installed,
  if the interceptors installed before it do not panic of themselves, the assembled handler
  returns for every method, every interceptor after it and every request.
\<close>

theorem recovery_shields_server:
  assumes "\<forall>outer \<in> set before. keeps_calm outer"
  shows "\<exists>w' err. assemble (before @ RecoveryInterceptor # after) h i w = (w', Ret err)"
proof -
  from recovery.shields [OF assms, of after h]
  show ?thesis
    by (cases "assemble (before @ RecoveryInterceptor # after) h i w"; cases "snd (assemble (before @ RecoveryInterceptor # after) h i w)")
      (auto simp: calm_def)
qed

lemma recovery_shields_server_witness:
  "\<forall>i. \<exists>w' err. assemble ([LoggerInterceptor] @ RecoveryInterceptor # []) (\<lambda>i w. (w, Panic ''boom'')) i
      \<lparr>log = [], rest = ()\<rparr> = (w', Ret err)"
  by (intro allI, rule recovery_shields_server) (simp add: logger.keeps)

text \<open>
  What the installed pair logger and recovery shows of a call: one start line, then what
  the method itself logged, a recovery line if it panicked, and one end line carrying the error
  that is returned, which is the method's own or the text of the panic.
\<close>

theorem logger_recovery_contract:
  "assemble [LoggerInterceptor, RecoveryInterceptor] h i w =
    (case h i (log_line (CallStart (ci_ServiceMethod i) (ci_ReqArgs i)) w) of
       (w', Ret err) \<Rightarrow> (log_line (CallEnd (ci_ServiceMethod i) err) w', Ret err)
     | (w', Panic p) \<Rightarrow>
         (let err = Some (''internal panic: '' @ p)
          in (log_line (CallEnd (ci_ServiceMethod i) err)
                (log_line (PanicRecovered (ci_ServiceMethod i) p) w'), Ret err)))"
  by (simp add: assemble_foldr LoggerInterceptor_def RecoveryInterceptor_def Let_def split: prod.split outcome.split)

end
