(* ===== verification/Server.thy ===== *)
theory Server
  imports Interceptors
begin

text \<open>
  The server of geeRPC up to the point where a request is handed to its handler:
  \<open>apps/pkg/geeRPC/server.go\<close>. Registration and look-up of services, the option exchange that
  opens a connection, the HTTP entry, and the loop that reads requests. The handling of
  requests, which runs concurrently, is in theory \<open>Serving\<close>.
\<close>

section \<open>Options\<close>

definition MagicNumber :: int where "MagicNumber = 0x3bef5c"

record rpc_option =
  opt_MagicNumber :: int
  opt_CodecType :: gostring
  ConnectTimeout :: int
  HandleTimeout :: int

definition DefaultOption :: rpc_option where
  "DefaultOption =
     \<lparr>opt_MagicNumber = MagicNumber, opt_CodecType = codec_type_text GobType,
      ConnectTimeout = 10 * second, HandleTimeout = 0\<rparr>"

text \<open>
  \<open>ServeConn\<close>: the option decoded from the connection (or the decoder's error) decides whether
  and with which codec the connection is served. In every other case it is closed at once.
\<close>

datatype serve_decision = CloseConn gostring | ServeCodec codec_type

text \<open>The verb \<open>%x\<close> of \<open>fmt\<close>.\<close>

definition hex_digit :: "nat \<Rightarrow> char" where
  "hex_digit d = (if d < 10 then char_of (48 + d) else char_of (87 + d))"

fun hex_nat :: "nat \<Rightarrow> gostring" where
  "hex_nat n = (if n < 16 then [hex_digit n] else hex_nat (n div 16) @ [hex_digit (n mod 16)])"

declare hex_nat.simps [simp del]

definition hex_text :: "int \<Rightarrow> gostring" where
  "hex_text n = (if n < 0 then CHR ''-'' # hex_nat (nat (- n)) else hex_nat (nat n))"

definition ServeConn :: "rpc_option result \<Rightarrow> serve_decision" where
  "ServeConn decoded =
     (case decoded of
        Inl e \<Rightarrow> CloseConn (''rpc server: options error: '' @ e)
      | Inr opt \<Rightarrow>
          if opt_MagicNumber opt \<noteq> MagicNumber
          then CloseConn (''rpc server: invalid magic number '' @ hex_text (opt_MagicNumber opt))
          else (case NewCodecFuncMap (opt_CodecType opt) of
                  None \<Rightarrow> CloseConn (''rpc server: invalid codec type '' @ opt_CodecType opt)
                | Some t \<Rightarrow> ServeCodec t))"

text \<open>The timeout \<open>serveCodec\<close> gives every handler, for a connection opened with \<open>opt\<close>.\<close>

definition handler_timeout :: "rpc_option \<Rightarrow> int" where
  "handler_timeout opt = ConnectTimeout DefaultOption"

text \<open>
  \<open>ServeHTTP\<close>: only \<open>CONNECT\<close> is let through to the hijacked connection; \<open>hijack\<close> is the
  answer of \<open>http.Hijacker\<close>.
\<close>

definition connected :: gostring where "connected = ''200 Connected to Gee RPC''"
definition defaultRPCPath :: gostring where "defaultRPCPath = ''/_geerpc_''"
definition defaultDebugPath :: gostring where "defaultDebugPath = ''/debug/geerpc''"

datatype http_reply =
    Rejected int gostring
  | HijackFailed goerror
  | Tunnel gostring

definition ServeHTTP :: "gostring \<Rightarrow> goerror option \<Rightarrow> http_reply" where
  "ServeHTTP meth hijack =
     (if meth \<noteq> ''CONNECT'' then Rejected 405 (''405 must CONNECT'' @ [char_of (10::nat)])
      else (case hijack of
              Some e \<Rightarrow> HijackFailed e
            | None \<Rightarrow> Tunnel (''HTTP/1.0 '' @ connected @ [char_of (10::nat), char_of (10::nat)])))"

section \<open>Registration and look-up\<close>

record 'w server =
  serviceMap :: "gostring \<rightharpoonup> service"
  interceptors :: "'w interceptor list"

definition NewServer :: "'w server" where
  "NewServer = \<lparr>serviceMap = Map.empty, interceptors = []\<rparr>"

definition server_Use :: "'w interceptor list \<Rightarrow> 'w server \<Rightarrow> 'w server" where
  "server_Use added s = s\<lparr>interceptors := Use added (interceptors s)\<rparr>"

text \<open>
  \<open>Register(rcvr)\<close>, for a receiver with type name \<open>n\<close> and methods \<open>ms\<close>. \<open>Exit\<close> is the
  \<open>log.Fatalf\<close> of \<open>newService\<close>.
\<close>

datatype register_outcome = Registered | Duplicate goerror | Exit gostring

definition Register :: "gostring \<Rightarrow> reflect_method list \<Rightarrow> 'w server \<Rightarrow> 'w server \<times> register_outcome" where
  "Register n ms srv =
     (case newService n ms of
        Inl e \<Rightarrow> (srv, Exit e)
      | Inr s \<Rightarrow>
          (case serviceMap srv (svc_name s) of
             Some _ \<Rightarrow> (srv, Duplicate (''rpc: service already defined: '' @ svc_name s))
           | None \<Rightarrow> (srv\<lparr>serviceMap := (serviceMap srv)(svc_name s \<mapsto> s)\<rparr>, Registered)))"

definition findService :: "'w server \<Rightarrow> gostring \<Rightarrow> (service \<times> methodType) result" where
  "findService srv serviceMethod =
     (let dot = last_index serviceMethod CHR ''.'' in
      if dot < 0 then Inl (''rpc server: service/method request ill-formed: '' @ serviceMethod)
      else
        (let serviceName = take (nat dot) serviceMethod;
             methodName = drop (nat dot + 1) serviceMethod in
         (case serviceMap srv serviceName of
            None \<Rightarrow> Inl (''rpc server: can't find service '' @ serviceName)
          | Some svc \<Rightarrow>
              (case svc_method svc methodName of
                 None \<Rightarrow> Inl (''rpc server: can't find method '' @ methodName)
               | Some m \<Rightarrow> Inr (svc, m)))))"

section \<open>Reading requests\<close>

text \<open>The two reading operations of the interface \<open>Codec\<close>, on the state \<open>'c\<close> of a connection.\<close>

record 'c codec_ops =
  cc_ReadHeader :: "'c \<Rightarrow> 'c \<times> header result"
  cc_ReadBody :: "go_value \<Rightarrow> 'c \<Rightarrow> 'c \<times> go_value \<times> goerror option"

record request =
  rq_h :: header
  rq_svc :: service
  rq_mtype :: methodType
  rq_argv :: go_value
  rq_replyv :: go_value

text \<open>
  What \<open>readRequest\<close> returns: no request and an error; a request and an error; a request and
  no error. \<open>ReadPanics\<close>: building argument or reply value panicked.
\<close>

datatype read_outcome =
    NoRequest goerror
  | BadRequest header goerror
  | GoodRequest request
  | ReadPanics

definition readRequestHeader :: "'c codec_ops \<Rightarrow> 'c \<Rightarrow> 'c \<times> header result" where
  "readRequestHeader ops c = cc_ReadHeader ops c"

text \<open>\<open>argvi\<close>: the argument itself when it is a pointer, its address otherwise.\<close>

definition argv_pointer :: "methodType \<Rightarrow> go_value \<Rightarrow> go_value" where
  "argv_pointer m v = (if ty_kind (ArgType m) = KPtr then v else VPtr v)"

definition argv_back :: "methodType \<Rightarrow> go_value \<Rightarrow> go_value" where
  "argv_back m v = (if ty_kind (ArgType m) = KPtr then v else (case v of VPtr x \<Rightarrow> x | _ \<Rightarrow> v))"

definition readRequest :: "'w server \<Rightarrow> 'c codec_ops \<Rightarrow> 'c \<Rightarrow> 'c \<times> read_outcome" where
  "readRequest srv ops c =
     (case readRequestHeader ops c of
        (c1, Inl e) \<Rightarrow> (c1, NoRequest e)
      | (c1, Inr h) \<Rightarrow>
          (case findService srv (ServiceMethod h) of
             Inl e \<Rightarrow> (c1, BadRequest h e)
           | Inr (svc, m) \<Rightarrow>
               (case (newArgv m, newReplyv m) of
                  (Some argv, Some replyv) \<Rightarrow>
                    (case cc_ReadBody ops (argv_pointer m argv) c1 of
                       (c2, argvi, err) \<Rightarrow>
                         (c2, GoodRequest \<lparr>rq_h = h, rq_svc = svc, rq_mtype = m,
                                rq_argv = argv_back m argvi, rq_replyv = replyv\<rparr>))
                | _ \<Rightarrow> (c1, ReadPanics))))"

text \<open>
  The loop of \<open>serveCodec\<close> for at most \<open>fuel\<close> rounds: the outcomes of its reads in order, and
  whether it has left the loop (an error without a request, or a panic).
\<close>

fun serve_reads :: "'w server \<Rightarrow> 'c codec_ops \<Rightarrow> nat \<Rightarrow> 'c \<Rightarrow> read_outcome list \<times> bool" where
  "serve_reads srv ops 0 c = ([], False)"
| "serve_reads srv ops (Suc fuel) c =
     (case readRequest srv ops c of
        (c', NoRequest e) \<Rightarrow> ([NoRequest e], True)
      | (c', ReadPanics) \<Rightarrow> ([ReadPanics], True)
      | (c', r) \<Rightarrow> (case serve_reads srv ops fuel c' of (rs, fin) \<Rightarrow> (r # rs, fin)))"

text \<open>
  The protobuf codec as such a pair of operations, for given encoders; \<open>is_msg\<close> says which
  values are protobuf messages.
\<close>

definition pb_ops ::
    "header proto_lib \<Rightarrow> go_value proto_lib \<Rightarrow> (go_value \<Rightarrow> bool) \<Rightarrow> pipe_end codec_ops" where
  "pb_ops hl bl is_msg =
     \<lparr>cc_ReadHeader = \<lambda>p.
        (case ProtobufReadHeader hl zero_header p of
           (p', h, None) \<Rightarrow> (p', Inr h) | (p', h, Some e) \<Rightarrow> (p', Inl e)),
      cc_ReadBody = \<lambda>v p.
        (case ProtobufReadBody bl (if is_msg v then ProtoTarget else OtherTarget) p of
           (p', Inl e) \<Rightarrow> (p', v, Some e)
         | (p', Inr None) \<Rightarrow> (p', v, None)
         | (p', Inr (Some m)) \<Rightarrow> (p', m, None))\<rparr>"

section \<open>Lemmas\<close>

lemma findService_dotted:
  assumes "CHR ''.'' \<notin> set m"
  shows "findService srv (n @ CHR ''.'' # m) =
    (case serviceMap srv n of
       None \<Rightarrow> Inl (''rpc server: can't find service '' @ n)
     | Some svc \<Rightarrow>
         (case svc_method svc m of
            None \<Rightarrow> Inl (''rpc server: can't find method '' @ m)
          | Some mt \<Rightarrow> Inr (svc, mt)))"
  using last_index_split [OF assms, of n] by (simp add: findService_def Let_def nat_add_distrib)

lemma Register_Registered:
  "Register n ms srv = (srv', Registered) \<longleftrightarrow>
     IsExported n \<and> serviceMap srv n = None \<and>
     srv' = srv\<lparr>serviceMap := (serviceMap srv)(n \<mapsto> registerMethods \<lparr>svc_name = n, svc_typ = ms, svc_method = Map.empty\<rparr>)\<rparr>"
  by (auto simp: Register_def newService_def registerMethods_def split: option.splits)

lemma pb_ops_header_eof:
  "\<not> closed p \<Longrightarrow> inbuf p = [] \<Longrightarrow> cc_ReadHeader (pb_ops hl bl is_msg) p = (p, Inr zero_header)"
  by (simp add: pb_ops_def ProtobufReadHeader_def readMessage_def read_full_def)

lemma findService_zero_header:
  "findService srv (ServiceMethod zero_header) = Inl ''rpc server: service/method request ill-formed: ''"
  by (simp add: findService_def zero_header_def Let_def)

section \<open>Properties\<close>

text \<open>
  A registered service answers to its name and to no other: after a successful \<open>Register\<close>
  of a type \<open>n\<close>, \<open>n.m\<close> finds method \<open>m\<close> exactly when the type has a suitable one, every
  request for another service finds what it found before, and a second \<open>Register\<close> under the name
  is refused without a change.
\<close>

theorem register_then_find:
  assumes "Register n ms srv = (srv', Registered)" and "CHR ''.'' \<notin> set m" and "k \<noteq> n"
  shows "findService srv' (n @ CHR ''.'' # m) =
      (case register_loop ms Map.empty m of
         None \<Rightarrow> Inl (''rpc server: can't find method '' @ m)
       | Some mt \<Rightarrow> Inr (registerMethods \<lparr>svc_name = n, svc_typ = ms, svc_method = Map.empty\<rparr>, mt))
    \<and> findService srv' (k @ CHR ''.'' # m) = findService srv (k @ CHR ''.'' # m)
    \<and> Register n ms' srv' = (srv', Duplicate (''rpc: service already defined: '' @ n))"
proof -
  let ?s = "registerMethods \<lparr>svc_name = n, svc_typ = ms, svc_method = Map.empty\<rparr>"
  from assms(1) have srv': "IsExported n" "serviceMap srv' = (serviceMap srv)(n \<mapsto> ?s)"
    by (auto simp: Register_Registered)
  have "svc_name (registerMethods \<lparr>svc_name = n, svc_typ = ts, svc_method = Map.empty\<rparr>) = n" for ts
    by (simp add: registerMethods_def)
  then have "Register n ms' srv' = (srv', Duplicate (''rpc: service already defined: '' @ n))"
    using srv' by (simp add: Register_def newService_def)
  moreover have "svc_method ?s = register_loop ms Map.empty" by (simp add: registerMethods_def)
  ultimately show ?thesis
    using assms(2,3) srv'(2) by (simp add: findService_dotted)
qed

lemma register_then_find_witness:
  "\<exists>mt. findService (fst (Register ''Foo'' foo_methods (NewServer :: unit server))) ''Foo.Sum'' = Inr (foo_service, mt)"
proof -
  have "Register ''Foo'' foo_methods (NewServer :: unit server) =
      (fst (Register ''Foo'' foo_methods NewServer), Registered)"
    by (simp add: Register_def foo_service_new NewServer_def)
  from register_then_find [OF this, of "''Sum''" "''Bar''" "[]"]
  have "findService (fst (Register ''Foo'' foo_methods (NewServer :: unit server))) ''Foo.Sum'' =
      Inr (foo_service, foo_sum)"
    by (simp add: foo_sum_entry foo_service_def)
  then show ?thesis by blast
qed

text \<open>
  C40. A protobuf client that disconnects leaves the server spinning. The end of the stream is no
  error to \<open>ReadHeader\<close>, so the loop of \<open>serveCodec\<close> never ends: however many rounds it is given,
  each reads an empty header again, fails to find its service and answers with an error.
\<close>

theorem protobuf_disconnect_spins:
  assumes "\<not> closed p" and "inbuf p = []"
  shows "serve_reads srv (pb_ops hl bl is_msg) fuel p =
    (replicate fuel (BadRequest zero_header ''rpc server: service/method request ill-formed: ''), False)"
proof -
  have "readRequest srv (pb_ops hl bl is_msg) p =
      (p, BadRequest zero_header ''rpc server: service/method request ill-formed: '')"
    using assms by (simp add: readRequest_def readRequestHeader_def pb_ops_header_eof findService_zero_header)
  then show ?thesis by (induction fuel) simp_all
qed

lemma protobuf_disconnect_spins_witness:
  "serve_reads (NewServer :: unit server) (pb_ops RequestHeader_lib \<lparr>Marshal = \<lambda>v. Inl [], Unmarshal = \<lambda>b. Inl []\<rparr> (\<lambda>v. True))
     3 (NewProtobufCodec []) =
   (replicate 3 (BadRequest zero_header ''rpc server: service/method request ill-formed: ''), False)"
  by (rule protobuf_disconnect_spins) (simp_all add: NewProtobufCodec_def)

text \<open>The connection after \<open>i\<close> reads, and the outcome of read number \<open>i\<close>.\<close>

primrec conn_after :: "'w server \<Rightarrow> 'c codec_ops \<Rightarrow> nat \<Rightarrow> 'c \<Rightarrow> 'c" where
  "conn_after srv ops 0 c = c"
| "conn_after srv ops (Suc i) c = conn_after srv ops i (fst (readRequest srv ops c))"

definition read_at :: "'w server \<Rightarrow> 'c codec_ops \<Rightarrow> 'c \<Rightarrow> nat \<Rightarrow> read_outcome" where
  "read_at srv ops c i = snd (readRequest srv ops (conn_after srv ops i c))"

definition stays :: "read_outcome \<Rightarrow> bool" where
  "stays r = (case r of BadRequest h e \<Rightarrow> True | GoodRequest q \<Rightarrow> True | _ \<Rightarrow> False)"

lemma serve_reads_stay:
  "stays (snd (readRequest srv ops c)) \<Longrightarrow>
   serve_reads srv ops (Suc fuel) c =
     (case serve_reads srv ops fuel (fst (readRequest srv ops c)) of
        (rs, fin) \<Rightarrow> (snd (readRequest srv ops c) # rs, fin))"
  by (cases "readRequest srv ops c"; cases "snd (readRequest srv ops c)") (auto simp: stays_def)

lemma read_at_Suc: "read_at srv ops c (Suc i) = read_at srv ops (fst (readRequest srv ops c)) i"
  by (simp add: read_at_def)

text \<open>
  A codec that reports the end of its input ends the loop: given more rounds than there are
  requests before the first header that cannot be read, the loop yields exactly these requests,
  none dropped and none twice, and is left on that error.
\<close>

theorem serve_loop_ends_on_error:
  assumes "\<forall>i < n. stays (read_at srv ops c i)" and "read_at srv ops c n = NoRequest err" and "n < fuel"
  shows "serve_reads srv ops fuel c = (map (read_at srv ops c) [0..<n] @ [NoRequest err], True)"
  using assms
proof (induction n arbitrary: c fuel)
  case 0
  then obtain f where "fuel = Suc f" by (cases fuel) auto
  with 0 show ?case by (cases "readRequest srv ops c") (simp add: read_at_def)
next
  case (Suc n)
  let ?c1 = "fst (readRequest srv ops c)"
  obtain f where f: "fuel = Suc f" "n < f" using Suc.prems(3) by (cases fuel) auto
  have "stays (read_at srv ops c 0)" using Suc.prems(1) by blast
  then have now: "stays (snd (readRequest srv ops c))" by (simp add: read_at_def)
  have "\<forall>i < n. stays (read_at srv ops ?c1 i)"
    using Suc.prems(1) by (metis Suc_less_eq read_at_Suc)
  moreover have "read_at srv ops ?c1 n = NoRequest err"
    using Suc.prems(2) by (simp add: read_at_Suc)
  ultimately have "serve_reads srv ops f ?c1 = (map (read_at srv ops ?c1) [0..<n] @ [NoRequest err], True)"
    using f(2) by (rule Suc.IH)
  moreover have "map (read_at srv ops c) [0..<Suc n] =
      snd (readRequest srv ops c) # map (read_at srv ops ?c1) [0..<n]"
    by (simp add: upt_conv_Cons map_Suc_upt [symmetric] read_at_Suc comp_def del: upt_Suc)
      (simp add: read_at_def)
  ultimately show ?case using f(1) serve_reads_stay [OF now, of f] by simp
qed

text \<open>A connection that is a list of headers, then the end of the stream.\<close>

definition list_ops :: "header list codec_ops" where
  "list_ops =
     \<lparr>cc_ReadHeader = \<lambda>hs. (case hs of [] \<Rightarrow> ([], Inl EOF) | h # hs' \<Rightarrow> (hs', Inr h)),
      cc_ReadBody = \<lambda>v hs. (hs, v, None)\<rparr>"

lemma serve_loop_ends_on_error_witness:
  "serve_reads (NewServer :: unit server) list_ops 5 [zero_header] =
     ([BadRequest zero_header ''rpc server: service/method request ill-formed: '', NoRequest EOF], True)"
proof -
  have "\<forall>i < 1. stays (read_at (NewServer :: unit server) list_ops [zero_header] i)"
    by (simp add: stays_def read_at_def readRequest_def readRequestHeader_def list_ops_def findService_zero_header)
  moreover have "read_at (NewServer :: unit server) list_ops [zero_header] 1 = NoRequest EOF"
    by (simp add: read_at_def readRequest_def readRequestHeader_def list_ops_def findService_zero_header)
  ultimately have "serve_reads (NewServer :: unit server) list_ops 5 [zero_header] =
      (map (read_at (NewServer :: unit server) list_ops [zero_header]) [0..<1] @ [NoRequest EOF], True)"
    by (rule serve_loop_ends_on_error) simp
  then show ?thesis
    by (simp add: read_at_def readRequest_def readRequestHeader_def list_ops_def findService_zero_header)
qed

text \<open>
  A request the server cannot place leaves its body on the connection: when the service or
  method is not found nothing but the header has been read, so on a protobuf connection the next
  round takes the body's block for a header. A request whose body cannot be decoded, on the
  other hand, is handed on as a good one, with the argument as the failed decoding left it.
\<close>

theorem bad_requests_mishandled:
  assumes "cc_ReadHeader ops c = (c1, Inr h)"
  shows "(findService srv (ServiceMethod h) = Inl e \<longrightarrow> readRequest srv ops c = (c1, BadRequest h e))
    \<and> (findService srv (ServiceMethod h) = Inr (svc, m) \<longrightarrow> newArgv m = Some argv \<longrightarrow>
        newReplyv m = Some replyv \<longrightarrow> cc_ReadBody ops (argv_pointer m argv) c1 = (c2, v, Some derr) \<longrightarrow>
        readRequest srv ops c = (c2, GoodRequest \<lparr>rq_h = h, rq_svc = svc, rq_mtype = m,
          rq_argv = argv_back m v, rq_replyv = replyv\<rparr>))"
  using assms by (simp add: readRequest_def readRequestHeader_def)

lemma bad_requests_mishandled_witness:
  "readRequest (NewServer :: unit server) list_ops [zero_header, zero_header] =
     ([zero_header], BadRequest zero_header ''rpc server: service/method request ill-formed: '')"
  using bad_requests_mishandled [of list_ops "[zero_header, zero_header]" "[zero_header]" zero_header
      "NewServer :: unit server"]
  by (simp add: list_ops_def findService_zero_header)

end
