(* ===== verification/Serving.thy ===== *)
theory Serving
  imports Server
begin

text \<open>
  What happens to the requests of one connection: \<open>serveCodec\<close>, \<open>sendResponse\<close> and
  \<open>handleRequest\<close> of \<open>apps/pkg/geeRPC/server.go\<close> as a step relation, one step per action of a
  goroutine. The goroutines are the reader (the loop of \<open>serveCodec\<close>), and for each good request
  a manager (\<open>handleRequest\<close>) and a worker (the function it starts). They share the mutex
  \<open>sending\<close>, the channels \<open>called\<close> and \<open>sent\<close> (unbuffered: send and receive are one step) and
  the connection, on which a response is written in two parts.
\<close>

section \<open>State\<close>

text \<open>What the reader gets from \<open>readRequest\<close>, request by request, before the error that ends the loop.\<close>

datatype item = Bad header goerror | Good header

datatype response = Response (r_origin: nat) (r_header: header) (r_reply: bool)

datatype chunk = HeaderPart response | BodyPart response

definition frames :: "response list \<Rightarrow> chunk list" where
  "frames rs = concat (map (\<lambda>r. [HeaderPart r, BodyPart r]) rs)"

datatype sender = Reader | Worker nat | Manager nat
datatype stage = WaitLock | HeaderNext | BodyNext
datatype reader_phase = RRead | RSend | RWait | RClosed
datatype worker_phase = WRun | WCalled "goerror option" | WSend | WSignal | WDone
datatype manager_phase = MSelect | MAwaitSent | MSend | MDone

record task =
  wk :: worker_phase
  mg :: manager_phase

record serving =
  items :: "item list"
  pos :: nat
  reader :: reader_phase
  tasks :: "nat \<rightharpoonup> task"
  sends :: "sender \<rightharpoonup> response \<times> stage"
  lock :: "sender option"
  out :: "chunk list"

definition start_serving :: "item list \<Rightarrow> serving" where
  "start_serving its =
     \<lparr>items = its, pos = 0, reader = RRead, tasks = Map.empty, sends = Map.empty, lock = None, out = []\<rparr>"

section \<open>Responses\<close>

definition timeout_text :: "int \<Rightarrow> gostring" where
  "timeout_text d = ''rpc server: request handle timeout: expect within '' @ duration_text d"

definition bad_response :: "nat \<Rightarrow> header \<Rightarrow> goerror \<Rightarrow> response" where
  "bad_response i h e = Response i (h\<lparr>ErrorText := e\<rparr>) False"

definition worker_response :: "nat \<Rightarrow> header \<Rightarrow> goerror option \<Rightarrow> response" where
  "worker_response i h err =
     (case err of Some e \<Rightarrow> Response i (h\<lparr>ErrorText := e\<rparr>) False | None \<Rightarrow> Response i h True)"

definition timeout_response :: "nat \<Rightarrow> header \<Rightarrow> int \<Rightarrow> response" where
  "timeout_response i h tmo = Response i (h\<lparr>ErrorText := timeout_text tmo\<rparr>) False"

section \<open>Steps\<close>

text \<open>What the sender does after \<open>sendResponse\<close> returns.\<close>

definition after_send :: "sender \<Rightarrow> serving \<Rightarrow> serving" where
  "after_send x s =
     (case x of
        Reader \<Rightarrow> s\<lparr>reader := RRead\<rparr>
      | Worker i \<Rightarrow> s\<lparr>tasks := (tasks s)(i := map_option (\<lambda>t. t\<lparr>wk := WSignal\<rparr>) (tasks s i))\<rparr>
      | Manager i \<Rightarrow> s\<lparr>tasks := (tasks s)(i := map_option (\<lambda>t. t\<lparr>mg := MDone\<rparr>) (tasks s i))\<rparr>)"

definition all_handled :: "serving \<Rightarrow> bool" where
  "all_handled s \<longleftrightarrow> (\<forall>i \<in> {..<pos s}. case tasks s i of None \<Rightarrow> True | Some t \<Rightarrow> mg t = MDone)"

inductive serve_step :: "int \<Rightarrow> serving \<Rightarrow> serving \<Rightarrow> bool" for tmo where
  read_bad: "reader s = RRead \<Longrightarrow> pos s < length (items s) \<Longrightarrow> items s ! pos s = Bad h e \<Longrightarrow>
    serve_step tmo s (s\<lparr>pos := Suc (pos s), reader := RSend,
      sends := (sends s)(Reader \<mapsto> (bad_response (pos s) h e, WaitLock))\<rparr>)"
| read_good: "reader s = RRead \<Longrightarrow> pos s < length (items s) \<Longrightarrow> items s ! pos s = Good h \<Longrightarrow>
    serve_step tmo s (s\<lparr>pos := Suc (pos s), tasks := (tasks s)(pos s \<mapsto> \<lparr>wk = WRun, mg = MSelect\<rparr>)\<rparr>)"
| read_end: "reader s = RRead \<Longrightarrow> pos s = length (items s) \<Longrightarrow> serve_step tmo s (s\<lparr>reader := RWait\<rparr>)"
| close: "reader s = RWait \<Longrightarrow> all_handled s \<Longrightarrow> serve_step tmo s (s\<lparr>reader := RClosed\<rparr>)"
| returned: "tasks s i = Some t \<Longrightarrow> wk t = WRun \<Longrightarrow>
    serve_step tmo s (s\<lparr>tasks := (tasks s)(i \<mapsto> t\<lparr>wk := WCalled err\<rparr>)\<rparr>)"
| called: "tasks s i = Some t \<Longrightarrow> wk t = WCalled err \<Longrightarrow> mg t = MSelect \<Longrightarrow> items s ! i = Good h \<Longrightarrow>
    serve_step tmo s (s\<lparr>tasks := (tasks s)(i \<mapsto> \<lparr>wk = WSend, mg = MAwaitSent\<rparr>),
      sends := (sends s)(Worker i \<mapsto> (worker_response i h err, WaitLock))\<rparr>)"
| timed_out: "tmo \<noteq> 0 \<Longrightarrow> tasks s i = Some t \<Longrightarrow> mg t = MSelect \<Longrightarrow> items s ! i = Good h \<Longrightarrow>
    serve_step tmo s (s\<lparr>tasks := (tasks s)(i \<mapsto> t\<lparr>mg := MSend\<rparr>),
      sends := (sends s)(Manager i \<mapsto> (timeout_response i h tmo, WaitLock))\<rparr>)"
| acquire: "sends s x = Some (r, WaitLock) \<Longrightarrow> lock s = None \<Longrightarrow>
    serve_step tmo s (s\<lparr>sends := (sends s)(x \<mapsto> (r, HeaderNext)), lock := Some x\<rparr>)"
| write_header: "sends s x = Some (r, HeaderNext) \<Longrightarrow>
    serve_step tmo s (s\<lparr>sends := (sends s)(x \<mapsto> (r, BodyNext)), out := out s @ [HeaderPart r]\<rparr>)"
| write_body: "sends s x = Some (r, BodyNext) \<Longrightarrow>
    serve_step tmo s (after_send x (s\<lparr>sends := (sends s)(x := None), lock := None, out := out s @ [BodyPart r]\<rparr>))"
| sent: "tasks s i = Some t \<Longrightarrow> mg t = MAwaitSent \<Longrightarrow> wk t = WSignal \<Longrightarrow>
    serve_step tmo s (s\<lparr>tasks := (tasks s)(i \<mapsto> \<lparr>wk = WDone, mg = MDone\<rparr>)\<rparr>)"

inductive serve_reachable :: "int \<Rightarrow> serving \<Rightarrow> serving \<Rightarrow> bool" for tmo where
  reach_refl: "serve_reachable tmo s s"
| reach_step: "serve_reachable tmo s s' \<Longrightarrow> serve_step tmo s' s'' \<Longrightarrow> serve_reachable tmo s s''"

section \<open>Invariant\<close>

text \<open>The responses a request may be answered with.\<close>

definition answers :: "item list \<Rightarrow> response \<Rightarrow> bool" where
  "answers its r \<longleftrightarrow> r_origin r < length its \<and>
     (case its ! r_origin r of
        Bad h e \<Rightarrow> r_header r = h\<lparr>ErrorText := e\<rparr> \<and> \<not> r_reply r
      | Good h \<Rightarrow> (r_reply r \<and> r_header r = h) \<or> (\<not> r_reply r \<and> (\<exists>e. r_header r = h\<lparr>ErrorText := e\<rparr>)))"

text \<open>Request \<open>i\<close> has had its response, as the goroutines' phases tell.\<close>

definition answered :: "serving \<Rightarrow> nat \<Rightarrow> bool" where
  "answered s i \<longleftrightarrow> i < pos s \<and>
     (tasks s i = None \<longrightarrow> \<not> (reader s = RSend \<and> Suc i = pos s)) \<and>
     (\<forall>t. tasks s i = Some t \<longrightarrow> mg t = MDone \<or> wk t = WSignal)"

definition partial_frame :: "serving \<Rightarrow> chunk list" where
  "partial_frame s =
     (case lock s of
        None \<Rightarrow> []
      | Some x \<Rightarrow> (case sends s x of Some (r, BodyNext) \<Rightarrow> [HeaderPart r] | _ \<Rightarrow> []))"

definition task_ok :: "task \<Rightarrow> bool" where
  "task_ok t \<longleftrightarrow>
     (case mg t of
        MSelect \<Rightarrow> (case wk t of WRun \<Rightarrow> True | WCalled _ \<Rightarrow> True | _ \<Rightarrow> False)
      | MAwaitSent \<Rightarrow> wk t = WSend \<or> wk t = WSignal
      | MSend \<Rightarrow> (case wk t of WRun \<Rightarrow> True | WCalled _ \<Rightarrow> True | _ \<Rightarrow> False)
      | MDone \<Rightarrow> (case wk t of WRun \<Rightarrow> True | WCalled _ \<Rightarrow> True | WDone \<Rightarrow> True | _ \<Rightarrow> False))"

text \<open>Who is sending, and for which request.\<close>

fun sender_ok :: "serving \<Rightarrow> sender \<Rightarrow> bool" where
  "sender_ok s Reader \<longleftrightarrow>
     (sends s Reader \<noteq> None \<longleftrightarrow> reader s = RSend) \<and>
     (\<forall>r st. sends s Reader = Some (r, st) \<longrightarrow> pos s = Suc (r_origin r) \<and> tasks s (r_origin r) = None)"
| "sender_ok s (Worker i) \<longleftrightarrow>
     (sends s (Worker i) \<noteq> None \<longleftrightarrow> (\<exists>t. tasks s i = Some t \<and> wk t = WSend)) \<and>
     (\<forall>r st. sends s (Worker i) = Some (r, st) \<longrightarrow> r_origin r = i)"
| "sender_ok s (Manager i) \<longleftrightarrow>
     (sends s (Manager i) \<noteq> None \<longleftrightarrow> (\<exists>t. tasks s i = Some t \<and> mg t = MSend)) \<and>
     (\<forall>r st. sends s (Manager i) = Some (r, st) \<longrightarrow> r_origin r = i)"

definition lock_ok :: "serving \<Rightarrow> bool" where
  "lock_ok s \<longleftrightarrow> (\<forall>x. lock s = Some x \<longleftrightarrow> (\<exists>r st. sends s x = Some (r, st) \<and> st \<noteq> WaitLock))"

definition tasks_ok :: "serving \<Rightarrow> bool" where
  "tasks_ok s \<longleftrightarrow> pos s \<le> length (items s)
     \<and> (\<forall>i t. tasks s i = Some t \<longrightarrow> i < pos s \<and> task_ok t \<and> (\<exists>h. items s ! i = Good h))
     \<and> (\<forall>i < pos s. tasks s i = None \<longrightarrow> (\<exists>h e. items s ! i = Bad h e))"

definition out_ok :: "serving \<Rightarrow> bool" where
  "out_ok s \<longleftrightarrow> (\<exists>rs. out s = frames rs @ partial_frame s \<and> distinct (map r_origin rs)
     \<and> (\<forall>i. i \<in> set (map r_origin rs) \<longleftrightarrow> answered s i) \<and> (\<forall>r \<in> set rs. answers (items s) r))"

definition sends_ok :: "serving \<Rightarrow> bool" where
  "sends_ok s \<longleftrightarrow> (\<forall>x. sender_ok s x) \<and> (\<forall>x r st. sends s x = Some (r, st) \<longrightarrow> answers (items s) r)"

definition reader_ok :: "serving \<Rightarrow> bool" where
  "reader_ok s \<longleftrightarrow> (reader s \<in> {RWait, RClosed} \<longrightarrow> pos s = length (items s))
     \<and> (reader s = RClosed \<longrightarrow> all_handled s)"

definition serving_inv :: "serving \<Rightarrow> bool" where
  "serving_inv s \<longleftrightarrow> tasks_ok s \<and> sends_ok s \<and> lock_ok s \<and> reader_ok s \<and> out_ok s"

declare lock_ok_def [inv_defs] tasks_ok_def [inv_defs] sends_ok_def [inv_defs] reader_ok_def [inv_defs]

section \<open>Preservation\<close>

lemma after_send_sel [simp]:
  "items (after_send x s) = items s" "pos (after_send x s) = pos s"
  "sends (after_send x s) = sends s" "lock (after_send x s) = lock s" "out (after_send x s) = out s"
  by (cases x; simp add: after_send_def)+

lemma serve_step_items: "serve_step tmo s s' \<Longrightarrow> items s' = items s"
  by (induction rule: serve_step.induct) simp_all

lemma tasks_okD:
  "tasks_ok s \<Longrightarrow> tasks s i = Some t \<Longrightarrow> i < pos s \<and> task_ok t \<and> (\<exists>h. items s ! i = Good h)"
  "tasks_ok s \<Longrightarrow> tasks s i = None \<Longrightarrow> i < pos s \<Longrightarrow> \<exists>h e. items s ! i = Bad h e"
  by (auto simp: tasks_ok_def)

lemma tasks_ok_update:
  "tasks_ok s \<Longrightarrow> tasks s i = Some t \<Longrightarrow> task_ok t' \<Longrightarrow> tasks_ok (s\<lparr>tasks := (tasks s)(i \<mapsto> t')\<rparr>)"
  by (auto simp: tasks_ok_def)

lemma tasks_ok_fresh: "tasks_ok s \<Longrightarrow> tasks s (pos s) = None"
  by (cases "tasks s (pos s)") (auto simp: tasks_ok_def)

lemma tasks_ok_len: "tasks_ok s \<Longrightarrow> tasks s i = Some t \<Longrightarrow> i < length (items s)"
  by (meson tasks_ok_def order_less_le_trans)

lemma sends_ok_sender: "sends_ok s \<Longrightarrow> sender_ok s x"
  by (simp add: sends_ok_def)

lemma sender_okD:
  "sends_ok s \<Longrightarrow> sends s (Worker i) = Some (r, st) \<Longrightarrow>
     r_origin r = i \<and> (\<exists>t. tasks s i = Some t \<and> wk t = WSend)"
  "sends_ok s \<Longrightarrow> sends s (Manager i) = Some (r, st) \<Longrightarrow>
     r_origin r = i \<and> (\<exists>t. tasks s i = Some t \<and> mg t = MSend)"
  "sends_ok s \<Longrightarrow> sends s Reader = Some (r, st) \<Longrightarrow>
     reader s = RSend \<and> pos s = Suc (r_origin r) \<and> tasks s (r_origin r) = None"
  using sends_ok_sender [of s "Worker i"] sends_ok_sender [of s "Manager i"] sends_ok_sender [of s Reader]
  by auto

lemma tasks_ok_step:
  assumes "serve_step tmo s s'" and "tasks_ok s" and "sends_ok s"
  shows "tasks_ok s'"
  using assms
proof (cases rule: serve_step.cases)
  case (read_bad h e)
  with assms(2) show ?thesis by (auto simp: tasks_ok_def less_Suc_eq)
next
  case (read_good h)
  with assms(2) show ?thesis by (auto simp: tasks_ok_def less_Suc_eq task_ok_def)
next
  case (returned i t err)
  with tasks_okD(1) [OF assms(2) returned(2)] show ?thesis
    by (auto intro!: tasks_ok_update [OF assms(2)] simp: task_ok_def split: manager_phase.splits)
next
  case (called i t err h)
  then have "tasks_ok (s\<lparr>tasks := (tasks s)(i \<mapsto> \<lparr>wk = WSend, mg = MAwaitSent\<rparr>)\<rparr>)"
    by (intro tasks_ok_update [OF assms(2)]) (auto simp: task_ok_def)
  then show ?thesis by (simp add: called(1) tasks_ok_def)
next
  case (timed_out i t h)
  with tasks_okD(1) [OF assms(2) timed_out(3)]
  have "tasks_ok (s\<lparr>tasks := (tasks s)(i \<mapsto> t\<lparr>mg := MSend\<rparr>)\<rparr>)"
    by (intro tasks_ok_update [OF assms(2)]) (auto simp: task_ok_def)
  then show ?thesis by (simp add: timed_out(1) tasks_ok_def)
next
  case (write_body x r)
  show ?thesis
  proof (cases x)
    case (Worker i)
    with sender_okD(1) [OF assms(3)] write_body(2) obtain t where t: "tasks s i = Some t" "wk t = WSend" by blast
    with tasks_okD(1) [OF assms(2) t(1)] have "tasks_ok (s\<lparr>tasks := (tasks s)(i \<mapsto> t\<lparr>wk := WSignal\<rparr>)\<rparr>)"
      by (intro tasks_ok_update [OF assms(2)]) (auto simp: task_ok_def split: manager_phase.splits)
    with t(1) show ?thesis by (simp add: write_body(1) Worker after_send_def tasks_ok_def)
  next
    case (Manager i)
    with sender_okD(2) [OF assms(3)] write_body(2) obtain t where t: "tasks s i = Some t" "mg t = MSend" by blast
    with tasks_okD(1) [OF assms(2) t(1)] have "tasks_ok (s\<lparr>tasks := (tasks s)(i \<mapsto> t\<lparr>mg := MDone\<rparr>)\<rparr>)"
      by (intro tasks_ok_update [OF assms(2)]) (auto simp: task_ok_def split: worker_phase.splits)
    with t(1) show ?thesis by (simp add: write_body(1) Manager after_send_def tasks_ok_def)
  qed (use assms(2) in \<open>simp add: write_body(1) after_send_def tasks_ok_def\<close>)
next
  case (sent i t)
  then show ?thesis
    by (auto intro!: tasks_ok_update [OF assms(2)] simp: task_ok_def)
qed (use assms(2) in \<open>simp_all add: tasks_ok_def\<close>)

lemma sends_okI:
  assumes "sender_ok s Reader" and "\<And>i. sender_ok s (Worker i)" and "\<And>i. sender_ok s (Manager i)"
    and "\<And>x r st. sends s x = Some (r, st) \<Longrightarrow> answers (items s) r"
  shows "sends_ok s"
proof -
  have "sender_ok s x" for x using assms(1-3) by (cases x) simp_all
  with assms(4) show ?thesis by (auto simp: sends_ok_def)
qed

lemma sends_ok_answers: "sends_ok s \<Longrightarrow> sends s x = Some (r, st) \<Longrightarrow> answers (items s) r"
  by (auto simp: sends_ok_def)

lemmas responses_def = bad_response_def worker_response_def timeout_response_def

lemma new_response_answers:
  "i < length its \<Longrightarrow> its ! i = Bad h e \<Longrightarrow> answers its (bad_response i h e)"
  "i < length its \<Longrightarrow> its ! i = Good h \<Longrightarrow> answers its (worker_response i h err)"
  "i < length its \<Longrightarrow> its ! i = Good h \<Longrightarrow> answers its (timeout_response i h tmo)"
  by (auto simp: answers_def responses_def split: option.splits)

lemma response_origin [simp]:
  "r_origin (bad_response i h e) = i" "r_origin (worker_response i h err) = i"
  "r_origin (timeout_response i h tmo) = i"
  by (simp_all add: responses_def split: option.split)

lemma sends_ok_other [simp]:
  "sends_ok (s\<lparr>lock := l\<rparr>) = sends_ok s" "sends_ok (s\<lparr>out := cs\<rparr>) = sends_ok s"
proof -
  have "sender_ok (s\<lparr>lock := l\<rparr>) x = sender_ok s x" "sender_ok (s\<lparr>out := cs\<rparr>) x = sender_ok s x" for x
    by (cases x; simp)+
  then show "sends_ok (s\<lparr>lock := l\<rparr>) = sends_ok s" "sends_ok (s\<lparr>out := cs\<rparr>) = sends_ok s"
    by (simp_all add: sends_ok_def)
qed

lemma sends_ok_restage:
  assumes "sends_ok s" and "sends s x = Some (r, st)"
  shows "sends_ok (s\<lparr>sends := (sends s)(x \<mapsto> (r, st'))\<rparr>)"
proof -
  have "sender_ok (s\<lparr>sends := (sends s)(x \<mapsto> (r, st'))\<rparr>) y" for y
    using sends_ok_sender [OF assms(1), of y] assms(2) by (cases y) auto
  moreover have "answers (items s) r" by (rule sends_ok_answers [OF assms])
  ultimately show ?thesis using sends_ok_answers [OF assms(1)] by (auto simp: sends_ok_def split: if_splits)
qed

lemma sends_ok_step:
  assumes "serve_step tmo s s'" and tok: "tasks_ok s" and sok: "sends_ok s"
  shows "sends_ok s'"
proof -
  have rd: "sender_ok s Reader" and wrk: "sender_ok s (Worker i)" and man: "sender_ok s (Manager i)" for i
    using sends_ok_sender [OF sok] by blast+
  note ans = sends_ok_answers [OF sok]
  have fresh: "tasks s (pos s) = None" by (rule tasks_ok_fresh [OF tok])
  have len: "tasks s i = Some t \<Longrightarrow> i < length (items s)" for i t
    by (rule tasks_ok_len [OF tok])
  from assms(1) show ?thesis
  proof (cases rule: serve_step.cases)
    case (read_bad h e)
    with fresh rd wrk man ans show ?thesis
      by (intro sends_okI) (auto simp: new_response_answers split: if_splits)
  next
    case (read_good h)
    with fresh rd wrk man ans show ?thesis
      by (intro sends_okI) (fastforce split: if_splits)+
  next
    case (returned i t err)
    with rd wrk man ans show ?thesis
      by (intro sends_okI) (fastforce split: if_splits)+
  next
    case (called i t err h)
    with rd wrk man ans len show ?thesis
      by (intro sends_okI) (fastforce simp: new_response_answers split: if_splits)+
  next
    case (timed_out i t h)
    with rd wrk man ans len show ?thesis
      by (intro sends_okI) (fastforce simp: new_response_answers split: if_splits)+
  next
    case (write_body x r)
    show ?thesis
    proof (cases x)
      case Reader
      with write_body wrk man ans show ?thesis
        by (intro sends_okI) (auto simp: after_send_def split: if_splits)
    next
      case (Worker j)
      with sender_okD(1) [OF sok] write_body(2) obtain t where "tasks s j = Some t" "wk t = WSend" by blast
      with write_body Worker rd wrk man ans show ?thesis
        by (intro sends_okI) (auto simp: after_send_def split: if_splits)
    next
      case (Manager j)
      with sender_okD(2) [OF sok] write_body(2) obtain t where "tasks s j = Some t" "mg t = MSend" by blast
      with write_body Manager rd wrk man ans show ?thesis
        by (intro sends_okI) (auto simp: after_send_def split: if_splits)
    qed
  next
    case (sent i t)
    with rd wrk man ans show ?thesis
      by (intro sends_okI) (fastforce split: if_splits)+
  next
    case (acquire x r)
    with sends_ok_restage [OF sok] show ?thesis by simp
  next
    case (write_header x r)
    with sends_ok_restage [OF sok] show ?thesis by simp
  qed (use rd wrk man ans in \<open>(intro sends_okI; fastforce)\<close>)+
qed

lemma lock_okD:
  "lock_ok s \<Longrightarrow> sends s x = None \<Longrightarrow> lock s \<noteq> Some x"
  "lock_ok s \<Longrightarrow> sends s x = Some (r, WaitLock) \<Longrightarrow> lock s \<noteq> Some x"
  "lock_ok s \<Longrightarrow> sends s x = Some (r, HeaderNext) \<Longrightarrow> lock s = Some x"
  "lock_ok s \<Longrightarrow> sends s x = Some (r, BodyNext) \<Longrightarrow> lock s = Some x"
  by (auto simp: lock_ok_def)

lemma lock_ok_queue:
  "lock_ok s \<Longrightarrow> sends s x = None \<Longrightarrow> sends s' = (sends s)(x \<mapsto> (r, WaitLock)) \<Longrightarrow> lock s' = lock s \<Longrightarrow> lock_ok s'"
  by (auto simp: lock_ok_def)

lemma not_sending:
  assumes "sends_ok s"
  shows "reader s = RRead \<Longrightarrow> sends s Reader = None"
    and "tasks s i = Some t \<Longrightarrow> wk t \<noteq> WSend \<Longrightarrow> sends s (Worker i) = None"
    and "tasks s i = Some t \<Longrightarrow> mg t \<noteq> MSend \<Longrightarrow> sends s (Manager i) = None"
  using sends_ok_sender [OF assms, of Reader] sends_ok_sender [OF assms, of "Worker i"]
    sends_ok_sender [OF assms, of "Manager i"] by (auto simp del: not_None_eq)

lemma lock_ok_step:
  assumes "serve_step tmo s s'" and lok: "lock_ok s" and sok: "sends_ok s"
  shows "lock_ok s'"
  using assms(1)
proof (cases rule: serve_step.cases)
  case (read_bad h e)
  with lock_ok_queue [OF lok not_sending(1) [OF sok]] show ?thesis by simp
next
  case (called i t err h)
  with lock_ok_queue [OF lok not_sending(2) [OF sok]] show ?thesis by simp
next
  case (timed_out i t h)
  with lock_ok_queue [OF lok not_sending(3) [OF sok]] show ?thesis by simp
next
  case (acquire x r)
  with lok show ?thesis by (auto simp: lock_ok_def)
next
  case (write_header x r)
  with lok lock_okD(3) [OF lok write_header(2)] show ?thesis by (auto simp: lock_ok_def)
next
  case (write_body x r)
  with lok lock_okD(4) [OF lok write_body(2)] show ?thesis by (auto simp: lock_ok_def) 
qed (use lok in \<open>simp_all add: lock_ok_def\<close>)

lemma all_handled_cong:
  assumes "all_handled s" and "pos s' = pos s"
    and "\<And>i t'. tasks s' i = Some t' \<Longrightarrow> \<exists>t. tasks s i = Some t \<and> (mg t = MDone \<longrightarrow> mg t' = MDone)"
  shows "all_handled s'"
  using assms by (fastforce simp: all_handled_def split: option.splits)

lemma reader_ok_step:
  assumes "serve_step tmo s s'" and "reader_ok s"
  shows "reader_ok s'"
proof -
  have closed: "all_handled s'" if "reader s = RClosed"
  proof -
    have "all_handled s" using that assms(2) by (simp add: reader_ok_def)
    moreover from assms(1) that have "pos s' = pos s"
      by (cases rule: serve_step.cases) simp_all
    moreover have "\<exists>t. tasks s i = Some t \<and> (mg t = MDone \<longrightarrow> mg t' = MDone)"
      if "tasks s' i = Some t'" for i t'
      using assms(1) \<open>reader s = RClosed\<close> that
      by (cases rule: serve_step.cases) (auto simp: after_send_def split: if_splits sender.splits)
    ultimately show ?thesis by (rule all_handled_cong)
  qed
  from assms(1) show ?thesis
  proof (cases rule: serve_step.cases)
    case close
    with assms(2) show ?thesis by (simp add: reader_ok_def all_handled_def)
  next
    case (write_body x r)
    with assms(2) closed show ?thesis by (cases x) (auto simp: reader_ok_def after_send_def)
  qed (use assms(2) closed in \<open>auto simp: reader_ok_def\<close>)
qed

lemma out_ok_same:
  assumes "out_ok s" and "out s' = out s" and "items s' = items s"
    and "partial_frame s' = partial_frame s" and "\<And>i. answered s' i = answered s i"
  shows "out_ok s'"
  using assms by (simp add: out_ok_def)

lemma frames_append [simp]: "frames (rs @ [r]) = frames rs @ [HeaderPart r, BodyPart r]"
  by (simp add: frames_def)

lemma partial_frame_queue:
  "lock s \<noteq> Some x \<Longrightarrow> lock s' = lock s \<Longrightarrow> sends s' = (sends s)(x \<mapsto> v) \<Longrightarrow> partial_frame s' = partial_frame s"
  by (auto simp: partial_frame_def split: option.split)

lemma partial_frame_cong:
  "lock s' = lock s \<Longrightarrow> sends s' = sends s \<Longrightarrow> partial_frame s' = partial_frame s"
  by (simp add: partial_frame_def cong: option.case_cong)

text \<open>A sender's request is unanswered until its response is complete, and answered then.\<close>

lemma sending_unanswered:
  assumes "tasks_ok s" and "sends_ok s" and "sends s x = Some (r, st)"
  shows "\<not> answered s (r_origin r)"
proof (cases x)
  case Reader
  with sender_okD(3) [OF assms(2)] assms(3) show ?thesis by (auto simp: answered_def)
next
  case (Worker i)
  with sender_okD(1) [OF assms(2)] assms(3) obtain t where t: "r_origin r = i" "tasks s i = Some t" "wk t = WSend"
    by blast
  with tasks_okD(1) [OF assms(1) t(2)] show ?thesis by (auto simp: answered_def task_ok_def)
next
  case (Manager i)
  with sender_okD(2) [OF assms(2)] assms(3) obtain t where t: "r_origin r = i" "tasks s i = Some t" "mg t = MSend"
    by blast
  with tasks_okD(1) [OF assms(1) t(2)] show ?thesis
    by (auto simp: answered_def task_ok_def split: worker_phase.splits)
qed

lemma sending_then_answered:
  assumes "tasks_ok s" and "sends_ok s" and "sends s x = Some (r, st)"
  shows "answered (after_send x (s\<lparr>sends := ss, lock := l, out := cs\<rparr>)) i \<longleftrightarrow> i = r_origin r \<or> answered s i"
proof (cases x)
  case Reader
  with sender_okD(3) [OF assms(2)] assms(3) show ?thesis
    by (auto simp: answered_def after_send_def split: option.splits)
next
  case (Worker j)
  with sender_okD(1) [OF assms(2)] assms(3) obtain t where t: "r_origin r = j" "tasks s j = Some t" "wk t = WSend"
    by blast
  with tasks_okD(1) [OF assms(1) t(2)] Worker show ?thesis
    by (auto simp: answered_def after_send_def task_ok_def)
next
  case (Manager j)
  with sender_okD(2) [OF assms(2)] assms(3) obtain t where t: "r_origin r = j" "tasks s j = Some t" "mg t = MSend"
    by blast
  with tasks_okD(1) [OF assms(1) t(2)] Manager show ?thesis
    by (auto simp: answered_def after_send_def task_ok_def)
qed

lemma out_ok_write_body:
  assumes tok: "tasks_ok s" and sok: "sends_ok s" and lok: "lock_ok s" and ok: "out_ok s"
    and snd: "sends s x = Some (r, BodyNext)"
  shows "out_ok (after_send x (s\<lparr>sends := (sends s)(x := None), lock := None, out := out s @ [BodyPart r]\<rparr>))"
    (is "out_ok ?s'")
proof -
  have kept: "out ?s' = out s @ [BodyPart r]" "items ?s' = items s" "lock ?s' = None" by (cases x; simp add: after_send_def)+
  from ok obtain rs where rs: "out s = frames rs @ partial_frame s" "distinct (map r_origin rs)"
      "\<And>i. i \<in> set (map r_origin rs) \<longleftrightarrow> answered s i" "\<forall>r \<in> set rs. answers (items s) r"
    unfolding out_ok_def by blast
  have "partial_frame s = [HeaderPart r]" "partial_frame ?s' = []"
    using lock_okD(4) [OF lok snd] by (simp_all add: partial_frame_def kept snd)
  with rs(1) have out: "out ?s' = frames (rs @ [r]) @ partial_frame ?s'" by (simp add: kept)
  have "r_origin r \<notin> set (map r_origin rs)"
    using sending_unanswered [OF tok sok snd] by (simp only: rs(3) not_False_eq_True)
  with rs(2) have "distinct (map r_origin (rs @ [r]))" by auto
  moreover have "i \<in> set (map r_origin (rs @ [r])) \<longleftrightarrow> answered ?s' i" for i
    using rs(3) [of i] sending_then_answered [OF tok sok snd] by auto
  moreover have "\<forall>r \<in> set (rs @ [r]). answers (items ?s') r"
    using rs(4) sends_ok_answers [OF sok snd] by (simp add: kept)
  ultimately show ?thesis using out unfolding out_ok_def by blast
qed

lemma out_ok_step:
  assumes "serve_step tmo s s'" and tok: "tasks_ok s" and sok: "sends_ok s" and lok: "lock_ok s"
    and ok: "out_ok s"
  shows "out_ok s'"
  using assms(1)
proof (cases rule: serve_step.cases)
  case (read_bad h e)
  have "partial_frame s' = partial_frame s"
    by (rule partial_frame_queue [OF lock_okD(1) [OF lok not_sending(1) [OF sok read_bad(2)]]])
      (simp_all add: read_bad)
  moreover have "answered s' i = answered s i" for i
    using tasks_ok_fresh [OF tok] read_bad by (auto simp: answered_def less_Suc_eq split: option.split)
  ultimately show ?thesis by (intro out_ok_same [OF ok]) (simp_all add: read_bad)
next
  case (read_good h)
  have "answered s' i = answered s i" for i
    using read_good by (auto simp: answered_def less_Suc_eq split: option.split)
  then show ?thesis by (intro out_ok_same [OF ok] partial_frame_cong) (simp_all add: read_good)
next
  case (returned i t err)
  have "answered s' j = answered s j" for j
    using returned by (auto simp: answered_def)
  then show ?thesis by (intro out_ok_same [OF ok] partial_frame_cong) (simp_all add: returned)
next
  case (called i t err h)
  have "partial_frame s' = partial_frame s"
    using called not_sending(2) [OF sok] lock_okD(1) [OF lok]
    by (intro partial_frame_queue [where x = "Worker i"]) simp_all
  moreover have "answered s' j = answered s j" for j
    using called by (auto simp: answered_def)
  ultimately show ?thesis by (intro out_ok_same [OF ok]) (simp_all add: called)
next
  case (timed_out i t h)
  have "partial_frame s' = partial_frame s"
    using timed_out not_sending(3) [OF sok] lock_okD(1) [OF lok]
    by (intro partial_frame_queue [where x = "Manager i"]) simp_all
  moreover have "answered s' j = answered s j" for j
    using timed_out by (auto simp: answered_def)
  ultimately show ?thesis by (intro out_ok_same [OF ok]) (simp_all add: timed_out)
next
  case (acquire x r)
  then have "partial_frame s' = partial_frame s" by (simp add: partial_frame_def)
  moreover have "answered s' j = answered s j" for j
    using acquire by (simp add: answered_def)
  ultimately show ?thesis by (intro out_ok_same [OF ok]) (simp_all add: acquire)
next
  case (write_header x r)
  with lock_okD(3) [OF lok] have "partial_frame s = []" "partial_frame s' = [HeaderPart r]"
    by (simp_all add: partial_frame_def)
  moreover have "answered s' j = answered s j" for j
    using write_header by (simp add: answered_def)
  ultimately show ?thesis using ok write_header by (simp add: out_ok_def)
next
  case (write_body x r)
  show ?thesis unfolding write_body(1) by (rule out_ok_write_body [OF tok sok lok ok write_body(2)])
next
  case (sent i t)
  have "answered s' j = answered s j" for j
    using sent tasks_okD(1) [OF tok sent(2)] by (auto simp: answered_def)
  then show ?thesis by (intro out_ok_same [OF ok] partial_frame_cong) (simp_all add: sent)
qed (rule out_ok_same [OF ok]; auto simp: partial_frame_def answered_def split: option.split)+

lemma serving_inv_start: "serving_inv (start_serving its)"
proof -
  have "sends_ok (start_serving its)" by (intro sends_okI) (simp_all add: start_serving_def)
  then show ?thesis
    by (auto simp: serving_inv_def start_serving_def tasks_ok_def lock_ok_def reader_ok_def out_ok_def
        partial_frame_def frames_def answered_def)
qed

lemma serving_inv_step: "serve_step tmo s s' \<Longrightarrow> serving_inv s \<Longrightarrow> serving_inv s'"
  by (simp add: serving_inv_def tasks_ok_step sends_ok_step lock_ok_step reader_ok_step out_ok_step)

lemma serving_reachable_inv:
  "serve_reachable tmo s s' \<Longrightarrow> serving_inv s \<Longrightarrow> serving_inv s' \<and> items s' = items s"
  by (induction rule: serve_reachable.induct) (auto simp: serving_inv_step serve_step_items)

lemma start_items [simp]: "items (start_serving its) = its"
  by (simp add: start_serving_def)

lemma all_handledD: "all_handled s \<Longrightarrow> i < pos s \<Longrightarrow> tasks s i = Some t \<Longrightarrow> mg t = MDone"
  by (auto simp: all_handled_def dest: bspec [where x = i])

lemma closed_silent:
  assumes "serving_inv s" and "reader s = RClosed"
  shows "partial_frame s = [] \<and> (\<forall>i < length (items s). answered s i)"
proof -
  have handled: "mg t = MDone" if "tasks s i = Some t" for i t
    using assms tasks_okD(1) [of s i t] that all_handledD [of s i t]
    by (simp add: serving_inv_def reader_ok_def)
  have idle: "sends s x = None" for x
  proof (cases x)
    case Reader
    with assms sends_ok_sender [of s Reader] show ?thesis by (simp add: serving_inv_def del: not_None_eq)
  next
    case (Worker i)
    have False if "tasks s i = Some t" "wk t = WSend" for t
      using that handled [of i t] tasks_okD(1) [of s i t] assms(1) by (simp add: serving_inv_def task_ok_def)
    with Worker assms sends_ok_sender [of s "Worker i"] show ?thesis
      by (auto simp: serving_inv_def simp del: not_None_eq)
  next
    case (Manager i)
    with handled assms sends_ok_sender [of s "Manager i"] show ?thesis
      by (auto simp: serving_inv_def simp del: not_None_eq)
  qed
  then have "partial_frame s = []" by (simp add: partial_frame_def split: option.split)
  moreover have "answered s i" if "i < length (items s)" for i
    using that assms handled by (auto simp: answered_def serving_inv_def reader_ok_def)
  ultimately show ?thesis by blast
qed

section \<open>Progress and termination\<close>

lemma sender_moves:
  assumes "lock_ok s" and "sends s x = Some v"
  shows "\<exists>s'. serve_step tmo s s'"
proof (cases "lock s")
  case None
  with assms(1) have "\<not> (\<exists>r st. sends s x = Some (r, st) \<and> st \<noteq> WaitLock)" by (simp add: lock_ok_def)
  with assms(2) obtain r where "sends s x = Some (r, WaitLock)" by (cases v) auto
  with None show ?thesis by (blast intro: serve_step.acquire)
next
  case (Some y)
  with assms(1) obtain r st where "sends s y = Some (r, st)" "st \<noteq> WaitLock"
    unfolding lock_ok_def by blast
  then show ?thesis
    by (cases st) (blast intro: serve_step.write_header serve_step.write_body)+
qed

lemma serving_progress:
  assumes "serving_inv s" and "reader s \<noteq> RClosed"
  shows "\<exists>s'. serve_step tmo s s'"
proof -
  from assms(1) have tok: "tasks_ok s" and sok: "sends_ok s" and lok: "lock_ok s" and rok: "reader_ok s"
    by (simp_all add: serving_inv_def)
  show ?thesis
  proof (cases "reader s")
    case RRead
    show ?thesis
    proof (cases "pos s < length (items s)")
      case True
      with RRead show ?thesis
        by (cases "items s ! pos s") (blast intro: serve_step.read_bad serve_step.read_good)+
    next
      case False
      with tok have "pos s = length (items s)" by (simp add: tasks_ok_def)
      with RRead show ?thesis by (blast intro: serve_step.read_end)
    qed
  next
    case RSend
    with sends_ok_sender [OF sok, of Reader] obtain v where "sends s Reader = Some v" by auto
    then show ?thesis by (rule sender_moves [OF lok])
  next
    case RWait
    show ?thesis
    proof (cases "all_handled s")
      case True
      with RWait show ?thesis by (blast intro: serve_step.close)
    next
      case False
      then obtain i t where t: "tasks s i = Some t" "mg t \<noteq> MDone"
        by (auto simp: all_handled_def split: option.splits)
      with tasks_okD(1) [OF tok t(1)] obtain h where h: "task_ok t" "items s ! i = Good h" by blast
      consider (run) "wk t = WRun" | (called) err where "wk t = WCalled err" "mg t = MSelect"
        | (worker) "wk t = WSend" | (manager) "mg t = MSend" | (signal) "wk t = WSignal" "mg t = MAwaitSent"
        using h(1) t(2) by (auto simp: task_ok_def split: manager_phase.splits worker_phase.splits)
      then show ?thesis
      proof cases
        case worker
        with t sends_ok_sender [OF sok, of "Worker i"] obtain v where "sends s (Worker i) = Some v" by auto
        then show ?thesis by (rule sender_moves [OF lok])
      next
        case manager
        with t sends_ok_sender [OF sok, of "Manager i"] obtain v where "sends s (Manager i) = Some v" by auto
        then show ?thesis by (rule sender_moves [OF lok])
      qed (use t(1) h(2) in \<open>blast intro: serve_step.returned serve_step.called serve_step.sent\<close>)+
    qed
  qed (use assms(2) in simp)
qed

text \<open>The work left: a bound on the number of steps to come.\<close>

definition send_work :: "(response \<times> stage) option \<Rightarrow> nat" where
  "send_work v =
     (case v of None \<Rightarrow> 0 | Some (r, st) \<Rightarrow> (case st of WaitLock \<Rightarrow> 3 | HeaderNext \<Rightarrow> 2 | BodyNext \<Rightarrow> 1))"

definition task_work :: "task option \<Rightarrow> nat" where
  "task_work v =
     (case v of
        None \<Rightarrow> 0
      | Some t \<Rightarrow> (case mg t of MSelect \<Rightarrow> 6 | MSend \<Rightarrow> 1 | _ \<Rightarrow> 0)
          + (case wk t of WRun \<Rightarrow> 1 | WSend \<Rightarrow> 2 | WSignal \<Rightarrow> 1 | _ \<Rightarrow> 0))"

definition reader_work :: "reader_phase \<Rightarrow> nat" where
  "reader_work p = (case p of RWait \<Rightarrow> 1 | RClosed \<Rightarrow> 0 | _ \<Rightarrow> 2)"

definition request_work :: "serving \<Rightarrow> nat \<Rightarrow> nat" where
  "request_work s i = task_work (tasks s i) + send_work (sends s (Worker i)) + send_work (sends s (Manager i))"

definition work_left :: "serving \<Rightarrow> nat" where
  "work_left s = 10 * (length (items s) - pos s) + reader_work (reader s) + send_work (sends s Reader)
     + (\<Sum>i<pos s. request_work s i)"

lemma sum_one_changed:
  fixes f g :: "nat \<Rightarrow> nat"
  assumes "i < n" and "\<And>j. j \<noteq> i \<Longrightarrow> g j = f j"
  shows "(\<Sum>j<n. g j) + f i = (\<Sum>j<n. f j) + g i"
proof -
  have "(\<Sum>j<n. h j) = h i + (\<Sum>j\<in>{..<n} - {i}. h j)" for h :: "nat \<Rightarrow> nat"
    using assms(1) by (simp add: sum.remove)
  moreover have "(\<Sum>j\<in>{..<n} - {i}. g j) = (\<Sum>j\<in>{..<n} - {i}. f j)"
    using assms(2) by (intro sum.cong) auto
  ultimately show ?thesis by (metis add.assoc add.commute)
qed

lemma work_one_request:
  assumes "i < pos s" and "pos s' = pos s" and "items s' = items s" and "reader s' = reader s"
    and "sends s' Reader = sends s Reader" and "\<And>j. j \<noteq> i \<Longrightarrow> request_work s' j = request_work s j"
    and "request_work s' i < request_work s i"
  shows "work_left s' < work_left s"
  using sum_one_changed [of i "pos s" "request_work s'" "request_work s"] assms
  by (simp add: work_left_def)

lemma work_same_requests:
  assumes "pos s' = pos s" and "items s' = items s" and "\<And>j. request_work s' j = request_work s j"
    and "reader_work (reader s') + send_work (sends s' Reader) < reader_work (reader s) + send_work (sends s Reader)"
  shows "work_left s' < work_left s"
  using assms by (simp add: work_left_def)

lemma work_send:
  assumes "sends_ok s" and "sends s x = Some (r, st)"
    and "items s' = items s" and "pos s' = pos s" and "reader s' = reader s" and "tasks s' = tasks s"
    and "sends s' = (sends s)(x \<mapsto> (r, st'))" and "send_work (Some (r, st')) < send_work (Some (r, st))"
    and tok: "tasks_ok s"
  shows "work_left s' < work_left s"
proof (cases x)
  case Reader
  with assms show ?thesis by (intro work_same_requests) (simp_all add: request_work_def)
next
  case (Worker i)
  with sender_okD(1) [OF assms(1)] assms(2) obtain t where "tasks s i = Some t" by blast
  with tasks_okD(1) [OF tok] have "i < pos s" by blast
  with Worker assms show ?thesis by (intro work_one_request [of i]) (simp_all add: request_work_def)
next
  case (Manager i)
  with sender_okD(2) [OF assms(1)] assms(2) obtain t where "tasks s i = Some t" by blast
  with tasks_okD(1) [OF tok] have "i < pos s" by blast
  with Manager assms show ?thesis by (intro work_one_request [of i]) (simp_all add: request_work_def)
qed

lemma work_decreases:
  assumes "serve_step tmo s s'" and inv: "serving_inv s"
  shows "work_left s' < work_left s"
proof -
  from inv have tok: "tasks_ok s" and sok: "sends_ok s" by (simp_all add: serving_inv_def)
  note works = request_work_def send_work_def task_work_def
  have here: "i < pos s" if "tasks s i = Some t" for i t
    using tasks_okD(1) [OF tok that] by simp
  have fresh: "request_work s (pos s) = 0"
  proof -
    have "tasks s (pos s) = None" by (rule tasks_ok_fresh [OF tok])
    moreover from this sends_ok_sender [OF sok, of "Worker (pos s)"] sends_ok_sender [OF sok, of "Manager (pos s)"]
    have "sends s (Worker (pos s)) = None" "sends s (Manager (pos s)) = None"
      by (auto simp del: not_None_eq)
    ultimately show ?thesis by (simp add: works)
  qed
  from assms(1) show ?thesis
  proof (cases rule: serve_step.cases)
    case (read_bad h e)
    have "(\<Sum>i<pos s. request_work s' i) = (\<Sum>i<pos s. request_work s i)"
      by (rule sum.cong) (simp_all add: read_bad(1) request_work_def)
    moreover have "request_work s' (pos s) = 0" using fresh by (simp add: read_bad(1) request_work_def)
    ultimately show ?thesis
      using read_bad(2,3) by (simp add: work_left_def read_bad(1) reader_work_def send_work_def)
  next
    case (read_good h)
    have "(\<Sum>i<pos s. request_work s' i) = (\<Sum>i<pos s. request_work s i)"
      by (rule sum.cong) (simp_all add: read_good(1) request_work_def)
    moreover have "request_work s' (pos s) = 7" using fresh by (simp add: read_good(1) works)
    ultimately show ?thesis
      using read_good(2,3) by (simp add: work_left_def read_good(1) reader_work_def)
  next
    case (returned i t err)
    show ?thesis
      by (rule work_one_request [OF here [OF returned(2)]])
        (use returned in \<open>simp_all add: works\<close>)
  next
    case (called i t err h)
    show ?thesis
      by (rule work_one_request [OF here [OF called(2)]])
        (use called not_sending(2) [OF sok called(2)] in \<open>simp_all add: works\<close>)
  next
    case (timed_out i t h)
    show ?thesis
      by (rule work_one_request [OF here [OF timed_out(3)]])
        (use timed_out not_sending(3) [OF sok timed_out(3)] in \<open>simp_all add: works\<close>)
  next
    case (acquire x r)
    show ?thesis
      by (rule work_send [OF sok acquire(2), where st' = HeaderNext])
        (simp_all add: acquire(1) send_work_def tok)
  next
    case (write_header x r)
    show ?thesis
      by (rule work_send [OF sok write_header(2), where st' = BodyNext])
        (simp_all add: write_header(1) send_work_def tok)
  next
    case (write_body x r)
    show ?thesis
    proof (cases x)
      case Reader
      with write_body sender_okD(3) [OF sok] show ?thesis
        by (intro work_same_requests) (auto simp: after_send_def works reader_work_def)
    next
      case (Worker i)
      with sender_okD(1) [OF sok] write_body(2) obtain t where "tasks s i = Some t" "wk t = WSend" by blast
      with write_body Worker show ?thesis
        by (intro work_one_request [OF here, of i]) (simp_all add: after_send_def works)
    next
      case (Manager i)
      with sender_okD(2) [OF sok] write_body(2) obtain t where "tasks s i = Some t" "mg t = MSend" by blast
      with write_body Manager show ?thesis
        by (intro work_one_request [OF here, of i]) (simp_all add: after_send_def works)
    qed
  next
    case (sent i t)
    show ?thesis
      by (rule work_one_request [OF here [OF sent(2)]])
        (use sent in \<open>simp_all add: works\<close>)
  qed (rule work_same_requests; simp add: works reader_work_def)+
qed

lemma run_bounded:
  "(serve_step tmo ^^ n) s s' \<Longrightarrow> serving_inv s \<Longrightarrow> serving_inv s' \<and> work_left s' + n \<le> work_left s"
proof (induction n arbitrary: s')
  case (Suc n)
  then obtain s1 where "(serve_step tmo ^^ n) s s1" "serve_step tmo s1 s'" by auto
  with Suc.IH [of s1] Suc.prems(2) work_decreases [of tmo s1 s'] serving_inv_step [of tmo s1 s']
  show ?case by fastforce
qed simp

section \<open>Properties\<close>


text \<open>
  C19. Serving a connection comes to an end. A run on \<open>n\<close> requests has at most \<open>10 * n + 2\<close> steps,
  and it can only stop with the connection closed: no order of lock and channel operations
  deadlocks. (The requests' methods are taken to return; a method that does not is answered by
  the timeout all the same.)
\<close>

theorem serving_terminates:
  assumes "(serve_step tmo ^^ n) (start_serving its) s"
  shows "n \<le> 10 * length its + 2 \<and> ((\<nexists>s'. serve_step tmo s s') \<longrightarrow> reader s = RClosed)"
proof -
  have "work_left (start_serving its) = 10 * length its + 2"
    by (simp add: work_left_def start_serving_def reader_work_def send_work_def)
  with run_bounded [OF assms serving_inv_start] have "n \<le> 10 * length its + 2" "serving_inv s" by simp_all
  with serving_progress [of s tmo] show ?thesis by blast
qed

text \<open>A run to the end: one request, whose method outlives the timeout.\<close>

lemma run_snoc: "(serve_step tmo ^^ n) a b \<Longrightarrow> serve_step tmo b c \<Longrightarrow> m = Suc n \<Longrightarrow> (serve_step tmo ^^ m) a c"
  by auto

lemma timeout_run:
  assumes "tmo \<noteq> 0"
  shows "\<exists>s. (serve_step tmo ^^ 7) (start_serving [Good h]) s \<and> reader s = RClosed
    \<and> out s = frames [timeout_response 0 h tmo] \<and> tasks s 0 = Some \<lparr>wk = WRun, mg = MDone\<rparr>"
proof -
  let ?s0 = "start_serving [Good h]"
  let ?r = "timeout_response 0 h tmo"
  let ?s1 = "?s0\<lparr>pos := 1, tasks := [0 \<mapsto> \<lparr>wk = WRun, mg = MSelect\<rparr>]\<rparr>"
  let ?s2 = "?s1\<lparr>tasks := [0 \<mapsto> \<lparr>wk = WRun, mg = MSend\<rparr>], sends := [Manager 0 \<mapsto> (?r, WaitLock)]\<rparr>"
  let ?s3 = "?s2\<lparr>sends := [Manager 0 \<mapsto> (?r, HeaderNext)], lock := Some (Manager 0)\<rparr>"
  let ?s4 = "?s3\<lparr>sends := [Manager 0 \<mapsto> (?r, BodyNext)], out := [HeaderPart ?r]\<rparr>"
  let ?s5 = "?s4\<lparr>sends := Map.empty, lock := None, out := [HeaderPart ?r, BodyPart ?r],
    tasks := [0 \<mapsto> \<lparr>wk = WRun, mg = MDone\<rparr>]\<rparr>"
  let ?s6 = "?s5\<lparr>reader := RWait\<rparr>"
  let ?s7 = "?s6\<lparr>reader := RClosed\<rparr>"
  have 1: "serve_step tmo ?s0 ?s1"
    using serve_step.read_good [of ?s0 h tmo] by (simp add: start_serving_def)
  have 2: "serve_step tmo ?s1 ?s2"
    using serve_step.timed_out [OF assms, of ?s1 0 "\<lparr>wk = WRun, mg = MSelect\<rparr>" h] by (simp add: start_serving_def)
  have 3: "serve_step tmo ?s2 ?s3"
    using serve_step.acquire [of ?s2 "Manager 0" ?r tmo] by (simp add: start_serving_def)
  have 4: "serve_step tmo ?s3 ?s4"
    using serve_step.write_header [of ?s3 "Manager 0" ?r tmo] by (simp add: start_serving_def)
  have 5: "serve_step tmo ?s4 ?s5"
    using serve_step.write_body [of ?s4 "Manager 0" ?r tmo] by (simp add: start_serving_def after_send_def)
  have 6: "serve_step tmo ?s5 ?s6"
    using serve_step.read_end [of ?s5 tmo] by (simp add: start_serving_def)
  have 7: "serve_step tmo ?s6 ?s7"
    using serve_step.close [of ?s6 tmo] by (simp add: start_serving_def all_handled_def)
  have "(serve_step tmo ^^ 1) ?s0 ?s1" using 1 by (simp del: One_nat_def)
  then have "(serve_step tmo ^^ 2) ?s0 ?s2" by (rule run_snoc [OF _ 2]) simp
  then have "(serve_step tmo ^^ 3) ?s0 ?s3" by (rule run_snoc [OF _ 3]) simp
  then have "(serve_step tmo ^^ 4) ?s0 ?s4" by (rule run_snoc [OF _ 4]) simp
  then have "(serve_step tmo ^^ 5) ?s0 ?s5" by (rule run_snoc [OF _ 5]) simp
  then have "(serve_step tmo ^^ 6) ?s0 ?s6" by (rule run_snoc [OF _ 6]) simp
  then have "(serve_step tmo ^^ 7) ?s0 ?s7" by (rule run_snoc [OF _ 7]) simp
  then show ?thesis by (intro exI [of _ ?s7]) (simp add: frames_def)
qed

lemma run_reachable: "(serve_step tmo ^^ n) s s' \<Longrightarrow> serve_reachable tmo s s'"
  by (induction n arbitrary: s') (auto intro: reach_refl reach_step)


lemma serving_terminates_witness:
  "\<exists>s. (serve_step (10 * second) ^^ 7) (start_serving [Good zero_header]) s \<and> (7::nat) \<le> 10 * length [Good zero_header] + 2"
proof -
  obtain s where s: "(serve_step (10 * second) ^^ 7) (start_serving [Good zero_header]) s"
    using timeout_run [of "10 * second" zero_header] by (auto simp: second_def)
  from conjunct1 [OF serving_terminates [OF this]] s show ?thesis by blast
qed

text \<open>
  A timeout loses its worker for good. Once the manager has chosen the timeout nobody will
  ever receive from \<open>called\<close>: in every later state the worker is still running the method or
  blocked on that channel, even after the connection is closed, and it never sends anything.
\<close>

theorem timeout_leaks_worker:
  assumes "serve_reachable tmo (start_serving its) s" and "tasks s i = Some t" and "mg t \<in> {MSend, MDone}"
    and "wk t \<noteq> WDone" and "serve_reachable tmo s s'"
  shows "\<exists>t'. tasks s' i = Some t' \<and> (wk t' = WRun \<or> (\<exists>err. wk t' = WCalled err)) \<and> sends s' (Worker i) = None"
proof -
  let ?lost = "\<lambda>s. \<exists>t. tasks s i = Some t \<and> mg t \<in> {MSend, MDone} \<and> (wk t = WRun \<or> (\<exists>err. wk t = WCalled err))"
  have inv: "serving_inv s" using serving_reachable_inv [OF assms(1) serving_inv_start] by simp
  with tasks_okD(1) [of s i t] assms(2-4) have "?lost s"
    by (auto simp: serving_inv_def task_ok_def split: worker_phase.splits)
  have step: "?lost a \<Longrightarrow> serving_inv a \<Longrightarrow> serve_step tmo a b \<Longrightarrow> ?lost b" for a b
    by (erule serve_step.cases)
      (auto simp: after_send_def serving_inv_def dest: sender_okD tasks_ok_fresh split: sender.split if_splits)
  have "?lost s' \<and> serving_inv s'"
    using assms(5) inv \<open>?lost s\<close> by (induction rule: serve_reachable.induct) (blast intro: step serving_inv_step)+
  then show ?thesis using not_sending(2) [of s' i] by (fastforce simp: serving_inv_def)
qed

lemma timeout_leaks_worker_witness:
  "\<exists>s t. reader s = RClosed \<and> tasks s 0 = Some t \<and> wk t = WRun
     \<and> (\<forall>s'. serve_reachable (10 * second) s s' \<longrightarrow> sends s' (Worker 0) = None)"
proof -
  obtain s where s: "serve_reachable (10 * second) (start_serving [Good zero_header]) s" "reader s = RClosed"
      "tasks s 0 = Some \<lparr>wk = WRun, mg = MDone\<rparr>"
    using timeout_run [of "10 * second" zero_header] run_reachable [of 7 "10 * second"]
    by (auto simp: second_def)
  from timeout_leaks_worker [OF s(1) s(3)]
  have "\<forall>s'. serve_reachable (10 * second) s s' \<longrightarrow> sends s' (Worker 0) = None" by fastforce
  with s(2,3) show ?thesis by fastforce
qed

end
