(* ===== verification/Rpc_Client.thy ===== *)
theory Rpc_Client
  imports Server
begin

text \<open>
  The client of geeRPC: \<open>apps/pkg/geeRPC/client.go\<close>. First the operations on the table of
  pending calls, then the goroutines that use them as a step relation: the callers (\<open>Go\<close> and
  \<open>send\<close>, under the mutex \<open>sending\<close>), the one receiver (\<open>receive\<close> and \<open>terminateCalls\<close>), and
  users who cancel a context or close the client. Then options and dialling.

  A \<open>*Call\<close> is a number, its fields are in the heap \<open>calls\<close>. \<open>k_Done\<close> counts the values sent
  on the call's \<open>Done\<close> channel, which is taken to have room for them (\<open>Call\<close> makes it with
  capacity 1).
\<close>

section \<open>State\<close>

text \<open>Where the caller's goroutine is in \<open>send\<close>.\<close>

datatype send_phase = SNew | SLocked | SWriting | SFailed goerror | SReturned

record call =
  k_Seq :: u64
  k_ServiceMethod :: gostring
  k_Reply :: "gostring option"
  k_Error :: "goerror option"
  k_Done :: nat
  k_phase :: send_phase
  k_dropped :: bool

text \<open>Where the receiver is: reading a header, about to read the body for a call, about to
  terminate the client, ended.\<close>

datatype recv_phase = RHeader | RBody header "nat option" | RTerminate goerror | REnded

record client =
  c_seq :: u64
  c_pending :: "u64 \<rightharpoonup> nat"
  closing :: bool
  shutdown :: bool
  calls :: "nat \<rightharpoonup> call"
  sending :: "nat option"
  receiver :: recv_phase
  nregistered :: nat

definition new_client :: client where
  "new_client =
     \<lparr>c_seq = 1, c_pending = Map.empty, closing = False, shutdown = False, calls = Map.empty,
      sending = None, receiver = RHeader, nregistered = 0\<rparr>"

definition ErrShutdown :: goerror where "ErrShutdown = ''connection is shut down''"

section \<open>Operations\<close>

definition Close :: "client \<Rightarrow> client \<times> goerror option" where
  "Close c = (if closing c then (c, Some ErrShutdown) else (c\<lparr>closing := True\<rparr>, None))"

definition IsAvailable :: "client \<Rightarrow> bool" where
  "IsAvailable c \<longleftrightarrow> \<not> shutdown c \<and> \<not> closing c"

definition on_call :: "nat \<Rightarrow> (call \<Rightarrow> call) \<Rightarrow> client \<Rightarrow> client" where
  "on_call n f c = c\<lparr>calls := (calls c)(n := map_option f (calls c n))\<rparr>"

definition registerCall :: "nat \<Rightarrow> client \<Rightarrow> client \<times> u64 result" where
  "registerCall n c =
     (if closing c \<or> shutdown c then (c, Inl ErrShutdown)
      else (let q = c_seq c;
                c1 = on_call n (\<lambda>k. k\<lparr>k_Seq := q\<rparr>) c
            in (c1\<lparr>c_pending := (c_pending c1)(q \<mapsto> n), c_seq := q + 1, nregistered := Suc (nregistered c1)\<rparr>, Inr q)))"

definition removeCall :: "u64 \<Rightarrow> client \<Rightarrow> client \<times> nat option" where
  "removeCall q c = (c\<lparr>c_pending := (c_pending c)(q := None)\<rparr>, c_pending c q)"

text \<open>\<open>call.Error = err; call.done()\<close>\<close>

definition finish :: "goerror option \<Rightarrow> call \<Rightarrow> call" where
  "finish err k = k\<lparr>k_Error := (if err = None then k_Error k else err), k_Done := Suc (k_Done k)\<rparr>"

definition is_pending :: "client \<Rightarrow> nat \<Rightarrow> bool" where
  "is_pending c n \<longleftrightarrow> (case calls c n of None \<Rightarrow> False | Some k \<Rightarrow> c_pending c (k_Seq k) = Some n)"

text \<open>
  \<open>terminateCalls\<close>: every call in the table is told, the table itself is not emptied. (The calls
  in the table are those found under their own number, see \<open>client_inv\<close>.)
\<close>

definition terminateCalls :: "goerror \<Rightarrow> client \<Rightarrow> client" where
  "terminateCalls err c =
     c\<lparr>shutdown := True,
       calls := (\<lambda>n. if is_pending c n then map_option (finish (Some err)) (calls c n) else calls c n)\<rparr>"

text \<open>The three cases of \<open>receive\<close> once the body has been read with result \<open>body\<close>.\<close>

definition deliver :: "header \<Rightarrow> nat option \<Rightarrow> gostring result \<Rightarrow> client \<Rightarrow> client" where
  "deliver h found body c =
     (case found of
        None \<Rightarrow> c
      | Some n \<Rightarrow>
          if ErrorText h \<noteq> '''' then on_call n (finish (Some (ErrorText h))) c
          else (case body of
                  Inl e \<Rightarrow> on_call n (finish (Some (''reading body '' @ e))) c
                | Inr v \<Rightarrow> on_call n (\<lambda>k. finish None (k\<lparr>k_Reply := Some v\<rparr>)) c))"

definition next_recv :: "gostring result \<Rightarrow> recv_phase" where
  "next_recv body = (case body of Inl e \<Rightarrow> RTerminate e | Inr v \<Rightarrow> RHeader)"

definition new_call :: "gostring \<Rightarrow> call" where
  "new_call m =
     \<lparr>k_Seq = 0, k_ServiceMethod = m, k_Reply = None, k_Error = None, k_Done = 0, k_phase = SNew, k_dropped = False\<rparr>"

definition request_header :: "call \<Rightarrow> header" where
  "request_header k = \<lparr>ServiceMethod = k_ServiceMethod k, Seq = k_Seq k, ErrorText = ''''\<rparr>"

section \<open>Steps\<close>

definition phase :: "client \<Rightarrow> nat \<Rightarrow> send_phase option" where
  "phase c n = map_option k_phase (calls c n)"

definition set_phase :: "nat \<Rightarrow> send_phase \<Rightarrow> client \<Rightarrow> client" where
  "set_phase n p = on_call n (\<lambda>k. k\<lparr>k_phase := p\<rparr>)"

inductive client_step :: "client \<Rightarrow> client \<Rightarrow> bool" where
  go: "calls c n = None \<Longrightarrow> client_step c (c\<lparr>calls := (calls c)(n \<mapsto> new_call m)\<rparr>)"
| send_lock: "phase c n = Some SNew \<Longrightarrow> sending c = None \<Longrightarrow>
    client_step c (set_phase n SLocked (c\<lparr>sending := Some n\<rparr>))"
| send_refused: "phase c n = Some SLocked \<Longrightarrow> registerCall n c = (c', Inl e) \<Longrightarrow>
    client_step c (set_phase n SReturned (on_call n (finish (Some e)) (c'\<lparr>sending := None\<rparr>)))"
| send_register: "phase c n = Some SLocked \<Longrightarrow> registerCall n c = (c', Inr q) \<Longrightarrow>
    client_step c (set_phase n SWriting c')"
| send_written: "phase c n = Some SWriting \<Longrightarrow>
    client_step c (set_phase n SReturned (c\<lparr>sending := None\<rparr>))"
| send_failed: "phase c n = Some SWriting \<Longrightarrow> client_step c (set_phase n (SFailed e) c)"
| send_cleanup: "calls c n = Some k \<Longrightarrow> k_phase k = SFailed e \<Longrightarrow> removeCall (k_Seq k) c = (c', found) \<Longrightarrow>
    client_step c (set_phase n SReturned
      ((case found of None \<Rightarrow> c' | Some m \<Rightarrow> on_call m (finish (Some e)) c')\<lparr>sending := None\<rparr>))"
| recv_header: "receiver c = RHeader \<Longrightarrow> removeCall (Seq h) c = (c', found) \<Longrightarrow>
    client_step c (c'\<lparr>receiver := RBody h found\<rparr>)"
| recv_error: "receiver c = RHeader \<Longrightarrow> client_step c (c\<lparr>receiver := RTerminate e\<rparr>)"
| recv_body: "receiver c = RBody h found \<Longrightarrow>
    client_step c ((deliver h found body c)\<lparr>receiver := next_recv body\<rparr>)"
| recv_terminate: "receiver c = RTerminate e \<Longrightarrow> sending c = None \<Longrightarrow>
    client_step c ((terminateCalls e c)\<lparr>receiver := REnded\<rparr>)"
| cancel: "calls c n = Some k \<Longrightarrow> k_phase k = SReturned \<Longrightarrow> removeCall (k_Seq k) c = (c', found) \<Longrightarrow>
    client_step c (if found = Some n \<and> receiver c \<noteq> REnded then on_call n (\<lambda>k. k\<lparr>k_dropped := True\<rparr>) c' else c')"
| close: "client_step c (fst (Close c))"

inductive client_reachable :: "client \<Rightarrow> bool" where
  client_init: "client_reachable new_client"
| client_next: "client_reachable c \<Longrightarrow> client_step c c' \<Longrightarrow> client_reachable c'"

section \<open>Invariant\<close>

text \<open>The receiver has taken call \<open>n\<close> out of the table and is reading its body.\<close>

definition held :: "client \<Rightarrow> nat \<Rightarrow> bool" where
  "held c n \<longleftrightarrow> (case receiver c of RBody h (Some m) \<Rightarrow> m = n | _ \<Rightarrow> False)"

definition ended :: "client \<Rightarrow> bool" where
  "ended c \<longleftrightarrow> receiver c = REnded"

text \<open>
  The phases of a call and its one token: a call with a number is either in the table (until the
  receiver ends), or with the receiver, or done once, or given up by its own user.
\<close>

definition phase_ok :: "bool \<Rightarrow> bool \<Rightarrow> call \<Rightarrow> bool" where
  "phase_ok end_r locked k \<longleftrightarrow>
     (case k_phase k of
        SNew \<Rightarrow> k_Seq k = 0 \<and> \<not> locked
      | SLocked \<Rightarrow> k_Seq k = 0 \<and> locked
      | SWriting \<Rightarrow> k_Seq k \<noteq> 0 \<and> locked \<and> \<not> end_r
      | SFailed e \<Rightarrow> k_Seq k \<noteq> 0 \<and> locked \<and> \<not> end_r
      | SReturned \<Rightarrow> \<not> locked)"

definition token_ok :: "bool \<Rightarrow> bool \<Rightarrow> call \<Rightarrow> bool" where
  "token_ok waiting hld k \<longleftrightarrow>
     (if k_Seq k = 0 then \<not> k_dropped k \<and> \<not> hld \<and> k_Done k = of_bool (k_phase k = SReturned)
      else k_Done k + of_bool waiting + of_bool hld + of_bool (k_dropped k) = 1)"

definition call_ok :: "client \<Rightarrow> nat \<Rightarrow> call \<Rightarrow> bool" where
  "call_ok c n k \<longleftrightarrow>
     phase_ok (ended c) (sending c = Some n) k \<and>
     token_ok (c_pending c (k_Seq k) = Some n \<and> \<not> ended c) (held c n) k"

definition seqs_ok :: "client \<Rightarrow> bool" where
  "seqs_ok c \<longleftrightarrow> c_seq c = of_nat (Suc (nregistered c))
     \<and> (\<forall>n k. calls c n = Some k \<longrightarrow> k_Seq k \<noteq> 0 \<longrightarrow> (\<exists>i < nregistered c. k_Seq k = of_nat (Suc i)))
     \<and> (\<forall>n m k k'. calls c n = Some k \<longrightarrow> calls c m = Some k' \<longrightarrow> k_Seq k = k_Seq k' \<longrightarrow> k_Seq k \<noteq> 0 \<longrightarrow> n = m)
     \<and> (\<forall>q n. c_pending c q = Some n \<longrightarrow> q \<noteq> 0 \<and> (\<exists>k. calls c n = Some k \<and> k_Seq k = q))"

definition threads_ok :: "client \<Rightarrow> bool" where
  "threads_ok c \<longleftrightarrow> (ended c \<longrightarrow> shutdown c)
     \<and> (\<forall>n. sending c = Some n \<longrightarrow> (\<exists>k. calls c n = Some k))
     \<and> (\<forall>h n. receiver c = RBody h (Some n) \<longrightarrow> (\<exists>k. calls c n = Some k \<and> k_Seq k = Seq h \<and> Seq h \<noteq> 0))"

definition client_inv :: "client \<Rightarrow> bool" where
  "client_inv c \<longleftrightarrow> seqs_ok c \<and> threads_ok c \<and> (\<forall>n k. calls c n = Some k \<longrightarrow> call_ok c n k)"

lemma on_call_sel [simp]:
  "c_seq (on_call n f c) = c_seq c" "c_pending (on_call n f c) = c_pending c"
  "closing (on_call n f c) = closing c" "shutdown (on_call n f c) = shutdown c"
  "sending (on_call n f c) = sending c" "receiver (on_call n f c) = receiver c"
  "nregistered (on_call n f c) = nregistered c"
  "calls (on_call n f c) = (calls c)(n := map_option f (calls c n))"
  by (simp_all add: on_call_def)

lemma set_phase_sel [simp]:
  "c_seq (set_phase n p c) = c_seq c" "c_pending (set_phase n p c) = c_pending c"
  "closing (set_phase n p c) = closing c" "shutdown (set_phase n p c) = shutdown c"
  "sending (set_phase n p c) = sending c" "receiver (set_phase n p c) = receiver c"
  "nregistered (set_phase n p c) = nregistered c"
  "calls (set_phase n p c) = (calls c)(n := map_option (\<lambda>k. k\<lparr>k_phase := p\<rparr>) (calls c n))"
  by (simp_all add: set_phase_def)

lemma finish_sel [simp]:
  "k_Seq (finish e k) = k_Seq k" "k_phase (finish e k) = k_phase k" "k_dropped (finish e k) = k_dropped k"
  "k_Done (finish e k) = Suc (k_Done k)" "k_ServiceMethod (finish e k) = k_ServiceMethod k"
  by (simp_all add: finish_def)

lemma phase_Some: "phase c n = Some p \<longleftrightarrow> (\<exists>k. calls c n = Some k \<and> k_phase k = p)"
  by (auto simp: phase_def)

lemma ended_sel [simp]:
  "ended (c\<lparr>calls := x\<rparr>) = ended c" "ended (c\<lparr>sending := y\<rparr>) = ended c"
  "ended (c\<lparr>c_pending := p\<rparr>) = ended c" "ended (on_call n f c) = ended c" "ended (set_phase n ph c) = ended c"
  "ended (c\<lparr>receiver := r\<rparr>) \<longleftrightarrow> r = REnded" "ended (c\<lparr>closing := b\<rparr>) = ended c"
  "held (c\<lparr>calls := x\<rparr>) m = held c m" "held (c\<lparr>sending := y\<rparr>) m = held c m"
  "held (c\<lparr>c_pending := p\<rparr>) m = held c m" "held (on_call n f c) m = held c m" "held (set_phase n ph c) m = held c m"
  "held (c\<lparr>closing := b\<rparr>) m = held c m"
  by (simp_all add: ended_def held_def set_phase_def on_call_def)

lemma client_invD:
  assumes "client_inv c"
  shows "seqs_ok c" and "threads_ok c" and "calls c n = Some k \<Longrightarrow> call_ok c n k"
  using assms by (simp_all add: client_inv_def)

lemma seqs_okD:
  assumes "seqs_ok c"
  shows "c_pending c q = Some n \<Longrightarrow> q \<noteq> 0 \<and> (\<exists>k. calls c n = Some k \<and> k_Seq k = q)"
    and "calls c n = Some k \<Longrightarrow> calls c m = Some k' \<Longrightarrow> k_Seq k = k_Seq k' \<Longrightarrow> k_Seq k \<noteq> 0 \<Longrightarrow> n = m"
  using assms unfolding seqs_ok_def by blast+

text \<open>Changes that leave the numbers alone.\<close>

lemma seqs_ok_frame:
  assumes "seqs_ok c" and "c_seq c' = c_seq c" and "nregistered c' = nregistered c"
    and "\<And>q n. c_pending c' q = Some n \<Longrightarrow> c_pending c q = Some n"
    and "\<And>n. map_option k_Seq (calls c' n) = map_option k_Seq (calls c n)"
  shows "seqs_ok c'"
proof -
  have bwd: "\<exists>k. calls c n = Some k \<and> k_Seq k = k_Seq k'" if "calls c' n = Some k'" for n k'
    using assms(5) [of n] that by (cases "calls c n"; cases "calls c' n") auto
  have fwd: "\<exists>k'. calls c' n = Some k' \<and> k_Seq k' = k_Seq k" if "calls c n = Some k" for n k
    using assms(5) [of n] that by (cases "calls c n"; cases "calls c' n") auto
  show ?thesis
    unfolding seqs_ok_def assms(2,3)
  proof (intro conjI allI impI)
    show "c_seq c = of_nat (Suc (nregistered c))" using assms(1) by (simp add: seqs_ok_def)
  next
    fix n k assume "calls c' n = Some k" "k_Seq k \<noteq> 0"
    then show "\<exists>i < nregistered c. k_Seq k = of_nat (Suc i)"
      using bwd assms(1) unfolding seqs_ok_def by metis
  next
    fix n m k k' assume "calls c' n = Some k" "calls c' m = Some k'" "k_Seq k = k_Seq k'" "k_Seq k \<noteq> 0"
    then show "n = m" using bwd seqs_okD(2) [OF assms(1)] by metis
  next
    fix q n assume "c_pending c' q = Some n"
    from seqs_okD(1) [OF assms(1) assms(4) [OF this]] fwd
    show "q \<noteq> 0" "\<exists>k. calls c' n = Some k \<and> k_Seq k = q" by metis+
  qed
qed

lemma client_invI:
  assumes "seqs_ok c" and "threads_ok c" and "\<And>n k. calls c n = Some k \<Longrightarrow> call_ok c n k"
  shows "client_inv c"
  using assms by (simp add: client_inv_def)

lemma fresh_seq:
  assumes "seqs_ok c" and "Suc (nregistered c) < 2 ^ 64"
  shows "c_seq c \<noteq> 0 \<and> (\<forall>n k. calls c n = Some k \<longrightarrow> k_Seq k \<noteq> c_seq c) \<and> c_pending c (c_seq c) = None"
proof -
  let ?q = "of_nat (Suc (nregistered c)) :: u64"
  have inj: "(of_nat (Suc i) :: u64) \<noteq> ?q" if "i < nregistered c" for i
  proof
    assume "(of_nat (Suc i) :: u64) = ?q"
    then have "unat (of_nat (Suc i) :: u64) = unat ?q" by simp
    moreover have "Suc i < 2 ^ 64" using that assms(2) by linarith
    ultimately have "Suc i = Suc (nregistered c)" using assms(2) by (simp only: unat_small)
    with that show False by simp
  qed
  have q: "c_seq c = ?q" using assms(1) by (simp add: seqs_ok_def)
  have nz: "?q \<noteq> 0"
  proof
    assume "?q = 0"
    then have "unat ?q = 0" by simp
    with assms(2) show False by (simp only: unat_small)
  qed
  have new: "k_Seq k \<noteq> c_seq c" if "calls c n = Some k" for n k
  proof (cases "k_Seq k = 0")
    case True
    with nz q show ?thesis by simp
  next
    case False
    with assms(1) that obtain i where "i < nregistered c" "k_Seq k = of_nat (Suc i)"
      unfolding seqs_ok_def by blast
    with inj q show ?thesis by simp
  qed
  then have "c_pending c (c_seq c) = None"
    using seqs_okD(1) [OF assms(1), of "c_seq c"] by (cases "c_pending c (c_seq c)") auto
  with nz q new show ?thesis by simp
qed

lemma locked_call:
  assumes "client_inv c" and "calls c n = Some k" and "k_phase k \<in> {SLocked, SWriting} \<or> (\<exists>e. k_phase k = SFailed e)"
  shows "sending c = Some n"
  using client_invD(3) [OF assms(1,2)] assms(3) by (auto simp: call_ok_def phase_ok_def)

lemma step_go:
  assumes "client_inv c" and "calls c n = None"
  shows "client_inv (c\<lparr>calls := (calls c)(n \<mapsto> new_call m)\<rparr>)"
proof (rule client_invI)
  have "c_pending c q \<noteq> Some n" for q
    using seqs_okD(1) [OF client_invD(1) [OF assms(1)], of q n] assms(2) by auto
  with client_invD(1,2) [OF assms(1)] assms(2)
  show "seqs_ok (c\<lparr>calls := (calls c)(n \<mapsto> new_call m)\<rparr>)"
    "threads_ok (c\<lparr>calls := (calls c)(n \<mapsto> new_call m)\<rparr>)"
    by (auto simp: seqs_ok_def threads_ok_def new_call_def)
next
  have "sending c \<noteq> Some n" "\<not> held c n"
    using client_invD(2) [OF assms(1)] assms(2)
    by (auto simp: threads_ok_def held_def split: recv_phase.splits option.splits)
  then show "call_ok (c\<lparr>calls := (calls c)(n \<mapsto> new_call m)\<rparr>) j k"
    if "calls (c\<lparr>calls := (calls c)(n \<mapsto> new_call m)\<rparr>) j = Some k" for j k
    using that client_invD(3) [OF assms(1), of j k] client_invD(1) [OF assms(1)]
    by (auto simp: call_ok_def phase_ok_def token_ok_def new_call_def dest: seqs_okD(1) split: if_splits)
qed

lemma step_lock:
  assumes inv: "client_inv c" and "calls c n = Some k" and "k_phase k = SNew" and "sending c = None"
  shows "client_inv (set_phase n SLocked (c\<lparr>sending := Some n\<rparr>))"
proof (rule client_invI)
  show "seqs_ok (set_phase n SLocked (c\<lparr>sending := Some n\<rparr>))"
    by (rule seqs_ok_frame [OF client_invD(1) [OF inv]]) (auto simp: option.map_comp comp_def)
  show "threads_ok (set_phase n SLocked (c\<lparr>sending := Some n\<rparr>))"
    using client_invD(2) [OF inv] assms(2) by (auto simp: threads_ok_def)
next
  show "call_ok (set_phase n SLocked (c\<lparr>sending := Some n\<rparr>)) j k'"
    if "calls (set_phase n SLocked (c\<lparr>sending := Some n\<rparr>)) j = Some k'" for j k'
    using that assms(2-4) client_invD(3) [OF inv, of j] client_invD(3) [OF inv assms(2)]
    by (auto simp: call_ok_def phase_ok_def token_ok_def split: if_splits send_phase.splits)
qed

lemma step_refused:
  assumes inv: "client_inv c" and "calls c n = Some k" and "k_phase k = SLocked"
  shows "client_inv (set_phase n SReturned (on_call n (finish (Some e)) (c\<lparr>sending := None\<rparr>)))" (is "client_inv ?c")
proof (rule client_invI)
  note locked = locked_call [OF inv assms(2)]
  show "seqs_ok ?c"
    by (rule seqs_ok_frame [OF client_invD(1) [OF inv]]) (auto simp: option.map_comp comp_def)
  show "threads_ok ?c"
    using client_invD(2) [OF inv] assms(2) by (auto simp: threads_ok_def)
  show "call_ok ?c j k'" if "calls ?c j = Some k'" for j k'
    using that assms(2,3) locked client_invD(3) [OF inv, of j] client_invD(3) [OF inv assms(2)]
    by (auto simp: call_ok_def phase_ok_def token_ok_def split: if_splits send_phase.splits)
qed

lemma step_register:
  assumes inv: "client_inv c" and kn: "calls c n = Some k" and "k_phase k = SLocked"
    and reg: "registerCall n c = (c', Inr q)" and bound: "Suc (nregistered c) < 2 ^ 64"
  shows "client_inv (set_phase n SWriting c')"
proof -
  define d where "d = set_phase n SWriting c'"
  note locked = locked_call [OF inv kn]
  note seqs = client_invD(1) [OF inv]
  from reg have run: "\<not> closing c" "\<not> shutdown c" and q: "q = c_seq c" and c': "c' =
      (on_call n (\<lambda>k. k\<lparr>k_Seq := q\<rparr>) c)\<lparr>c_pending := (c_pending c)(q \<mapsto> n), c_seq := q + 1,
        nregistered := Suc (nregistered c)\<rparr>"
    by (auto simp: registerCall_def Let_def split: if_splits)
  have sel: "c_seq d = q + 1" "nregistered d = Suc (nregistered c)" "c_pending d = (c_pending c)(q \<mapsto> n)"
    "calls d = (calls c)(n \<mapsto> k\<lparr>k_Seq := q, k_phase := SWriting\<rparr>)" "sending d = sending c"
    "receiver d = receiver c" "shutdown d = shutdown c"
    by (simp_all add: d_def c' kn)
  have fresh: "q \<noteq> 0" "\<And>m k. calls c m = Some k \<Longrightarrow> k_Seq k \<noteq> q" "c_pending c q = None"
    using fresh_seq [OF seqs bound] q by auto
  have k0: "k_Seq k = 0" using client_invD(3) [OF inv kn] assms(3) by (simp add: call_ok_def phase_ok_def)
  have h: "held d j = held c j" "ended d = ended c" for j by (simp_all add: held_def ended_def sel)
  have notend: "\<not> ended c" using client_invD(2) [OF inv] run(2) by (simp add: threads_ok_def)
  have "seqs_ok d"
    unfolding seqs_ok_def sel
  proof (intro conjI allI impI)
    show "q + 1 = of_nat (Suc (Suc (nregistered c)))" using seqs q by (simp add: seqs_ok_def)
  next
    fix m k' assume k': "((calls c)(n \<mapsto> k\<lparr>k_Seq := q, k_phase := SWriting\<rparr>)) m = Some k'" "k_Seq k' \<noteq> 0"
    show "\<exists>i < Suc (nregistered c). k_Seq k' = of_nat (Suc i)"
    proof (cases "m = n")
      case True
      with k' q seqs show ?thesis by (auto simp: seqs_ok_def intro!: exI [of _ "nregistered c"])
    next
      case False
      with k' have "calls c m = Some k'" by simp
      with k'(2) seqs obtain i where "i < nregistered c" "k_Seq k' = of_nat (Suc i)"
        unfolding seqs_ok_def by blast
      then show ?thesis using less_SucI by blast
    qed
  next
    fix a b ka kb
    assume "((calls c)(n \<mapsto> k\<lparr>k_Seq := q, k_phase := SWriting\<rparr>)) a = Some ka"
      "((calls c)(n \<mapsto> k\<lparr>k_Seq := q, k_phase := SWriting\<rparr>)) b = Some kb" "k_Seq ka = k_Seq kb" "k_Seq ka \<noteq> 0"
    then show "a = b"
      using fresh(2) [of a ka] fresh(2) [of b kb] seqs_okD(2) [OF seqs, of a ka b kb] by (auto split: if_splits)
  next
    fix p m assume pm: "((c_pending c)(q \<mapsto> n)) p = Some m"
    then show "p \<noteq> 0" using fresh(1) seqs_okD(1) [OF seqs, of p m] by (auto split: if_splits)
    show "\<exists>k'. ((calls c)(n \<mapsto> k\<lparr>k_Seq := q, k_phase := SWriting\<rparr>)) m = Some k' \<and> k_Seq k' = p"
      using pm seqs_okD(1) [OF seqs, of p m] kn k0 by (auto split: if_splits)
  qed
  moreover have "threads_ok d"
    using client_invD(2) [OF inv] kn k0 by (auto simp: threads_ok_def sel ended_def)
  moreover have "call_ok d j k'" if "calls d j = Some k'" for j k'
  proof (cases "j = n")
    case True
    with that sel kn locked assms(3) fresh(1) client_invD(3) [OF inv kn] notend k0 show ?thesis
      by (auto simp: call_ok_def phase_ok_def token_ok_def sel h)
  next
    case False
    with that have "calls c j = Some k'" by (simp add: sel)
    with False client_invD(3) [OF inv this] fresh(2) show ?thesis
      by (auto simp: call_ok_def sel h fresh(3))
  qed
  ultimately show ?thesis unfolding d_def by (rule client_invI)
qed

lemma call_ok_phase:
  assumes "call_ok c n k" and "phase_ok (ended c) (sending c' = Some n) (k\<lparr>k_phase := p\<rparr>)"
    and "k_Seq k \<noteq> 0" and "c_pending c' = c_pending c" and "ended c' = ended c" and "held c' n = held c n"
  shows "call_ok c' n (k\<lparr>k_phase := p\<rparr>)"
  using assms by (simp add: call_ok_def token_ok_def)

lemma step_written:
  assumes inv: "client_inv c" and "calls c n = Some k" and "k_phase k = SWriting"
  shows "client_inv (set_phase n SReturned (c\<lparr>sending := None\<rparr>))" (is "client_inv ?c")
proof (rule client_invI)
  note locked = locked_call [OF inv assms(2)]
  show "seqs_ok ?c"
    by (rule seqs_ok_frame [OF client_invD(1) [OF inv]]) (auto simp: option.map_comp comp_def)
  show "threads_ok ?c"
    using client_invD(2) [OF inv] assms(2) by (auto simp: threads_ok_def)
  show "call_ok ?c j k'" if "calls ?c j = Some k'" for j k'
    using that assms(2,3) locked client_invD(3) [OF inv, of j] client_invD(3) [OF inv assms(2)]
    by (auto simp: call_ok_def phase_ok_def token_ok_def split: if_splits send_phase.splits)
qed

lemma step_failed:
  assumes inv: "client_inv c" and "calls c n = Some k" and "k_phase k = SWriting"
  shows "client_inv (set_phase n (SFailed e) c)" (is "client_inv ?c")
proof (rule client_invI)
  show "seqs_ok ?c"
    by (rule seqs_ok_frame [OF client_invD(1) [OF inv]]) (auto simp: option.map_comp comp_def)
  show "threads_ok ?c"
    using client_invD(2) [OF inv] assms(2) by (auto simp: threads_ok_def)
  show "call_ok ?c j k'" if "calls ?c j = Some k'" for j k'
    using that assms(2,3) client_invD(3) [OF inv, of j] client_invD(3) [OF inv assms(2)]
    by (auto simp: call_ok_def phase_ok_def token_ok_def split: if_splits send_phase.splits)
qed

lemma step_cleanup:
  assumes inv: "client_inv c" and kn: "calls c n = Some k" and ph: "k_phase k = SFailed e"
    and rem: "removeCall (k_Seq k) c = (c', found)"
  shows "client_inv (set_phase n SReturned
    ((case found of None \<Rightarrow> c' | Some m \<Rightarrow> on_call m (finish (Some e)) c')\<lparr>sending := None\<rparr>))"
proof -
  define d where "d = set_phase n SReturned
    ((case found of None \<Rightarrow> c' | Some m \<Rightarrow> on_call m (finish (Some e)) c')\<lparr>sending := None\<rparr>)"
  note seqs = client_invD(1) [OF inv]
  have lock: "sending c = Some n" using locked_call [OF inv kn] ph by blast
  from client_invD(3) [OF inv kn] ph have nz: "k_Seq k \<noteq> 0" and notend: "\<not> ended c"
    by (auto simp: call_ok_def phase_ok_def)
  from rem have c': "c' = c\<lparr>c_pending := (c_pending c)(k_Seq k := None)\<rparr>" and found: "found = c_pending c (k_Seq k)"
    by (simp_all add: removeCall_def)
  have mine: "m = n" if "found = Some m" for m
    using seqs_okD [OF seqs] that found kn nz by metis
  have sel: "c_pending d = (c_pending c)(k_Seq k := None)" "sending d = None" "receiver d = receiver c"
    "c_seq d = c_seq c" "nregistered d = nregistered c" "shutdown d = shutdown c"
    "calls d = (calls c)(n \<mapsto> (if found = None then k else finish (Some e) k)\<lparr>k_phase := SReturned\<rparr>)"
  proof -
    have "found = Some n \<or> found = None" using mine by (cases found) auto
    then show "c_pending d = (c_pending c)(k_Seq k := None)" "sending d = None" "receiver d = receiver c"
      "c_seq d = c_seq c" "nregistered d = nregistered c" "shutdown d = shutdown c"
      "calls d = (calls c)(n \<mapsto> (if found = None then k else finish (Some e) k)\<lparr>k_phase := SReturned\<rparr>)"
      by (elim disjE; simp add: d_def c' kn)+
  qed
  have h: "held d j = held c j" "ended d = ended c" for j by (simp_all add: held_def ended_def sel)
  have "client_inv d"
  proof (rule client_invI)
    show "seqs_ok d"
      by (rule seqs_ok_frame [OF seqs]) (auto simp: sel kn split: if_splits)
    show "threads_ok d"
      using client_invD(2) [OF inv] kn by (auto simp: threads_ok_def sel h)
    show "call_ok d j k'" if "calls d j = Some k'" for j k'
    proof (cases "j = n")
      case True
      have "found = Some n \<or> found = None" using mine by (cases found) auto
      with True that client_invD(3) [OF inv kn] nz notend found show ?thesis
        by (auto simp: call_ok_def phase_ok_def token_ok_def sel h split: if_splits)
    next
      case False
      with that have "calls c j = Some k'" by (simp add: sel)
      moreover from this False have "k_Seq k' \<noteq> k_Seq k" using seqs_okD(2) [OF seqs kn, of j k'] nz by auto
      ultimately show ?thesis
        using client_invD(3) [OF inv, of j k'] False lock by (auto simp: call_ok_def sel h)
    qed
  qed
  then show ?thesis by (simp only: d_def)
qed

text \<open>Taking a number out of the table, with the token given to the receiver or dropped.\<close>

lemma pending_own:
  assumes "seqs_ok c" and "calls c n = Some k" and "k_Seq k \<noteq> 0" and "c_pending c (k_Seq k) = Some m"
  shows "m = n"
  using seqs_okD(1) [OF assms(1,4)] seqs_okD(2) [OF assms(1,2)] assms(3) by metis

lemma step_recv_header:
  assumes inv: "client_inv c" and rc: "receiver c = RHeader" and rem: "removeCall (Seq h) c = (c', found)"
  shows "client_inv (c'\<lparr>receiver := RBody h found\<rparr>)"
proof -
  define d where "d = c'\<lparr>receiver := RBody h found\<rparr>"
  note seqs = client_invD(1) [OF inv]
  from rem have found: "found = c_pending c (Seq h)" by (simp add: removeCall_def)
  from rem have sel: "c_pending d = (c_pending c)(Seq h := None)" "sending d = sending c" "receiver d = RBody h found"
    "c_seq d = c_seq c" "nregistered d = nregistered c" "shutdown d = shutdown c" "calls d = calls c"
    by (auto simp: d_def removeCall_def)
  have h: "held d j \<longleftrightarrow> found = Some j" "\<not> held c j" "\<not> ended d" "\<not> ended c" for j
    using rc by (auto simp: held_def ended_def sel split: option.split)
  have "client_inv d"
  proof (rule client_invI)
    show "seqs_ok d" by (rule seqs_ok_frame [OF seqs]) (auto simp: sel split: if_splits)
    show "threads_ok d"
      using client_invD(2) [OF inv] seqs_okD(1) [OF seqs, of "Seq h"] found
      by (auto simp: threads_ok_def sel h)
    show "call_ok d j k" if "calls d j = Some k" for j k
    proof -
      from that have j: "calls c j = Some k" by (simp add: sel)
      have "found = Some j \<longleftrightarrow> Seq h = k_Seq k \<and> c_pending c (k_Seq k) = Some j"
        using seqs_okD(1) [OF seqs, of "Seq h" j] j found by auto
      note took = this
      have ok: "phase_ok False (sending c = Some j) k" "token_ok (c_pending c (k_Seq k) = Some j) False k"
        using client_invD(3) [OF inv j] by (simp_all add: call_ok_def h)
      show ?thesis
      proof (cases "found = Some j")
        case True
        with took have "c_pending c (k_Seq k) = Some j" "Seq h = k_Seq k" by simp_all
        moreover from this seqs_okD(1) [OF seqs, of "k_Seq k" j] have "k_Seq k \<noteq> 0" by simp
        ultimately show ?thesis using ok True by (simp add: call_ok_def token_ok_def sel h)
      next
        case False
        with took have "(c_pending d (k_Seq k) = Some j) = (c_pending c (k_Seq k) = Some j)" by (auto simp: sel)
        with False ok show ?thesis by (simp add: call_ok_def sel(2) h)
      qed
    qed
  qed
  then show ?thesis by (simp only: d_def)
qed

lemma step_recv_error:
  assumes inv: "client_inv c" and "receiver c = RHeader"
  shows "client_inv (c\<lparr>receiver := RTerminate e\<rparr>)"
proof (rule client_invI)
  show "seqs_ok (c\<lparr>receiver := RTerminate e\<rparr>)"
    by (rule seqs_ok_frame [OF client_invD(1) [OF inv]]) auto
  show "threads_ok (c\<lparr>receiver := RTerminate e\<rparr>)"
    using client_invD(2) [OF inv] by (auto simp: threads_ok_def)
  show "call_ok (c\<lparr>receiver := RTerminate e\<rparr>) j k" if "calls (c\<lparr>receiver := RTerminate e\<rparr>) j = Some k" for j k
    using that client_invD(3) [OF inv, of j k] assms(2) by (simp add: call_ok_def held_def ended_def)
qed

lemma phase_ok_cong:
  "k_Seq k' = k_Seq k \<Longrightarrow> k_phase k' = k_phase k \<Longrightarrow> phase_ok e l k' = phase_ok e l k"
  by (simp add: phase_ok_def cong: send_phase.case_cong)

definition completed :: "header \<Rightarrow> gostring result \<Rightarrow> call \<Rightarrow> call" where
  "completed h body k =
     (if ErrorText h \<noteq> '''' then finish (Some (ErrorText h)) k
      else (case body of Inl e \<Rightarrow> finish (Some (''reading body '' @ e)) k
            | Inr v \<Rightarrow> finish None (k\<lparr>k_Reply := Some v\<rparr>)))"

lemma deliver_completed:
  "deliver h found body c = (case found of None \<Rightarrow> c | Some n \<Rightarrow> on_call n (completed h body) c)"
  by (simp add: deliver_def completed_def [abs_def] split: option.split sum.split)

lemma completed_sel [simp]:
  "k_Seq (completed h body k) = k_Seq k" "k_phase (completed h body k) = k_phase k"
  "k_dropped (completed h body k) = k_dropped k" "k_Done (completed h body k) = Suc (k_Done k)"
  by (simp_all add: completed_def split: sum.split)

lemma step_recv_body:
  assumes inv: "client_inv c" and rc: "receiver c = RBody h found"
  shows "client_inv ((deliver h found body c)\<lparr>receiver := next_recv body\<rparr>)"
proof -
  define d where "d = (deliver h found body c)\<lparr>receiver := next_recv body\<rparr>"
  note seqs = client_invD(1) [OF inv]
  have sel: "c_pending d = c_pending c" "sending d = sending c" "receiver d = next_recv body"
    "c_seq d = c_seq c" "nregistered d = nregistered c" "shutdown d = shutdown c"
    "calls d = (case found of None \<Rightarrow> calls c | Some n \<Rightarrow> (calls c)(n := map_option (completed h body) (calls c n)))"
    by (auto simp: d_def deliver_completed split: option.split)
  have h: "held c j \<longleftrightarrow> found = Some j" "\<not> held d j" "\<not> ended d" "\<not> ended c" for j
    using rc by (auto simp: held_def ended_def sel next_recv_def split: option.split sum.split)
  have "client_inv d"
  proof (rule client_invI)
    show "seqs_ok d"
      by (rule seqs_ok_frame [OF seqs]) (auto simp: sel option.map_comp comp_def split: option.split)
    show "threads_ok d"
      using client_invD(2) [OF inv]
      by (auto simp: threads_ok_def sel h next_recv_def split: option.split sum.split)
    show "call_ok d j k" if "calls d j = Some k" for j k
    proof (cases "found = Some j")
      case True
      with that obtain k0 where "calls c j = Some k0" "k = completed h body k0" by (auto simp: sel)
      with True client_invD(3) [OF inv, of j k0] phase_ok_cong [of k k0] show ?thesis
        by (auto simp: call_ok_def token_ok_def sel h split: if_splits)
    next
      case False
      with that have "calls c j = Some k" by (auto simp: sel split: option.splits if_splits)
      with False client_invD(3) [OF inv this] show ?thesis by (simp add: call_ok_def sel h)
    qed
  qed
  then show ?thesis by (simp only: d_def)
qed

lemma step_terminate:
  assumes inv: "client_inv c" and rc: "receiver c = RTerminate e" and free: "sending c = None"
  shows "client_inv ((terminateCalls e c)\<lparr>receiver := REnded\<rparr>)"
proof -
  define d where "d = (terminateCalls e c)\<lparr>receiver := REnded\<rparr>"
  note seqs = client_invD(1) [OF inv]
  have sel: "c_pending d = c_pending c" "sending d = None" "receiver d = REnded"
    "c_seq d = c_seq c" "nregistered d = nregistered c" "shutdown d"
    "calls d n = (if is_pending c n then map_option (finish (Some e)) (calls c n) else calls c n)" for n
    by (auto simp: d_def terminateCalls_def free)
  have h: "\<not> held c j" "\<not> held d j" "ended d" "\<not> ended c" for j
    using rc by (auto simp: held_def ended_def sel)
  have "client_inv d"
  proof (rule client_invI)
    show "seqs_ok d"
      by (rule seqs_ok_frame [OF seqs]) (auto simp: sel option.map_comp comp_def)
    show "threads_ok d" by (simp add: threads_ok_def sel)
    show "call_ok d j k" if k: "calls d j = Some k" for j k
    proof -
      from k obtain k0 where k0: "calls c j = Some k0" "k = (if is_pending c j then finish (Some e) k0 else k0)"
        by (auto simp: sel split: if_splits)
      moreover from k0(1) have "is_pending c j \<longleftrightarrow> c_pending c (k_Seq k0) = Some j" by (simp add: is_pending_def)
      moreover from k0(1) have "c_pending c (k_Seq k0) = Some j \<longrightarrow> k_Seq k0 \<noteq> 0"
        using seqs_okD(1) [OF seqs, of "k_Seq k0" j] by auto
      ultimately show ?thesis
        using client_invD(3) [OF inv k0(1)] free
        by (cases "k_phase k0") (auto simp: call_ok_def phase_ok_def token_ok_def sel h split: if_splits)
    qed
  qed
  then show ?thesis by (simp only: d_def)
qed

lemma step_cancel:
  assumes inv: "client_inv c" and kn: "calls c n = Some k" and ph: "k_phase k = SReturned"
    and rem: "removeCall (k_Seq k) c = (c', found)"
  shows "client_inv (if found = Some n \<and> receiver c \<noteq> REnded then on_call n (\<lambda>k. k\<lparr>k_dropped := True\<rparr>) c' else c')"
proof -
  define d where "d = (if found = Some n \<and> receiver c \<noteq> REnded then on_call n (\<lambda>k. k\<lparr>k_dropped := True\<rparr>) c' else c')"
  note seqs = client_invD(1) [OF inv]
  from rem have found: "found = c_pending c (k_Seq k)" by (simp add: removeCall_def)
  from rem have sel: "c_pending d = (c_pending c)(k_Seq k := None)" "sending d = sending c" "receiver d = receiver c"
    "c_seq d = c_seq c" "nregistered d = nregistered c" "shutdown d = shutdown c"
    "calls d = (if found = Some n \<and> \<not> ended c then (calls c)(n \<mapsto> k\<lparr>k_dropped := True\<rparr>) else calls c)"
    by (auto simp: d_def removeCall_def ended_def kn)
  have h: "held d j = held c j" "ended d = ended c" for j by (simp_all add: held_def ended_def sel)
  have nz: "found = Some m \<Longrightarrow> k_Seq k \<noteq> 0" for m using seqs_okD(1) [OF seqs, of "k_Seq k" m] found by simp
  have "client_inv d"
  proof (rule client_invI)
    show "seqs_ok d"
      by (rule seqs_ok_frame [OF seqs]) (auto simp: sel kn split: if_splits)
    show "threads_ok d" using client_invD(2) [OF inv] kn by (auto simp: threads_ok_def sel h)
    show "call_ok d j k'" if "calls d j = Some k'" for j k'
    proof (cases "j = n")
      case True
      have "found = Some n \<or> found = None" using pending_own [OF seqs kn] nz found by (cases found) auto
      with True that client_invD(3) [OF inv kn] kn nz found ph show ?thesis
        by (auto simp: call_ok_def phase_ok_def token_ok_def sel h split: if_splits)
    next
      case False
      with that have j: "calls c j = Some k'" by (auto simp: sel split: if_splits)
      have "\<not> (k_Seq k' = k_Seq k \<and> c_pending c (k_Seq k') = Some j)"
        using False seqs_okD [OF seqs] kn j by metis
      with client_invD(3) [OF inv j] show ?thesis by (auto simp: call_ok_def sel h)
    qed
  qed
  then show ?thesis by (simp only: d_def)
qed

lemma step_close: "client_inv c \<Longrightarrow> client_inv (fst (Close c))"
proof (cases "closing c")
  case False
  assume inv: "client_inv c"
  let ?d = "c\<lparr>closing := True\<rparr>"
  have "client_inv ?d"
  proof (rule client_invI)
    show "seqs_ok ?d" by (rule seqs_ok_frame [OF client_invD(1) [OF inv]]) auto
    show "threads_ok ?d" using client_invD(2) [OF inv] by (simp add: threads_ok_def)
    show "call_ok ?d j k" if "calls ?d j = Some k" for j k
      using that client_invD(3) [OF inv, of j k] by (simp add: call_ok_def)
  qed
  with False show ?thesis by (simp add: Close_def)
qed (simp add: Close_def)

lemma nregistered_step: "client_step c c' \<Longrightarrow> nregistered c \<le> nregistered c'"
  by (erule client_step.cases)
    (auto simp: registerCall_def removeCall_def terminateCalls_def Close_def deliver_completed Let_def
      split: if_splits option.splits)

lemma client_inv_step:
  assumes "client_step c c'" and inv: "client_inv c" and "nregistered c' < 2 ^ 64"
  shows "client_inv c'"
  using assms(1)
proof (cases rule: client_step.cases)
  case (send_register n c1 q)
  then obtain k where k: "calls c n = Some k" "k_phase k = SLocked" by (auto simp: phase_Some)
  from send_register(3) have "nregistered c1 = Suc (nregistered c)" by (auto simp: registerCall_def Let_def split: if_splits)
  with assms(3) send_register(1) have "Suc (nregistered c) < 2 ^ 64" by simp
  from step_register [OF inv k send_register(3) this] send_register(1) show ?thesis by simp
next
  case (send_refused n c1 e)
  then have "c1 = c" by (auto simp: registerCall_def Let_def split: if_splits)
  with send_refused inv show ?thesis by (auto simp: phase_Some intro: step_refused)
next
  case (cancel n k c1 found)
  from step_cancel [OF inv cancel(2-4)] cancel(1) show ?thesis by simp
qed (use inv in \<open>auto simp: phase_Some intro: step_go step_lock step_written step_failed step_cleanup
      step_recv_header step_recv_error step_recv_body step_terminate step_cancel step_close\<close>)

lemma client_inv_init: "client_inv new_client"
  by (simp add: client_inv_def new_client_def seqs_ok_def threads_ok_def ended_def)

lemma client_reachable_inv: "client_reachable c \<Longrightarrow> nregistered c < 2 ^ 64 \<Longrightarrow> client_inv c"
proof (induction rule: client_reachable.induct)
  case (client_next c c')
  then have "nregistered c < 2 ^ 64" using nregistered_step [of c c'] by linarith
  with client_next show ?case using client_inv_step by blast
qed (rule client_inv_init)

section \<open>Properties of the call table\<close>

text \<open>
  C17. A caller hears of its call at most once. In every interleaving of callers, receiver,
  cancellations and \<open>Close\<close>, and as long as fewer than \<open>2 ^ 64\<close> calls have been registered, at
  most one value is ever sent on a call's \<open>Done\<close> channel, and none for a call its user has
  given up while it was in the table. So a channel of capacity one never blocks the client.
\<close>

theorem client_done_at_most_once:
  assumes "client_reachable c" and "nregistered c < 2 ^ 64" and "calls c n = Some k"
  shows "k_Done k \<le> 1 \<and> (k_dropped k \<longrightarrow> k_Done k = 0)"
  using client_invD(3) [OF client_reachable_inv [OF assms(1,2)] assms(3)]
  by (auto simp: call_ok_def token_ok_def split: if_splits)

text \<open>
  C18. Nobody is left waiting when the connection dies. Once the receiver has ended, every call
  whose \<open>send\<close> has returned has been completed, with the reply, the server's error, the error of
  the write, of the connection or \<open>ErrShutdown\<close>, unless its own user gave it up; and a call
  that comes later is refused and completed with \<open>ErrShutdown\<close>.
\<close>

theorem client_nobody_left_waiting:
  assumes "client_reachable c" and "nregistered c < 2 ^ 64" and "receiver c = REnded" and "calls c n = Some k"
  shows "(k_phase k = SReturned \<longrightarrow> k_Done k = 1 \<or> k_dropped k) \<and> registerCall m c = (c, Inl ErrShutdown)"
proof
  note inv = client_reachable_inv [OF assms(1,2)]
  have "ended c" "\<not> held c n" using assms(3) by (simp_all add: ended_def held_def)
  with client_invD(3) [OF inv assms(4)] show "k_phase k = SReturned \<longrightarrow> k_Done k = 1 \<or> k_dropped k"
    by (auto simp: call_ok_def token_ok_def split: if_splits)
  from client_invD(2) [OF inv] \<open>ended c\<close> show "registerCall m c = (c, Inl ErrShutdown)"
    by (simp add: threads_ok_def registerCall_def)
qed

text \<open>
  A response reaches the call it belongs to. When the receiver has read a header and found a
  call, that call carries the header's number, no other call does, and it has not been
  completed; what it gets is the server's error if the header has one (whatever became of the
  body), else the decoded body or the error of decoding it.
\<close>

theorem client_response_routed:
  assumes "client_reachable c" and "nregistered c < 2 ^ 64" and "receiver c = RBody h (Some n)"
  shows "\<exists>k. calls c n = Some k \<and> k_Seq k = Seq h \<and> k_Done k = 0
    \<and> (\<forall>m k'. calls c m = Some k' \<and> k_Seq k' = Seq h \<longrightarrow> m = n)
    \<and> (\<exists>k'. calls (deliver h (Some n) body c) n = Some k' \<and> k_Done k' = 1
        \<and> (if ErrorText h \<noteq> '''' then k_Error k' = Some (ErrorText h) \<and> k_Reply k' = k_Reply k
           else (case body of Inl e \<Rightarrow> k_Error k' = Some (''reading body '' @ e)
                 | Inr v \<Rightarrow> k_Reply k' = Some v \<and> k_Error k' = k_Error k)))"
proof -
  note inv = client_reachable_inv [OF assms(1,2)]
  from client_invD(2) [OF inv] assms(3) obtain k where k: "calls c n = Some k" "k_Seq k = Seq h" "Seq h \<noteq> 0"
    by (auto simp: threads_ok_def)
  have "held c n" using assms(3) by (simp add: held_def)
  with client_invD(3) [OF inv k(1)] k(2,3) have "k_Done k = 0" by (simp add: call_ok_def token_ok_def)
  moreover from this k have "\<exists>k'. calls (deliver h (Some n) body c) n = Some k' \<and> k_Done k' = 1
        \<and> (if ErrorText h \<noteq> '''' then k_Error k' = Some (ErrorText h) \<and> k_Reply k' = k_Reply k
           else (case body of Inl e \<Rightarrow> k_Error k' = Some (''reading body '' @ e)
                 | Inr v \<Rightarrow> k_Reply k' = Some v \<and> k_Error k' = k_Error k))"
    by (simp add: deliver_completed completed_def finish_def split: sum.split)
  moreover have "m = n" if "calls c m = Some k'" "k_Seq k' = Seq h" for m k'
    using seqs_okD(2) [OF client_invD(1) [OF inv] that(1) k(1)] that(2) k(2,3) by simp
  ultimately show ?thesis using k by blast
qed

text \<open>Two runs with one call: answered, and cut off.\<close>

lemma one_call_sent:
  "\<exists>c k. client_reachable c \<and> nregistered c = 1 \<and> receiver c = RHeader \<and> sending c = None
     \<and> calls c = [0 \<mapsto> k] \<and> k_Seq k = 1 \<and> k_phase k = SReturned \<and> c_pending c = [1 \<mapsto> 0]"
proof -
  let ?k = "new_call ''Foo.Sum''"
  let ?c1 = "new_client\<lparr>calls := [0 \<mapsto> ?k]\<rparr>"
  let ?c2 = "?c1\<lparr>sending := Some 0, calls := [0 \<mapsto> ?k\<lparr>k_phase := SLocked\<rparr>]\<rparr>"
  let ?c3 = "?c2\<lparr>c_pending := [1 \<mapsto> 0], c_seq := 2, nregistered := 1,
    calls := [0 \<mapsto> ?k\<lparr>k_Seq := 1, k_phase := SWriting\<rparr>]\<rparr>"
  let ?c4 = "?c3\<lparr>sending := None, calls := [0 \<mapsto> ?k\<lparr>k_Seq := 1, k_phase := SReturned\<rparr>]\<rparr>"
  have "client_reachable ?c1"
    by (rule client_next [OF client_init]) (use client_step.go [of new_client 0 "''Foo.Sum''"] in \<open>simp add: new_client_def\<close>)
  moreover have "client_step ?c1 ?c2"
    using client_step.send_lock [of ?c1 0]
    by (simp add: phase_def new_call_def new_client_def set_phase_def on_call_def)
  moreover have "client_step ?c2 ?c3"
    using client_step.send_register [of ?c2 0 "fst (registerCall 0 ?c2)" 1]
    by (simp add: phase_def new_call_def new_client_def set_phase_def on_call_def registerCall_def Let_def)
  moreover have "client_step ?c3 ?c4"
    using client_step.send_written [of ?c3 0]
    by (simp add: phase_def new_call_def new_client_def set_phase_def on_call_def)
  ultimately have "client_reachable ?c4" by (blast intro: client_next)
  then show ?thesis
    by (intro exI [of _ ?c4] exI [of _ "?k\<lparr>k_Seq := 1, k_phase := SReturned\<rparr>"])
      (simp add: new_client_def new_call_def)
qed

definition sum_reply :: header where
  "sum_reply = \<lparr>ServiceMethod = ''Foo.Sum'', Seq = 1, ErrorText = ''''\<rparr>"

lemma one_call_read:
  "\<exists>c. client_reachable c \<and> nregistered c = 1 \<and> receiver c = RBody sum_reply (Some 0)"
proof -
  obtain c k where c: "client_reachable c" "nregistered c = 1" "receiver c = RHeader" "c_pending c = [1 \<mapsto> 0]"
    using one_call_sent by blast
  from client_step.recv_header [OF c(3), of sum_reply "fst (removeCall 1 c)" "Some 0"] c
  have "client_step c ((fst (removeCall 1 c))\<lparr>receiver := RBody sum_reply (Some 0)\<rparr>)"
    by (simp add: removeCall_def sum_reply_def)
  from client_next [OF c(1) this] c(2) show ?thesis by (auto simp: removeCall_def)
qed

lemma one_call_ended:
  "\<exists>c k. client_reachable c \<and> nregistered c = 1 \<and> receiver c = REnded \<and> calls c 0 = Some k \<and> k_phase k = SReturned"
proof -
  obtain c k where c: "client_reachable c" "nregistered c = 1" "receiver c = RHeader" "sending c = None"
    "calls c = [0 \<mapsto> k]" "k_phase k = SReturned" using one_call_sent by blast
  from client_next [OF c(1) client_step.recv_error [OF c(3), of EOF]]
  have "client_reachable (c\<lparr>receiver := RTerminate EOF\<rparr>)" .
  from client_next [OF this client_step.recv_terminate [of _ EOF]] c(4)
  have "client_reachable ((terminateCalls EOF (c\<lparr>receiver := RTerminate EOF\<rparr>))\<lparr>receiver := REnded\<rparr>)" by simp
  with c show ?thesis by (force simp: terminateCalls_def)
qed

lemma client_done_at_most_once_witness:
  "\<exists>c k. client_reachable c \<and> calls c 0 = Some k \<and> k_phase k = SReturned \<and> k_Done k \<le> 1"
proof -
  obtain c k where c: "client_reachable c" "nregistered c = 1" "calls c 0 = Some k" "k_phase k = SReturned"
    using one_call_ended by blast
  have "nregistered c < 2 ^ 64" using c(2) by simp
  from client_done_at_most_once [OF c(1) this c(3)] c show ?thesis by blast
qed

lemma client_nobody_left_waiting_witness:
  "\<exists>c k. client_reachable c \<and> receiver c = REnded \<and> calls c 0 = Some k \<and> (k_Done k = 1 \<or> k_dropped k)
     \<and> registerCall 1 c = (c, Inl ErrShutdown)"
proof -
  obtain c k where c: "client_reachable c" "nregistered c = 1" "receiver c = REnded" "calls c 0 = Some k"
    "k_phase k = SReturned" using one_call_ended by blast
  have "nregistered c < 2 ^ 64" using c(2) by simp
  from client_nobody_left_waiting [OF c(1) this c(3,4)] c show ?thesis by blast
qed

lemma client_response_routed_witness:
  "\<exists>c k. client_reachable c \<and> calls c 0 = Some k \<and> k_Seq k = 1
     \<and> (\<exists>k'. calls (deliver sum_reply (Some 0) (Inr ''3'') c) 0 = Some k' \<and> k_Done k' = 1 \<and> k_Reply k' = Some ''3'')"
proof -
  obtain c where c: "client_reachable c" "nregistered c = 1" "receiver c = RBody sum_reply (Some 0)"
    using one_call_read by blast
  have "nregistered c < 2 ^ 64" using c(2) by simp
  from client_response_routed [OF c(1) this c(3), of "Inr ''3''"] c(1) show ?thesis
    by (auto simp: sum_reply_def)
qed

section \<open>Options and dialling\<close>

text \<open>\<open>parseOptions\<close>: a missing or \<open>nil\<close> first option stands for the default.\<close>

definition parseOptions :: "rpc_option option list \<Rightarrow> rpc_option result" where
  "parseOptions opts =
     (case opts of
        [] \<Rightarrow> Inr DefaultOption
      | None # _ \<Rightarrow> Inr DefaultOption
      | Some opt # others \<Rightarrow>
          if others \<noteq> [] then Inl ''number of options is more than 1''
          else Inr (opt\<lparr>opt_MagicNumber := opt_MagicNumber DefaultOption,
                        opt_CodecType := (if opt_CodecType opt = '''' then opt_CodecType DefaultOption
                                          else opt_CodecType opt)\<rparr>))"

text \<open>
  \<open>NewClient\<close>: look up the codec, send the option (\<open>sent\<close> is the encoder's error), start.
  The client it returns is \<open>new_client\<close> on that codec.
\<close>

definition NewClient :: "goerror option \<Rightarrow> rpc_option \<Rightarrow> (codec_type \<times> client) result" where
  "NewClient sent opt =
     (case NewCodecFuncMap (opt_CodecType opt) of
        None \<Rightarrow> Inl (''invalid codec type '' @ opt_CodecType opt)
      | Some t \<Rightarrow> (case sent of Some e \<Rightarrow> Inl e | None \<Rightarrow> Inr (t, new_client)))"

text \<open>\<open>NewHTTPClient\<close>: the \<open>CONNECT\<close> line, then the status the server answers with.\<close>

definition NewHTTPClient ::
    "goerror option \<Rightarrow> gostring result \<Rightarrow> goerror option \<Rightarrow> rpc_option \<Rightarrow> (codec_type \<times> client) result" where
  "NewHTTPClient wrote status sent opt =
     (case wrote of
        Some e \<Rightarrow> Inl e
      | None \<Rightarrow>
          (case status of
             Inl e \<Rightarrow> Inl e
           | Inr st \<Rightarrow>
               if st = connected then NewClient sent opt
               else Inl (''unexpected HTTP response: '' @ st)))"

text \<open>
  \<open>dialTimeout\<close>. \<open>refused\<close> is the error of \<open>net.DialTimeout\<close>, \<open>f\<close> the constructor, and
  \<open>timer_first\<close> says whether the timer of the \<open>select\<close> is ready before the constructor's
  result. The second component tells what became of the connection.
\<close>

datatype conn_fate = NotOpened | KeptOpen | ConnClosed

definition dialTimeout ::
    "(rpc_option \<Rightarrow> 'cl result) \<Rightarrow> goerror option \<Rightarrow> bool \<Rightarrow> rpc_option option list \<Rightarrow> 'cl result \<times> conn_fate" where
  "dialTimeout f refused timer_first opts =
     (case parseOptions opts of
        Inl e \<Rightarrow> (Inl e, NotOpened)
      | Inr opt \<Rightarrow>
          (case refused of
             Some e \<Rightarrow> (Inl e, NotOpened)
           | None \<Rightarrow>
               (let res = (if ConnectTimeout opt \<noteq> 0 \<and> timer_first
                           then Inl (''rpc client: connect timeout: expect within '' @ duration_text (ConnectTimeout opt))
                           else f opt)
                in (res, case res of Inl e \<Rightarrow> ConnClosed | Inr cl \<Rightarrow> KeptOpen))))"

text \<open>\<open>XDial\<close>: which dialler an address \<open>protocol@addr\<close> selects.\<close>

datatype dialler = DialHTTP gostring gostring | Dial gostring gostring

definition bad_address :: "gostring \<Rightarrow> goerror" where
  "bad_address a = ''rpc client err: wrong format '' @ [CHR 0x27] @ a @ [CHR 0x27] @ '', expect protocol@addr''"

definition XDial_route :: "gostring \<Rightarrow> dialler result" where
  "XDial_route rpcAddr =
     (case split_on CHR ''@'' rpcAddr of
        [protocol, addr] \<Rightarrow> Inr (if protocol = ''http'' then DialHTTP ''tcp'' addr else Dial protocol addr)
      | _ \<Rightarrow> Inl (bad_address rpcAddr))"

text \<open>
  \<open>XDial\<close> with what the network answers to each dialler: the network's error, the time-out
  race and the constructor's inputs.
\<close>

record dial_env =
  de_refused :: "goerror option"
  de_timer_first :: bool
  de_wrote :: "goerror option"
  de_status :: "gostring result"
  de_sent :: "goerror option"

definition XDial :: "(dialler \<Rightarrow> dial_env) \<Rightarrow> gostring \<Rightarrow> rpc_option option list \<Rightarrow> (codec_type \<times> client) result" where
  "XDial net rpcAddr opts =
     (case XDial_route rpcAddr of
        Inl e \<Rightarrow> Inl e
      | Inr d \<Rightarrow>
          (let env = net d;
               f = (case d of DialHTTP n a \<Rightarrow> NewHTTPClient (de_wrote env) (de_status env) (de_sent env)
                    | Dial n a \<Rightarrow> NewClient (de_sent env))
           in fst (dialTimeout f (de_refused env) (de_timer_first env) opts)))"

lemma dialTimeout_fate:
  "snd (dialTimeout f refused timer_first opts) = KeptOpen \<longleftrightarrow>
     (\<exists>cl. fst (dialTimeout f refused timer_first opts) = Inr cl)"
  by (auto simp: dialTimeout_def Let_def split: sum.splits option.splits)

text \<open>
  Dialling by address: an address with exactly one \<open>@\<close> selects its protocol (\<open>http\<close> goes
  through the \<open>CONNECT\<close> handshake over tcp), any other is refused; and a connection that was
  opened stays open exactly when a client is returned, whichever of constructor and timer
  comes first.
\<close>

theorem dial_route_and_cleanup:
  assumes "CHR ''@'' \<notin> set protocol"
  shows "XDial_route (protocol @ CHR ''@'' # addr) =
      (if CHR ''@'' \<in> set addr
       then Inl (bad_address (protocol @ CHR ''@'' # addr))
       else Inr (if protocol = ''http'' then DialHTTP ''tcp'' addr else Dial protocol addr))
    \<and> (snd (dialTimeout f refused timer_first opts) = KeptOpen \<longleftrightarrow>
        (\<exists>cl. fst (dialTimeout f refused timer_first opts) = Inr cl))"
proof -
  have "XDial_route (protocol @ CHR ''@'' # addr) =
      (if CHR ''@'' \<in> set addr
       then Inl (bad_address (protocol @ CHR ''@'' # addr))
       else Inr (if protocol = ''http'' then DialHTTP ''tcp'' addr else Dial protocol addr))"
  proof (cases "CHR ''@'' \<in> set addr")
    case True
    then obtain u v where "addr = u @ CHR ''@'' # v" "CHR ''@'' \<notin> set u" by (metis split_list_first)
    then have "split_on CHR ''@'' addr = u # split_on CHR ''@'' v" by (simp add: split_on_append)
    with True show ?thesis
      by (cases "split_on CHR ''@'' v") (simp_all add: XDial_route_def split_on_append [OF assms])
  next
    case False
    then show ?thesis by (simp add: XDial_route_def split_on_append [OF assms] split_on_free)
  qed
  then show ?thesis using dialTimeout_fate by blast
qed

lemma dial_route_and_cleanup_witness:
  "XDial_route ''http@127.0.0.1:8001'' = Inr (DialHTTP ''tcp'' ''127.0.0.1:8001'')"
  using conjunct1 [OF dial_route_and_cleanup [of "''http''" "''127.0.0.1:8001''"]] by simp

end
