(* ===== verification/XClient.thy ===== *)
theory XClient
  imports Discovery Rpc_Client "HOL-Library.AList" "HOL-Library.Multiset"
begin

text \<open>
  The load-balancing client: \<open>apps/pkg/geeRPC/xclient/xclient.go\<close>. It asks a \<open>Discovery\<close> for an
  address, keeps one client per address, dials anew when the kept one is unusable, and can
  broadcast a call to all servers.

  A \<open>*Client\<close> is a number; \<open>xc_heap\<close> holds every client ever dialled. What a call on a client
  returns and the answers of the network are arguments.
\<close>

section \<open>State\<close>

record xclient =
  xc_mode :: SelectMode
  xc_opt :: "rpc_option option"
  xc_clients :: "(gostring \<times> nat) list"
  xc_heap :: "client list"

definition NewXClient :: "SelectMode \<Rightarrow> rpc_option option \<Rightarrow> xclient" where
  "NewXClient mode opt = \<lparr>xc_mode = mode, xc_opt = opt, xc_clients = [], xc_heap = []\<rparr>"

definition close_at :: "nat \<Rightarrow> client list \<Rightarrow> client list" where
  "close_at i hp = hp[i := fst (Close (hp ! i))]"

text \<open>\<open>Close\<close>: the loop over the map, deleting as it goes.\<close>

fun close_loop :: "(gostring \<times> nat) list \<Rightarrow> xclient \<Rightarrow> xclient" where
  "close_loop [] xc = xc"
| "close_loop ((key, i) # rest_cl) xc =
     close_loop rest_cl (xc\<lparr>xc_heap := close_at i (xc_heap xc), xc_clients := AList.delete key (xc_clients xc)\<rparr>)"

definition XClose :: "xclient \<Rightarrow> xclient" where
  "XClose xc = close_loop (xc_clients xc) xc"

text \<open>\<open>dial\<close>, with \<open>net\<close> what the network answers each dialler.\<close>

definition dial_new :: "(dialler \<Rightarrow> dial_env) \<Rightarrow> gostring \<Rightarrow> xclient \<Rightarrow> xclient \<times> nat result" where
  "dial_new net rpcAddr xc =
     (case XDial net rpcAddr [xc_opt xc] of
        Inl e \<Rightarrow> (xc, Inl e)
      | Inr (t, cl) \<Rightarrow>
          (xc\<lparr>xc_heap := xc_heap xc @ [cl],
              xc_clients := AList.update rpcAddr (length (xc_heap xc)) (xc_clients xc)\<rparr>,
           Inr (length (xc_heap xc))))"

definition xc_dial :: "(dialler \<Rightarrow> dial_env) \<Rightarrow> gostring \<Rightarrow> xclient \<Rightarrow> xclient \<times> nat result" where
  "xc_dial net rpcAddr xc =
     (case map_of (xc_clients xc) rpcAddr of
        None \<Rightarrow> dial_new net rpcAddr xc
      | Some i \<Rightarrow>
          if IsAvailable (xc_heap xc ! i) then (xc, Inr i)
          else dial_new net rpcAddr
                 (xc\<lparr>xc_heap := close_at i (xc_heap xc), xc_clients := AList.delete rpcAddr (xc_clients xc)\<rparr>))"

text \<open>\<open>call\<close>: \<open>rpc i\<close> is the error \<open>client.Call\<close> returns on client \<open>i\<close>, with the reply.\<close>

definition xc_call ::
    "(dialler \<Rightarrow> dial_env) \<Rightarrow> (nat \<Rightarrow> 'v result) \<Rightarrow> gostring \<Rightarrow> xclient \<Rightarrow> xclient \<times> 'v result" where
  "xc_call net rpc rpcAddr xc =
     (case xc_dial net rpcAddr xc of
        (xc', Inl e) \<Rightarrow> (xc', Inl e)
      | (xc', Inr i) \<Rightarrow> (xc', rpc i))"

text \<open>
  \<open>Call\<close>: the routing key of the context (empty when there is none) and the mode go to the
  discovery's \<open>Get\<close>. The first component of the outcome is the address called, if any.
\<close>

definition route ::
    "(SelectMode \<Rightarrow> gostring \<Rightarrow> 'd \<Rightarrow> 'd \<times> gostring result) \<Rightarrow> SelectMode \<Rightarrow> gostring option \<Rightarrow> 'd \<Rightarrow> 'd \<times> gostring result" where
  "route get mode key d = get mode (case key of None \<Rightarrow> '''' | Some k \<Rightarrow> k) d"

definition XCall ::
    "(SelectMode \<Rightarrow> gostring \<Rightarrow> 'd \<Rightarrow> 'd \<times> gostring result) \<Rightarrow> (dialler \<Rightarrow> dial_env) \<Rightarrow> (nat \<Rightarrow> 'v result) \<Rightarrow>
     gostring option \<Rightarrow> 'd \<times> xclient \<Rightarrow> ('d \<times> xclient) \<times> gostring option \<times> 'v result" where
  "XCall get net rpc key s =
     (case s of (d, xc) \<Rightarrow>
        case route get (xc_mode xc) key d of
          (d', Inl e) \<Rightarrow> ((d', xc), None, Inl e)
        | (d', Inr a) \<Rightarrow> (case xc_call net rpc a xc of (xc', r) \<Rightarrow> ((d', xc'), Some a, r)))"

section \<open>Broadcast\<close>

text \<open>
  The goroutines of a broadcast finish in some order, each with the result of its call (on a
  clone of the reply). \<open>b_want\<close> says whether the caller passed a reply.
\<close>

record 'v bcast =
  b_err :: "goerror option"
  b_replyDone :: bool
  b_reply :: "'v option"
  b_cancelled :: bool

definition bcast_start :: "bool \<Rightarrow> 'v bcast" where
  "bcast_start want = \<lparr>b_err = None, b_replyDone = (\<not> want), b_reply = None, b_cancelled = False\<rparr>"

definition bcast_finish :: "'v result \<Rightarrow> 'v bcast \<Rightarrow> 'v bcast" where
  "bcast_finish r b =
     (case r of
        Inl err \<Rightarrow> if b_err b = None then b\<lparr>b_err := Some err, b_cancelled := True\<rparr> else b
      | Inr v \<Rightarrow> if \<not> b_replyDone b then b\<lparr>b_reply := Some v, b_replyDone := True\<rparr> else b)"

text \<open>\<open>finished\<close> lists the servers in the order their calls finished, with the results.\<close>

definition Broadcast ::
    "('d \<Rightarrow> 'd \<times> gostring list result) \<Rightarrow> bool \<Rightarrow> (gostring \<times> 'v result) list \<Rightarrow> 'd \<Rightarrow> 'd \<times> goerror option \<times> 'v option" where
  "Broadcast get_all want finished d =
     (case get_all d of
        (d', Inl e) \<Rightarrow> (d', Some e, None)
      | (d', Inr ss) \<Rightarrow>
          (let b = fold bcast_finish (map snd finished) (bcast_start want)
           in (d', b_err b, b_reply b)))"

section \<open>Lemmas\<close>

definition table_ok :: "xclient \<Rightarrow> bool" where
  "table_ok xc \<longleftrightarrow> distinct (map fst (xc_clients xc)) \<and> distinct (map snd (xc_clients xc))
     \<and> (\<forall>i \<in> snd ` set (xc_clients xc). i < length (xc_heap xc))
     \<and> (\<forall>i < length (xc_heap xc). closing (xc_heap xc ! i) \<longleftrightarrow> i \<notin> snd ` set (xc_clients xc))"

declare table_ok_def [inv_defs]

lemma closing_Close [simp]: "closing (fst (Close c))"
  by (simp add: Close_def)

lemma length_close_at [simp]: "length (close_at i hp) = length hp"
  by (simp add: close_at_def)

lemma closing_close_at:
  "j < length hp \<Longrightarrow> closing (close_at i hp ! j) \<longleftrightarrow> j = i \<or> closing (hp ! j)"
  by (cases "j = i") (simp_all add: close_at_def)

lemma delete_image:
  assumes "distinct (map fst al)" and "distinct (map snd al)" and "map_of al a = Some i"
  shows "snd ` set (AList.delete a al) = snd ` set al - {i}"
    and "distinct (map fst (AList.delete a al))" and "distinct (map snd (AList.delete a al))"
proof -
  have del: "AList.delete a al = filter (\<lambda>(k, v). a \<noteq> k) al" by (simp add: AList.delete_eq)
  from assms(3) have "(a, i) \<in> set al" by (rule map_of_SomeD)
  moreover have "k = a" if "(k, i) \<in> set al" for k
    using assms(2) that \<open>(a, i) \<in> set al\<close> by (metis (mono_tags, lifting) distinct_map inj_on_def old.prod.inject snd_conv)
  moreover have "v = i" if "(a, v) \<in> set al" for v
    using assms(1,3) that by simp
  ultimately have keys: "k \<noteq> a \<longleftrightarrow> v \<noteq> i" if "(k, v) \<in> set al" for k v
    using that by blast
  show "snd ` set (AList.delete a al) = snd ` set al - {i}"
  proof (intro equalityI subsetI)
    fix v assume "v \<in> snd ` set (AList.delete a al)"
    then obtain k where "(k, v) \<in> set al" "k \<noteq> a" by (auto simp: del)
    then show "v \<in> snd ` set al - {i}" using keys by force
  next
    fix v assume "v \<in> snd ` set al - {i}"
    then obtain k where "(k, v) \<in> set al" "v \<noteq> i" by auto
    then have "(k, v) \<in> set (AList.delete a al)" using keys by (auto simp: del)
    then show "v \<in> snd ` set (AList.delete a al)" by force
  qed
  show "distinct (map fst (AList.delete a al))" using assms(1) by (rule distinct_delete)
  show "distinct (map snd (AList.delete a al))"
    using assms(2) by (simp add: del distinct_map_filter)
qed

lemma table_ok_remove:
  assumes "table_ok xc" and "map_of (xc_clients xc) a = Some i"
  shows "table_ok (xc\<lparr>xc_heap := close_at i (xc_heap xc), xc_clients := AList.delete a (xc_clients xc)\<rparr>)"
proof -
  from assms(1) have d: "distinct (map fst (xc_clients xc))" "distinct (map snd (xc_clients xc))"
    by (simp_all add: table_ok_def)
  show ?thesis
    using assms(1) delete_image [OF d assms(2)] by (auto simp: table_ok_def closing_close_at)
qed

lemma XDial_new: "XDial net a opts = Inr (t, cl) \<Longrightarrow> cl = new_client"
  by (auto simp: XDial_def dialTimeout_def NewHTTPClient_def NewClient_def Let_def
      split: sum.splits option.splits if_splits dialler.splits)

lemma new_client_fresh: "\<not> closing new_client \<and> IsAvailable new_client"
  by (simp add: new_client_def IsAvailable_def)

lemma update_absent: "map_of al a = None \<Longrightarrow> AList.update a v al = al @ [(a, v)]"
  by (induction al) (auto split: if_splits)

lemma dial_new_ok:
  assumes "table_ok xc" and "map_of (xc_clients xc) a = None"
  shows "table_ok (fst (dial_new net a xc))"
proof (cases "XDial net a [xc_opt xc]")
  case (Inr r)
  obtain t cl where r: "r = (t, cl)" by (cases r)
  with Inr have cl: "cl = new_client" using XDial_new by blast
  have a: "a \<notin> fst ` set (xc_clients xc)" using assms(2) by (simp add: map_of_eq_None_iff)
  have "length (xc_heap xc) \<notin> snd ` set (xc_clients xc)" using assms(1) by (force simp: table_ok_def)
  then show ?thesis
    using assms(1) a cl new_client_fresh
    by (auto simp: dial_new_def Inr r update_absent [OF assms(2)] table_ok_def nth_append less_Suc_eq)
qed (use assms in \<open>simp add: dial_new_def\<close>)

lemma map_of_delete: "map_of (AList.delete a al) a = None"
  by (simp add: delete_conv')

lemma xc_dial_ok: "table_ok xc \<Longrightarrow> table_ok (fst (xc_dial net a xc))"
proof (cases "map_of (xc_clients xc) a")
  case (Some i)
  assume ok: "table_ok xc"
  show ?thesis
  proof (cases "IsAvailable (xc_heap xc ! i)")
    case False
    from dial_new_ok [OF table_ok_remove [OF ok Some], of a] False Some show ?thesis
      by (simp add: xc_dial_def map_of_delete)
  qed (use ok Some in \<open>simp add: xc_dial_def\<close>)
qed (simp add: xc_dial_def dial_new_ok)

lemma close_loop_ok:
  "table_ok xc \<Longrightarrow> xc_clients xc = al \<Longrightarrow> table_ok (close_loop al xc) \<and> xc_clients (close_loop al xc) = []
     \<and> length (xc_heap (close_loop al xc)) = length (xc_heap xc)"
proof (induction al arbitrary: xc)
  case (Cons p al)
  obtain a i where p: "p = (a, i)" by (cases p)
  let ?xc = "xc\<lparr>xc_heap := close_at i (xc_heap xc), xc_clients := AList.delete a (xc_clients xc)\<rparr>"
  have "map_of (xc_clients xc) a = Some i" using Cons.prems(2) p by simp
  then have "table_ok ?xc" by (rule table_ok_remove [OF Cons.prems(1)])
  moreover have "a \<notin> fst ` set al" using Cons.prems p by (auto simp: table_ok_def)
  then have "xc_clients ?xc = al" using Cons.prems(2) p by (simp add: AList.delete_eq filter_id_conv) force
  ultimately have "table_ok (close_loop al ?xc) \<and> xc_clients (close_loop al ?xc) = []
     \<and> length (xc_heap (close_loop al ?xc)) = length (xc_heap ?xc)" by (rule Cons.IH)
  then show ?case by (simp add: p)
qed simp

text \<open>What can happen to an \<open>XClient\<close>: dialling, the end of a client's connection, \<open>Close\<close>.\<close>

inductive xc_reachable :: "xclient \<Rightarrow> bool" where
  xc_new: "xc_reachable (NewXClient mode opt)"
| xc_dialled: "xc_reachable xc \<Longrightarrow> xc_reachable (fst (xc_dial net a xc))"
| xc_broken: "xc_reachable xc \<Longrightarrow> xc_reachable (xc\<lparr>xc_heap := (xc_heap xc)[i := (xc_heap xc ! i)\<lparr>shutdown := True\<rparr>]\<rparr>)"
| xc_closed: "xc_reachable xc \<Longrightarrow> xc_reachable (XClose xc)"

lemma xc_reachable_ok: "xc_reachable xc \<Longrightarrow> table_ok xc"
proof (induction rule: xc_reachable.induct)
  case (xc_broken xc i)
  have "closing ((xc_heap xc)[i := (xc_heap xc ! i)\<lparr>shutdown := True\<rparr>] ! j) = closing (xc_heap xc ! j)"
    if "j < length (xc_heap xc)" for j
    using that by (cases "i = j") simp_all
  with xc_broken.IH show ?case by (simp add: table_ok_def)
qed (simp_all add: xc_dial_ok XClose_def close_loop_ok, simp add: NewXClient_def table_ok_def)

section \<open>Calls through the interface\<close>

context discovery begin

text \<open>What an \<open>XClient\<close> relies on: the address its route yields is one of the current list.\<close>

lemma route_listed:
  assumes "inv d" and "mode \<noteq> ConsistentHash" and "route get mode key d = (d', Inr a)"
  shows "a \<in> set (servers_of d') \<and> inv d'"
  using selected_is_listed [OF assms(1,2)] assms(3) by (simp add: route_def)

lemma call_listed:
  assumes "inv d" and "xc_mode xc \<noteq> ConsistentHash"
    and "XCall get net rpc key (d, xc) = ((d', xc'), Some a, r)"
  shows "a \<in> set (servers_of d') \<and> inv d'"
  using assms route_listed [of d "xc_mode xc" key]
  by (auto simp: XCall_def split: prod.splits sum.splits)

end

section \<open>Properties\<close>

text \<open>
  C30. The connection table neither leaks nor keeps what is closed. Whatever sequence of dials,
  broken connections and \<open>Close\<close> an \<open>XClient\<close> has been through, a client it ever dialled is
  either in the table under exactly one address and not closed by it, or has been closed; and
  after \<open>Close\<close> the table is empty and every client closed.
\<close>

theorem xclient_no_leak:
  assumes "xc_reachable xc"
  shows "(\<forall>i < length (xc_heap xc). closing (xc_heap xc ! i) \<longleftrightarrow> i \<notin> snd ` set (xc_clients xc))
    \<and> distinct (map fst (xc_clients xc)) \<and> distinct (map snd (xc_clients xc))
    \<and> xc_clients (XClose xc) = [] \<and> (\<forall>cl \<in> set (xc_heap (XClose xc)). closing cl)"
proof -
  note ok = xc_reachable_ok [OF assms]
  from close_loop_ok [OF ok refl] have closed: "table_ok (XClose xc)" "xc_clients (XClose xc) = []"
    by (simp_all add: XClose_def)
  then have "\<forall>i < length (xc_heap (XClose xc)). closing (xc_heap (XClose xc) ! i)"
    by (simp add: table_ok_def)
  then have "\<forall>cl \<in> set (xc_heap (XClose xc)). closing cl" by (auto simp: in_set_conv_nth)
  with ok closed(2) show ?thesis by (simp add: table_ok_def)
qed

definition good_net :: "dialler \<Rightarrow> dial_env" where
  "good_net d = \<lparr>de_refused = None, de_timer_first = False, de_wrote = None, de_status = Inr connected, de_sent = None\<rparr>"

lemma good_net_dial:
  "XDial good_net ''tcp@a'' [None] = Inr (GobType, new_client)"
  by (simp add: XDial_def XDial_route_def good_net_def dialTimeout_def parseOptions_def NewClient_def
      NewCodecFuncMap_def DefaultOption_def codec_type_text_def Let_def)

lemma xclient_no_leak_witness:
  "let xc = fst (xc_dial good_net ''tcp@a'' (NewXClient RandomSelect None)) in
   length (xc_heap xc) = 1 \<and> (\<forall>cl \<in> set (xc_heap (XClose xc)). closing cl)"
proof -
  let ?xc = "fst (xc_dial good_net ''tcp@a'' (NewXClient RandomSelect None))"
  have "xc_reachable ?xc" by (intro xc_dialled xc_new)
  from xclient_no_leak [OF this] have "\<forall>cl \<in> set (xc_heap (XClose ?xc)). closing cl" by blast
  moreover have "length (xc_heap ?xc) = 1"
    by (simp add: xc_dial_def NewXClient_def dial_new_def good_net_dial)
  ultimately show ?thesis by (simp only: Let_def simp_thms)
qed

text \<open>
  What a dial returns is usable and remembered: the client is available, it is the one the
  table holds for the address, an available client already there is reused as it is, and an
  unusable one is closed and replaced by a new one.
\<close>

theorem xclient_dial_contract:
  assumes "xc_reachable xc" and "xc_dial net a xc = (xc', Inr i)"
  shows "map_of (xc_clients xc') a = Some i \<and> IsAvailable (xc_heap xc' ! i)
    \<and> (\<forall>j. map_of (xc_clients xc) a = Some j \<longrightarrow>
        (if IsAvailable (xc_heap xc ! j) then xc' = xc \<and> i = j
         else i = length (xc_heap xc) \<and> closing (xc_heap xc' ! j)))"
proof -
  note ok = xc_reachable_ok [OF assms(1)]
  have new: "map_of (xc_clients y) a = Some k \<and> xc_heap y ! k = new_client \<and> k = length (xc_heap x)
      \<and> (\<forall>j < length (xc_heap x). xc_heap y ! j = xc_heap x ! j)"
    if "dial_new net a x = (y, Inr k)" for x y k
    using that XDial_new
    by (fastforce simp: dial_new_def update_conv' nth_append split: sum.splits)
  show ?thesis
  proof (cases "map_of (xc_clients xc) a")
    case None
    with assms(2) have "dial_new net a xc = (xc', Inr i)" by (simp add: xc_dial_def)
    from new [OF this] None new_client_fresh show ?thesis by auto
  next
    case (Some j)
    then have j: "j < length (xc_heap xc)" using ok by (force simp: table_ok_def dest: map_of_SomeD)
    show ?thesis
    proof (cases "IsAvailable (xc_heap xc ! j)")
      case True
      with Some assms(2) show ?thesis by (simp add: xc_dial_def)
    next
      case False
      let ?x = "xc\<lparr>xc_heap := close_at j (xc_heap xc), xc_clients := AList.delete a (xc_clients xc)\<rparr>"
      from False Some assms(2) have "dial_new net a ?x = (xc', Inr i)" by (simp add: xc_dial_def)
      from new [OF this] Some False j new_client_fresh show ?thesis by (auto simp: closing_close_at)
    qed
  qed
qed

lemma xclient_dial_contract_witness:
  "let (xc, r) = xc_dial good_net ''tcp@a'' (NewXClient RandomSelect None) in
   r = Inr 0 \<and> map_of (xc_clients xc) ''tcp@a'' = Some 0"
proof -
  have "xc_dial good_net ''tcp@a'' (NewXClient RandomSelect None) =
      (fst (xc_dial good_net ''tcp@a'' (NewXClient RandomSelect None)), Inr 0)"
    by (simp add: xc_dial_def NewXClient_def dial_new_def good_net_dial)
  from xclient_dial_contract [OF xc_new this] this show ?thesis by (auto split: prod.split)
qed

text \<open>
  A call goes to a server the discovery lists: with either discovery and every mode but
  \<open>ConsistentHash\<close> (with the hand-kept list, every mode), the address an \<open>XClient\<close> calls is in
  the list the discovery holds after the call. For the hand-kept list the ring must be in step
  with the list, which \<open>NewMultiServerDiscovery\<close> and \<open>Update\<close> establish; the registry's list is
  the one just refreshed.
\<close>

theorem xclient_calls_listed_server:
  "(ring_synced d \<and> XCall (MultiGet intn) net rpc key (d, xc) = ((d', xc'), Some a, r) \<longrightarrow> a \<in> set (servers d'))
   \<and> (ring_never_built g \<and> xc_mode xc \<noteq> ConsistentHash
        \<and> XCall (GeeGet intn e) net rpc key (g, xc) = ((g', xc'), Some a, r) \<longrightarrow> a \<in> set (servers g'))"
proof (intro conjI impI)
  assume "ring_synced d \<and> XCall (MultiGet intn) net rpc key (d, xc) = ((d', xc'), Some a, r)"
  then show "a \<in> set (servers d')"
    using multi.any_mode_listed [of d intn "xc_mode xc"]
    by (auto simp: XCall_def route_def split: prod.splits sum.splits)
next
  assume "ring_never_built g \<and> xc_mode xc \<noteq> ConsistentHash
        \<and> XCall (GeeGet intn e) net rpc key (g, xc) = ((g', xc'), Some a, r)"
  then show "a \<in> set (servers g')" using gee.call_listed [of g xc intn e net rpc key g' xc' a r] by blast
qed

lemma xclient_calls_listed_server_witness:
  "let d = NewMultiServerDiscovery (\<lambda>g n. (g, 0)) () [''tcp@a''];
       (s, a, r) = XCall (MultiGet (\<lambda>g n. (g, 0))) good_net (\<lambda>i. Inr ''pong'') None
                     (d, NewXClient RoundRobinSelect None)
   in a = Some ''tcp@a'' \<and> the a \<in> set (servers (fst s)) \<and> r = Inr ''pong''"
proof -
  let ?g = "\<lambda>(g::unit) (n::int). (g, 0::int)"
  let ?d = "NewMultiServerDiscovery ?g () [''tcp@a'']"
  let ?c = "XCall (MultiGet ?g) good_net (\<lambda>i. Inr ''pong'') None (?d, NewXClient RoundRobinSelect None)"
  obtain d' xc' where c: "?c = ((d', xc'), Some ''tcp@a'', Inr ''pong'')"
    by (simp add: XCall_def route_def NewXClient_def MultiGet_def NewMultiServerDiscovery_def select_modes
        slice_read_def Let_def xc_call_def xc_dial_def dial_new_def good_net_dial)
  have "ring_synced ?d" by (simp add: ring_synced_def NewMultiServerDiscovery_def)
  with xclient_calls_listed_server c have "''tcp@a'' \<in> set (servers d')" by metis
  with c show ?thesis by simp
qed

definition is_error :: "'v result \<Rightarrow> bool" where
  "is_error r = (case r of Inl e \<Rightarrow> True | Inr v \<Rightarrow> False)"

definition first_error :: "'v result list \<Rightarrow> goerror option" where
  "first_error rs = (case find is_error rs of Some (Inl e) \<Rightarrow> Some e | _ \<Rightarrow> None)"

definition first_reply :: "'v result list \<Rightarrow> 'v option" where
  "first_reply rs = (case find (\<lambda>r. \<not> is_error r) rs of Some (Inr v) \<Rightarrow> Some v | _ \<Rightarrow> None)"

lemma bcast_finish_simps [simp]:
  "bcast_finish (Inl e) b = (if b_err b = None then b\<lparr>b_err := Some e, b_cancelled := True\<rparr> else b)"
  "bcast_finish (Inr v) b = (if \<not> b_replyDone b then b\<lparr>b_reply := Some v, b_replyDone := True\<rparr> else b)"
  by (simp_all add: bcast_finish_def)

lemma first_simps [simp]:
  "first_error [] = None" "first_error (Inl e # rs) = Some e" "first_error (Inr v # rs) = first_error rs"
  "first_reply [] = None" "first_reply (Inl e # rs) = first_reply rs" "first_reply (Inr v # rs) = Some v"
  by (simp_all add: first_error_def first_reply_def is_error_def)

lemma fold_bcast:
  "b_err (fold bcast_finish rs b) = (if b_err b \<noteq> None then b_err b else first_error rs)
   \<and> b_reply (fold bcast_finish rs b) =
       (if b_replyDone b \<or> first_reply rs = None then b_reply b else first_reply rs)"
proof (induction rs arbitrary: b)
  case (Cons r rs)
  show ?case
    by (cases r) (simp_all add: Cons.IH)
qed simp

lemma first_error_None: "first_error rs = None \<longleftrightarrow> (\<forall>r \<in> set rs. \<not> is_error r)"
  by (induction rs) (auto simp: first_error_def is_error_def split: sum.splits)

text \<open>
  The outcome of a broadcast depends on the results as they come in and on nothing else. It
  fails with the first error, succeeds when there is none, and the reply is set to the first
  success if the caller wanted one, even when the broadcast fails. Every server of the list is
  called, so a broadcast that succeeds has succeeded everywhere.
\<close>

theorem broadcast_outcome:
  assumes "get_all d = (d', Inr ss)" and "mset (map fst finished) = mset ss"
    and "Broadcast get_all want finished d = (d'', err, reply)"
  shows "err = first_error (map snd finished)
    \<and> reply = (if want then first_reply (map snd finished) else None)
    \<and> (err = None \<longleftrightarrow> (\<forall>s \<in> set ss. \<forall>r. (s, r) \<in> set finished \<longrightarrow> \<not> is_error r))"
proof -
  have ss: "set ss = fst ` set finished" using assms(2) by (metis list.set_map set_mset_mset)
  from assms(1,3) have "err = first_error (map snd finished)"
    "reply = (if want then first_reply (map snd finished) else None)"
    by (auto simp: Broadcast_def Let_def fold_bcast bcast_start_def)
  moreover have "(\<forall>r \<in> set (map snd finished). \<not> is_error r) \<longleftrightarrow>
      (\<forall>s \<in> set ss. \<forall>r. (s, r) \<in> set finished \<longrightarrow> \<not> is_error r)"
    by (force simp: ss)
  ultimately show ?thesis by (simp only: first_error_None)
qed

lemma broadcast_outcome_witness:
  "Broadcast (\<lambda>d. (d, Inr [''a'', ''b''])) True [(''b'', Inr (7::nat)), (''a'', Inl ''down'')] () =
     ((), Some ''down'', Some 7)"
proof -
  let ?f = "[(''b'', Inr (7::nat)), (''a'', Inl ''down'')] :: (gostring \<times> nat result) list"
  obtain err reply where b: "Broadcast (\<lambda>d. (d, Inr [''a'', ''b''])) True ?f () = ((), err, reply)"
    by (cases "Broadcast (\<lambda>d. (d, Inr [''a'', ''b''])) True ?f ()") auto
  have "mset (map fst ?f) = mset [''a'', ''b'']" by simp
  from broadcast_outcome [OF refl this b] b show ?thesis
    by (simp add: first_error_def first_reply_def is_error_def)
qed

end
