(* ===== verification/Json.thy ===== *)
theory Json
  imports Prelude
begin

text \<open>
  JSON as the sources use it through \<open>encoding/json\<close>: encoding of structs and maps, decoding into
  structs with \<open>int64\<close> and \<open>string\<close> fields. A document is its syntax tree; a text that is no
  JSON at all has none (\<open>json.Unmarshal\<close> fails). A field that is missing or \<open>null\<close> keeps its zero
  value, an unknown one is skipped, of two with one name the later counts. That Go also matches
  keys in another case is left out.
\<close>

datatype json =
    JNull
  | JBool bool
  | JInt int
  | JFloat gostring
  | JStr gostring
  | JArr "json list"
  | JObj "(gostring \<times> json) list"

definition int64_range :: "int \<Rightarrow> bool" where
  "int64_range i \<longleftrightarrow> - (2 ^ 63) \<le> i \<and> i < 2 ^ 63"

definition json_field :: "gostring \<Rightarrow> (gostring \<times> json) list \<Rightarrow> json" where
  "json_field k fs = (case map_of (rev fs) k of None \<Rightarrow> JNull | Some v \<Rightarrow> v)"

definition json_error :: "gostring \<Rightarrow> goerror" where
  "json_error k = ''json: cannot unmarshal into field '' @ k"

definition get_int64 :: "gostring \<Rightarrow> (gostring \<times> json) list \<Rightarrow> i64 result" where
  "get_int64 k fs =
     (case json_field k fs of
        JNull \<Rightarrow> Inr 0
      | JInt i \<Rightarrow> if int64_range i then Inr (of_int i) else Inl (json_error k)
      | _ \<Rightarrow> Inl (json_error k))"

definition get_string :: "gostring \<Rightarrow> (gostring \<times> json) list \<Rightarrow> gostring result" where
  "get_string k fs =
     (case json_field k fs of JNull \<Rightarrow> Inr '''' | JStr s \<Rightarrow> Inr s | _ \<Rightarrow> Inl (json_error k))"

text \<open>A document decoded into a struct: an object, or \<open>null\<close>, which changes nothing.\<close>

definition as_object :: "json option \<Rightarrow> (gostring \<times> json) list result" where
  "as_object doc =
     (case doc of
        None \<Rightarrow> Inl ''invalid character''
      | Some (JObj fs) \<Rightarrow> Inr fs
      | Some JNull \<Rightarrow> Inr []
      | Some _ \<Rightarrow> Inl ''json: cannot unmarshal into Go value of struct type'')"

definition JInt64 :: "i64 \<Rightarrow> json" where
  "JInt64 w = JInt (sint w)"

definition bind :: "'a result \<Rightarrow> ('a \<Rightarrow> 'b result) \<Rightarrow> 'b result" where
  "bind r f = (case r of Inl e \<Rightarrow> Inl e | Inr x \<Rightarrow> f x)"

lemma bind_simps [simp]: "bind (Inl e) f = Inl e" "bind (Inr x) f = f x"
  by (simp_all add: bind_def)

lemma sint_int64 [simp]: "int64_range (sint (w :: i64))"
  using sint_greater_eq [of w] sint_less [of w] by (simp add: int64_range_def)

lemma get_int64_JInt64 [simp]: "json_field k fs = JInt64 w \<Longrightarrow> get_int64 k fs = Inr w"
  by (simp add: get_int64_def JInt64_def)

lemma get_string_JStr [simp]: "json_field k fs = JStr s \<Longrightarrow> get_string k fs = Inr s"
  by (simp add: get_string_def)

text \<open>\<open>strconv.FormatInt(_, 10)\<close> and \<open>%d\<close> of an \<open>int64\<close>.\<close>

definition fmt_int64 :: "i64 \<Rightarrow> gostring" where
  "fmt_int64 w = itoa (sint w)"

lemma fmt_int64_inj [simp]: "fmt_int64 v = fmt_int64 w \<longleftrightarrow> v = w"
  by (auto simp: fmt_int64_def intro: signed_word_eqI)

end
