(* ===== verification/Mq.thy ===== *)
theory Mq
  imports Json
begin

text \<open>
  The message queue: \<open>apps/pkg/mq/rabbitmq.go\<close>. The two payloads and their JSON form, the pool
  of publishing channels, the declarations each side makes and the two publishing functions.

  RabbitMQ is not part of the repository. \<open>amqp_ops\<close> is what the sources call, on a broker state
  \<open>'b\<close>. Error texts are kept in translation.
\<close>

section \<open>Payloads\<close>

definition ChatTypeSingle :: gostring where "ChatTypeSingle = ''single_chat''"
definition ChatTypeGroup :: gostring where "ChatTypeGroup = ''group_chat''"
definition ChatTypeAI :: gostring where "ChatTypeAI = ''ai_chat''"

lemmas chat_types = ChatTypeSingle_def ChatTypeGroup_def ChatTypeAI_def

record DownPayload =
  dp_MsgID :: i64
  dp_SeqID :: i64
  dp_GroupID :: i64
  dp_SenderID :: i64
  dp_ReceiverID :: i64
  dp_Content :: gostring
  dp_ChatType :: gostring

record UploadPayload =
  up_MsgID :: i64
  up_SeqID :: i64
  up_ChatType :: gostring
  up_GroupID :: i64
  up_ConvID :: gostring
  up_SenderID :: i64
  up_ReceiverID :: i64
  up_Content :: gostring

definition marshal_down :: "DownPayload \<Rightarrow> json" where
  "marshal_down p = JObj
     [(''msg_id'', JInt64 (dp_MsgID p)), (''seq_id'', JInt64 (dp_SeqID p)), (''group_id'', JInt64 (dp_GroupID p)),
      (''sender_id'', JInt64 (dp_SenderID p)), (''receiver_id'', JInt64 (dp_ReceiverID p)),
      (''content'', JStr (dp_Content p)), (''chat_type'', JStr (dp_ChatType p))]"

definition unmarshal_down :: "json option \<Rightarrow> DownPayload result" where
  "unmarshal_down doc =
     bind (as_object doc) (\<lambda>fs. bind (get_int64 ''msg_id'' fs) (\<lambda>m. bind (get_int64 ''seq_id'' fs) (\<lambda>s.
     bind (get_int64 ''group_id'' fs) (\<lambda>g. bind (get_int64 ''sender_id'' fs) (\<lambda>x.
     bind (get_int64 ''receiver_id'' fs) (\<lambda>r. bind (get_string ''content'' fs) (\<lambda>c.
     bind (get_string ''chat_type'' fs) (\<lambda>t.
       Inr \<lparr>dp_MsgID = m, dp_SeqID = s, dp_GroupID = g, dp_SenderID = x, dp_ReceiverID = r,
            dp_Content = c, dp_ChatType = t\<rparr>))))))))"

definition marshal_upload :: "UploadPayload \<Rightarrow> json" where
  "marshal_upload p = JObj
     [(''msg_id'', JInt64 (up_MsgID p)), (''seq_id'', JInt64 (up_SeqID p)), (''chat_type'', JStr (up_ChatType p)),
      (''group_id'', JInt64 (up_GroupID p)), (''conv_id'', JStr (up_ConvID p)),
      (''sender_id'', JInt64 (up_SenderID p)), (''receiver_id'', JInt64 (up_ReceiverID p)),
      (''content'', JStr (up_Content p))]"

definition unmarshal_upload :: "json option \<Rightarrow> UploadPayload result" where
  "unmarshal_upload doc =
     bind (as_object doc) (\<lambda>fs. bind (get_int64 ''msg_id'' fs) (\<lambda>m. bind (get_int64 ''seq_id'' fs) (\<lambda>s.
     bind (get_string ''chat_type'' fs) (\<lambda>t. bind (get_int64 ''group_id'' fs) (\<lambda>g.
     bind (get_string ''conv_id'' fs) (\<lambda>cv. bind (get_int64 ''sender_id'' fs) (\<lambda>x.
     bind (get_int64 ''receiver_id'' fs) (\<lambda>r. bind (get_string ''content'' fs) (\<lambda>c.
       Inr \<lparr>up_MsgID = m, up_SeqID = s, up_ChatType = t, up_GroupID = g, up_ConvID = cv,
            up_SenderID = x, up_ReceiverID = r, up_Content = c\<rparr>)))))))))"

lemma unmarshal_marshal_down [simp]: "unmarshal_down (Some (marshal_down p)) = Inr p"
  by (simp add: unmarshal_down_def marshal_down_def as_object_def json_field_def)

lemma unmarshal_marshal_upload [simp]: "unmarshal_upload (Some (marshal_upload p)) = Inr p"
  by (simp add: unmarshal_upload_def marshal_upload_def as_object_def json_field_def)

section \<open>The broker\<close>

definition downExchangeName :: gostring where "downExchangeName = ''gateway.exchange''"
definition uploadExchangeName :: gostring where "uploadExchangeName = ''message.upload''"
definition deadExchangeName :: gostring where "deadExchangeName = ''dead.letter.exchange''"

lemmas exchange_names = downExchangeName_def uploadExchangeName_def deadExchangeName_def

record 'b amqp_ops =
  am_channel :: "'b \<Rightarrow> 'b \<times> goerror option"
  am_exchange :: "gostring \<Rightarrow> 'b \<Rightarrow> 'b \<times> goerror option"
  am_queue :: "gostring \<Rightarrow> (gostring \<times> gostring) option \<Rightarrow> 'b \<Rightarrow> 'b \<times> goerror option"
  am_bind :: "gostring \<Rightarrow> gostring \<Rightarrow> gostring \<Rightarrow> 'b \<Rightarrow> 'b \<times> goerror option"
  am_qos :: "nat \<Rightarrow> 'b \<Rightarrow> 'b \<times> goerror option"
  am_consume :: "gostring \<Rightarrow> 'b \<Rightarrow> 'b \<times> goerror option"
  am_publish :: "nat \<Rightarrow> gostring \<Rightarrow> gostring \<Rightarrow> json \<Rightarrow> 'b \<Rightarrow> 'b \<times> goerror option"

text \<open>One call after the other until the first error, which is returned with its prefix.\<close>

fun run_setup :: "(gostring \<times> ('b \<Rightarrow> 'b \<times> goerror option)) list \<Rightarrow> 'b \<Rightarrow> 'b \<times> goerror option" where
  "run_setup [] b = (b, None)"
| "run_setup ((what, f) # steps) b =
     (case f b of (b', Some e) \<Rightarrow> (b', Some (what @ '': '' @ e)) | (b', None) \<Rightarrow> run_setup steps b')"

definition publishPoolSize :: nat where "publishPoolSize = 5"

definition rabbit_steps :: "'b amqp_ops \<Rightarrow> ('b \<Rightarrow> 'b \<times> goerror option) \<Rightarrow> (gostring \<times> ('b \<Rightarrow> 'b \<times> goerror option)) list" where
  "rabbit_steps am dial =
       [(''connect RabbitMQ'', dial), (''create channel'', am_channel am),
         (''declare upload exchange'', am_exchange am uploadExchangeName),
         (''declare down exchange'', am_exchange am downExchangeName),
         (''declare dead-letter exchange'', am_exchange am deadExchangeName),
         (''declare dead-letter queue'', am_queue am ''dead.letter.queue'' None),
         (''bind queue to exchange'', am_bind am ''dead.letter.queue'' ''dead.letter'' deadExchangeName)]
        @ replicate publishPoolSize (''create publish channel'', am_channel am)"

definition InitRabbitMQ :: "'b amqp_ops \<Rightarrow> ('b \<Rightarrow> 'b \<times> goerror option) \<Rightarrow> 'b \<Rightarrow> 'b \<times> goerror option" where
  "InitRabbitMQ am dial = run_setup (rabbit_steps am dial)"

text \<open>
  The package variables \<open>conn\<close>, \<open>channel\<close> and \<open>publishChs\<close>: which of them are not nil once the first
  \<open>k\<close> steps have gone well; the pool is made before the eighth. \<open>mq_Close\<close> lists what \<open>Close\<close> closes.
\<close>

record mq_vars =
  mv_conn :: bool
  mv_channel :: bool
  mv_publishChs :: "bool list"

definition mq_assigned :: "nat \<Rightarrow> mq_vars" where
  "mq_assigned k =
     \<lparr>mv_conn = 0 < k, mv_channel = 1 < k,
      mv_publishChs = (if k < 7 then [] else map (\<lambda>i. 7 + i < k) [0..<publishPoolSize])\<rparr>"

datatype mq_handle = PublishChannel nat | ConsumeChannel | Connection

definition mq_Close :: "mq_vars \<Rightarrow> mq_handle list" where
  "mq_Close v =
     map PublishChannel (filter (\<lambda>i. mv_publishChs v ! i) [0..<length (mv_publishChs v)])
     @ (if mv_channel v then [ConsumeChannel] else []) @ (if mv_conn v then [Connection] else [])"

text \<open>How many steps go well, and what each of them opens.\<close>

fun steps_done :: "(gostring \<times> ('b \<Rightarrow> 'b \<times> goerror option)) list \<Rightarrow> 'b \<Rightarrow> nat" where
  "steps_done [] b = 0"
| "steps_done ((what, f) # steps) b = (case f b of (b', Some e) \<Rightarrow> 0 | (b', None) \<Rightarrow> Suc (steps_done steps b'))"

definition step_opens :: "nat \<Rightarrow> mq_handle option" where
  "step_opens k =
     (if k = 0 then Some Connection else if k = 1 then Some ConsumeChannel
      else if 7 \<le> k then Some (PublishChannel (k - 7)) else None)"

definition ConsumeUploadQueue :: "'b amqp_ops \<Rightarrow> gostring \<Rightarrow> gostring \<Rightarrow> 'b \<Rightarrow> 'b \<times> goerror option" where
  "ConsumeUploadQueue am queueName routingKey =
     run_setup
       [(''declare queue'', am_queue am queueName (Some (deadExchangeName, ''dead.letter''))),
        (''bind queue to exchange'', am_bind am queueName routingKey uploadExchangeName),
        (''set QoS'', am_qos am 50), (''register consumer'', am_consume am queueName)]"

definition ConsumeDownQueue :: "'b amqp_ops \<Rightarrow> gostring \<Rightarrow> gostring \<Rightarrow> 'b \<Rightarrow> 'b \<times> goerror option" where
  "ConsumeDownQueue am queueName routingKey =
     run_setup
       [(''declare queue'', am_queue am queueName None),
        (''bind queue to exchange'', am_bind am queueName routingKey downExchangeName),
        (''set QoS'', am_qos am 50), (''register consumer'', am_consume am queueName)]"

text \<open>\<open>getPublishCh\<close>: the counter after the atomic increment and the channel it selects.\<close>

definition getPublishCh :: "u64 \<Rightarrow> u64 \<times> nat" where
  "getPublishCh idx = (idx + 1, unat ((idx + 1) mod of_nat publishPoolSize))"

record 'b mq =
  mq_broker :: 'b
  publishIdx :: u64

definition publish_on :: "'b amqp_ops \<Rightarrow> gostring \<Rightarrow> gostring \<Rightarrow> json \<Rightarrow> 'b mq \<Rightarrow> 'b mq \<times> goerror option" where
  "publish_on am exch key body q =
     (case getPublishCh (publishIdx q) of
        (idx, ch) \<Rightarrow>
          (case am_publish am ch exch key body (mq_broker q) of
             (b', e) \<Rightarrow> (\<lparr>mq_broker = b', publishIdx = idx\<rparr>, e)))"

definition PublishUpload :: "'b amqp_ops \<Rightarrow> gostring \<Rightarrow> json \<Rightarrow> 'b mq \<Rightarrow> 'b mq \<times> goerror option" where
  "PublishUpload am = publish_on am uploadExchangeName"

definition PublishDown :: "'b amqp_ops \<Rightarrow> gostring \<Rightarrow> json \<Rightarrow> 'b mq \<Rightarrow> 'b mq \<times> goerror option" where
  "PublishDown am = publish_on am downExchangeName"

text \<open>What a consumer tells the broker of a delivery: \<open>Ack\<close>, or \<open>Nack\<close> with or without requeueing.\<close>

datatype disposition = Ack | Nack bool

section \<open>What the sources rely on in the broker\<close>

text \<open>
  \<open>bk_queue b q\<close> are the messages waiting in a queue, \<open>bk_bound b\<close> the bindings (exchange,
  routing key, queue). A direct exchange appends a message to every queue bound with its routing
  key; a publish that fails may have done so or not. Declarations leave messages alone.
\<close>

record 'b broker_view =
  bk_queue :: "'b \<Rightarrow> gostring \<Rightarrow> json list"
  bk_bound :: "'b \<Rightarrow> (gostring \<times> gostring \<times> gostring) set"

definition routed :: "'b broker_view \<Rightarrow> gostring \<Rightarrow> gostring \<Rightarrow> json \<Rightarrow> 'b \<Rightarrow> gostring \<Rightarrow> json list" where
  "routed v ex key body b q = bk_queue v b q @ (if (ex, key, q) \<in> bk_bound v b then [body] else [])"

definition same_view :: "'b broker_view \<Rightarrow> 'b \<Rightarrow> 'b \<Rightarrow> bool" where
  "same_view v b b' \<longleftrightarrow> bk_queue v b' = bk_queue v b \<and> bk_bound v b' = bk_bound v b"

definition amqp_laws :: "'b amqp_ops \<Rightarrow> 'b broker_view \<Rightarrow> bool" where
  "amqp_laws am v \<longleftrightarrow>
     (\<forall>ch ex key body b b' e. am_publish am ch ex key body b = (b', e) \<longrightarrow>
        bk_bound v b' = bk_bound v b \<and>
        (if e = None then bk_queue v b' = routed v ex key body b
         else bk_queue v b' = bk_queue v b \<or> bk_queue v b' = routed v ex key body b))
   \<and> (\<forall>q key ex b b' e. am_bind am q key ex b = (b', e) \<longrightarrow>
        bk_queue v b' = bk_queue v b \<and>
        (if e = None then bk_bound v b' = insert (ex, key, q) (bk_bound v b)
         else bk_bound v b' = bk_bound v b \<or> bk_bound v b' = insert (ex, key, q) (bk_bound v b)))
   \<and> (\<forall>q args b. same_view v b (fst (am_queue am q args b)))
   \<and> (\<forall>ex b. same_view v b (fst (am_exchange am ex b)))
   \<and> (\<forall>n b. same_view v b (fst (am_qos am n b)))
   \<and> (\<forall>q b. same_view v b (fst (am_consume am q b)))
   \<and> (\<forall>b. same_view v b (fst (am_channel am b)))"

text \<open>A broker in memory with a script of failures.\<close>

record mem_broker =
  mb_queues :: "(gostring \<times> json) list"
  mb_bindings :: "(gostring \<times> gostring \<times> gostring) list"
  mb_faults :: "goerror option list"

definition mb_fault :: "mem_broker \<Rightarrow> mem_broker \<times> goerror option" where
  "mb_fault b = (case mb_faults b of [] \<Rightarrow> (b, None) | f # fs \<Rightarrow> (b\<lparr>mb_faults := fs\<rparr>, f))"

definition mb_receivers :: "gostring \<Rightarrow> gostring \<Rightarrow> mem_broker \<Rightarrow> gostring list" where
  "mb_receivers ex key b =
     remdups (map (\<lambda>t. snd (snd t)) (filter (\<lambda>t. fst t = ex \<and> fst (snd t) = key) (mb_bindings b)))"

definition mem_amqp :: "mem_broker amqp_ops" where
  "mem_amqp =
     \<lparr>am_channel = mb_fault, am_exchange = \<lambda>ex. mb_fault, am_queue = \<lambda>q args. mb_fault,
      am_bind = \<lambda>q key ex b.
        (case mb_fault b of
           (b1, Some e) \<Rightarrow> (b1, Some e)
         | (b1, None) \<Rightarrow> (b1\<lparr>mb_bindings := (ex, key, q) # mb_bindings b1\<rparr>, None)),
      am_qos = \<lambda>n. mb_fault, am_consume = \<lambda>q. mb_fault,
      am_publish = \<lambda>ch ex key body b.
        (case mb_fault b of
           (b1, Some e) \<Rightarrow> (b1, Some e)
         | (b1, None) \<Rightarrow>
             (b1\<lparr>mb_queues := mb_queues b1 @ map (\<lambda>q. (q, body)) (mb_receivers ex key b1)\<rparr>, None))\<rparr>"

definition mem_view :: "mem_broker broker_view" where
  "mem_view =
     \<lparr>bk_queue = \<lambda>b q. map snd (filter (\<lambda>m. fst m = q) (mb_queues b)), bk_bound = \<lambda>b. set (mb_bindings b)\<rparr>"

lemma mb_fault_view: "mb_fault b = (b1, f) \<Longrightarrow> mb_queues b1 = mb_queues b \<and> mb_bindings b1 = mb_bindings b"
  by (auto simp: mb_fault_def split: list.splits)

lemma mb_fault_same: "same_view mem_view b (fst (mb_fault b))"
  using mb_fault_view [of b "fst (mb_fault b)" "snd (mb_fault b)"] by (simp add: same_view_def mem_view_def)

lemma filter_receivers:
  "distinct qs \<Longrightarrow> map snd (filter (\<lambda>m. fst m = q) (map (\<lambda>q. (q, body)) qs)) = (if q \<in> set qs then [body] else [])"
  by (induction qs) auto

lemma mb_receivers: "distinct (mb_receivers ex key b) \<and> (q \<in> set (mb_receivers ex key b) \<longleftrightarrow> (ex, key, q) \<in> set (mb_bindings b))"
  by (force simp: mb_receivers_def)

lemma mem_amqp_laws: "amqp_laws mem_amqp mem_view"
  unfolding amqp_laws_def
proof (intro conjI allI impI)
  fix ch ex key body b b' e assume p: "am_publish mem_amqp ch ex key body b = (b', e)"
  show "bk_bound mem_view b' = bk_bound mem_view b"
    using p by (auto simp: mem_amqp_def mem_view_def dest: mb_fault_view split: prod.splits option.splits)
  show "if e = None then bk_queue mem_view b' = routed mem_view ex key body b
      else bk_queue mem_view b' = bk_queue mem_view b \<or> bk_queue mem_view b' = routed mem_view ex key body b"
  proof (cases e)
    case None
    with p obtain b1 where b1: "mb_fault b = (b1, None)"
      "b' = b1\<lparr>mb_queues := mb_queues b1 @ map (\<lambda>q. (q, body)) (mb_receivers ex key b1)\<rparr>"
      by (auto simp: mem_amqp_def split: prod.splits option.splits)
    from mb_fault_view [OF b1(1)] have "bk_queue mem_view b' q = routed mem_view ex key body b q" for q
      by (simp add: b1(2) mem_view_def routed_def filter_receivers mb_receivers)
    with None show ?thesis by auto
  next
    case (Some x)
    with p show ?thesis
      by (auto simp: mem_amqp_def mem_view_def dest: mb_fault_view split: prod.splits option.splits)
  qed
next
  fix q key ex b b' e assume p: "am_bind mem_amqp q key ex b = (b', e)"
  then show "bk_queue mem_view b' = bk_queue mem_view b"
    and "if e = None then bk_bound mem_view b' = insert (ex, key, q) (bk_bound mem_view b)
      else bk_bound mem_view b' = bk_bound mem_view b \<or> bk_bound mem_view b' = insert (ex, key, q) (bk_bound mem_view b)"
    by (auto simp: mem_amqp_def mem_view_def dest: mb_fault_view split: prod.splits option.splits)
qed (simp_all add: mem_amqp_def mb_fault_same)

locale amqp_broker =
  fixes am :: "'b amqp_ops" and v :: "'b broker_view"
  assumes amqp: "amqp_laws am v"
begin

lemma publish_routed:
  assumes "publish_on am ex key body q = (q', None)"
  shows "bk_queue v (mq_broker q') = routed v ex key body (mq_broker q) \<and> bk_bound v (mq_broker q') = bk_bound v (mq_broker q)"
  using assms amqp by (auto simp: publish_on_def amqp_laws_def split: prod.splits)

lemma publish_any:
  assumes "publish_on am ex key body q = (q', e)"
  shows "bk_bound v (mq_broker q') = bk_bound v (mq_broker q)
    \<and> (bk_queue v (mq_broker q') = bk_queue v (mq_broker q) \<and> e \<noteq> None
       \<or> bk_queue v (mq_broker q') = routed v ex key body (mq_broker q))"
proof -
  obtain ch where "am_publish am ch ex key body (mq_broker q) = (mq_broker q', e)"
    using assms by (auto simp: publish_on_def split: prod.splits)
  with amqp show ?thesis unfolding amqp_laws_def by (elim conjE) (metis (full_types))
qed

lemma consume_down_binds:
  assumes "ConsumeDownQueue am qn key b = (b', None)"
  shows "bk_bound v b' = insert (downExchangeName, key, qn) (bk_bound v b) \<and> bk_queue v b' = bk_queue v b"
proof -
  from assms obtain b1 b2 b3 where s: "am_queue am qn None b = (b1, None)" "am_bind am qn key downExchangeName b1 = (b2, None)"
    "am_qos am 50 b2 = (b3, None)" "am_consume am qn b3 = (b', None)"
    by (auto simp: ConsumeDownQueue_def split: prod.splits option.splits)
  have same: "same_view v c (fst (am_queue am q args c))" "same_view v c (fst (am_qos am n c))"
    "same_view v c (fst (am_consume am q c))" for c q args n
    using amqp by (simp_all only: amqp_laws_def)
  from same(1) [of b qn None] same(2) [of b2 50] same(3) [of b3 qn] s
  have "same_view v b b1" "same_view v b2 b3" "same_view v b3 b'" by simp_all
  moreover have "bk_bound v b2 = insert (downExchangeName, key, qn) (bk_bound v b1) \<and> bk_queue v b2 = bk_queue v b1"
    using amqp s(2) unfolding amqp_laws_def by metis
  ultimately show ?thesis by (simp add: same_view_def)
qed

end

interpretation mem_mq: amqp_broker mem_amqp mem_view
  by unfold_locales (rule mem_amqp_laws)

section \<open>Properties\<close>

text \<open>
  Both payloads survive the queue: what one side marshals the other unmarshals unchanged, for
  every message, whatever its ids (negative ones included) and text.
\<close>

theorem payload_roundtrip:
  "unmarshal_upload (Some (marshal_upload p)) = Inr p \<and> unmarshal_down (Some (marshal_down d)) = Inr d"
  by simp

text \<open>
  Publishing takes the channels of the pool in turn: five calls in a row use five different
  channels, each one of the pool, as long as the counter does not pass \<open>2 ^ 64\<close> on the way.
\<close>

theorem publish_pool_round_robin:
  assumes "unat idx + 5 < 2 ^ 64"
  shows "map (\<lambda>i. snd (getPublishCh (idx + of_nat i))) [0..<5] = map (\<lambda>i. (unat idx + 1 + i) mod 5) [0..<5]
    \<and> distinct (map (\<lambda>i. snd (getPublishCh (idx + of_nat i))) [0..<5])"
proof -
  have ch: "snd (getPublishCh (idx + of_nat i)) = (unat idx + 1 + i) mod 5" if "i < 5" for i
  proof -
    have "idx + of_nat i + 1 = (of_nat (unat idx + 1 + i) :: u64)" by simp
    moreover have "unat idx + 1 + i < 2 ^ 64" using assms that by linarith
    ultimately have "unat (idx + of_nat i + 1) = unat idx + 1 + i" by (simp only: unat_small)
    then show ?thesis by (simp add: getPublishCh_def publishPoolSize_def unat_mod)
  qed
  have "map (\<lambda>i. snd (getPublishCh (idx + of_nat i))) [0..<5] = map (\<lambda>i. (unat idx + 1 + i) mod 5) [0..<5]"
    by (rule map_cong) (simp_all only: ch set_upt atLeastLessThan_iff)
  moreover have "distinct (map (\<lambda>i. (n + i) mod 5) [0..<5])" for n :: nat
  proof -
    have "inj_on (\<lambda>i. (n + i) mod 5) {0..<5}"
    proof (rule inj_onI)
      fix i j :: nat assume "i \<in> {0..<5}" "j \<in> {0..<5}" "(n + i) mod 5 = (n + j) mod 5"
      then have "i < 5" "j < 5" "(n + i) mod 5 = (n + j) mod 5" by simp_all
      then have "i < 5" "j < 5" "(int n + int i) mod 5 = (int n + int j) mod 5"
        by (simp, simp, metis of_nat_add of_nat_mod of_nat_numeral)
      then have "i < 5" "j < 5" "5 dvd int i - int j" by (simp_all add: mod_eq_dvd_iff)
      then show "i = j" by presburger
    qed
    then show ?thesis by (simp add: distinct_map)
  qed
  ultimately show ?thesis by (simp only: simp_thms)
qed

lemma publish_pool_round_robin_witness:
  "map (\<lambda>i. snd (getPublishCh (0 + of_nat i))) [0..<5] = [1, 2, 3, 4, 0]"
  using conjunct1 [OF publish_pool_round_robin [of 0]] by (simp add: upt_rec)

lemma steps_done_all: "steps_done steps b \<le> length steps \<and> (snd (run_setup steps b) = None \<longleftrightarrow> steps_done steps b = length steps)"
  by (induction steps b rule: steps_done.induct) (auto split: prod.splits option.splits)

lemma step_opens_iff [simp]:
  "step_opens j = Some Connection \<longleftrightarrow> j = 0" "step_opens j = Some ConsumeChannel \<longleftrightarrow> j = 1"
  "step_opens j = Some (PublishChannel i) \<longleftrightarrow> j = 7 + i"
  by (auto simp: step_opens_def)

lemma closes_what_is_open:
  assumes "k \<le> 12"
  shows "set (mq_Close (mq_assigned k)) = {h. \<exists>j < k. step_opens j = Some h} \<and> distinct (mq_Close (mq_assigned k))
    \<and> (0 < k \<longrightarrow> last (mq_Close (mq_assigned k)) = Connection)"
proof -
  have "h \<in> set (mq_Close (mq_assigned k)) \<longleftrightarrow> (\<exists>j < k. step_opens j = Some h)" for h
    using assms by (cases h) (auto simp: mq_Close_def mq_assigned_def publishPoolSize_def)
  then have "set (mq_Close (mq_assigned k)) = {h. \<exists>j < k. step_opens j = Some h}" by blast
  moreover have "distinct (mq_Close (mq_assigned k)) \<and> (0 < k \<longrightarrow> last (mq_Close (mq_assigned k)) = Connection)"
    by (auto simp: mq_Close_def mq_assigned_def distinct_map inj_on_def)
  ultimately show ?thesis by blast
qed

text \<open>
  \<open>Close\<close> closes what \<open>InitRabbitMQ\<close> has opened: after a start that got any number of steps far, it closes each
  channel and the connection that was opened, once, and nothing else, the connection last; after a start
  without an error these are the five publishing channels, the consuming one and the connection.
\<close>

theorem close_matches_init:
  "set (mq_Close (mq_assigned (steps_done (rabbit_steps am dial) b))) =
      {h. \<exists>k < steps_done (rabbit_steps am dial) b. step_opens k = Some h}
    \<and> distinct (mq_Close (mq_assigned (steps_done (rabbit_steps am dial) b)))
    \<and> (0 < steps_done (rabbit_steps am dial) b \<longrightarrow> last (mq_Close (mq_assigned (steps_done (rabbit_steps am dial) b))) = Connection)
    \<and> (snd (InitRabbitMQ am dial b) = None \<longrightarrow>
        mq_Close (mq_assigned (steps_done (rabbit_steps am dial) b)) = map PublishChannel [0..<5] @ [ConsumeChannel, Connection])"
proof -
  have len: "length (rabbit_steps am dial) = 12" by (simp add: rabbit_steps_def publishPoolSize_def)
  with steps_done_all [of "rabbit_steps am dial" b] have le: "steps_done (rabbit_steps am dial) b \<le> 12"
    and all: "snd (InitRabbitMQ am dial b) = None \<longleftrightarrow> steps_done (rabbit_steps am dial) b = 12"
    by (simp_all add: InitRabbitMQ_def)
  have "mq_Close (mq_assigned 12) = map PublishChannel [0..<5] @ [ConsumeChannel, Connection]"
    by (simp add: mq_Close_def mq_assigned_def publishPoolSize_def upt_rec)
  with all closes_what_is_open [OF le] show ?thesis by simp
qed

text \<open>The gateways that have started their consumer, in order.\<close>

fun start_gateways :: "'b amqp_ops \<Rightarrow> gostring list \<Rightarrow> 'b \<Rightarrow> 'b \<times> goerror option" where
  "start_gateways am [] b = (b, None)"
| "start_gateways am (a # as) b =
     (case ConsumeDownQueue am (''gateway.queue.'' @ a) a b of
        (b', Some e) \<Rightarrow> (b', Some e)
      | (b', None) \<Rightarrow> start_gateways am as b')"

lemma start_gateways_bound:
  assumes "amqp_laws am v" and "start_gateways am as b = (b', None)"
  shows "bk_bound v b' = bk_bound v b \<union> (\<lambda>a. (downExchangeName, a, ''gateway.queue.'' @ a)) ` set as
    \<and> bk_queue v b' = bk_queue v b"
  using assms(2)
proof (induction as arbitrary: b)
  case (Cons a as)
  then obtain b1 where b1: "ConsumeDownQueue am (''gateway.queue.'' @ a) a b = (b1, None)"
    "start_gateways am as b1 = (b', None)" by (auto split: prod.splits option.splits)
  from amqp_broker.consume_down_binds [OF amqp_broker.intro [OF assms(1)] b1(1)] Cons.IH [OF b1(2)]
  show ?case by simp
qed simp

text \<open>
  A downstream message reaches the gateway it is addressed to and no other. With gateways
  started on a broker that had no downstream bindings, a successful \<open>PublishDown\<close> for address
  \<open>a\<close> puts the message in the queue of gateway \<open>a\<close> if that gateway has started, leaves all
  other queues as they are, and is silently dropped by the broker if it has not.
\<close>

theorem down_routing_exact:
  assumes "amqp_laws am v" and "\<forall>key qn. (downExchangeName, key, qn) \<notin> bk_bound v b"
    and "start_gateways am as b = (b1, None)"
    and "PublishDown am a body \<lparr>mq_broker = b1, publishIdx = idx\<rparr> = (q', None)"
  shows "bk_queue v (mq_broker q') q =
    bk_queue v b q @ (if a \<in> set as \<and> q = ''gateway.queue.'' @ a then [body] else [])"
proof -
  note bound = start_gateways_bound [OF assms(1,3)]
  have "bk_queue v (mq_broker q') q = routed v downExchangeName a body b1 q"
    using amqp_broker.publish_routed [OF amqp_broker.intro [OF assms(1)], of downExchangeName a body _ q'] assms(4)
    by (force simp: PublishDown_def)
  with bound assms(2) show ?thesis by (auto simp: routed_def)
qed

lemma down_routing_exact_witness:
  "let b = \<lparr>mb_queues = [], mb_bindings = [], mb_faults = []\<rparr>;
       b1 = fst (start_gateways mem_amqp [''g1'', ''g2''] b);
       q = fst (PublishDown mem_amqp ''g2'' JNull \<lparr>mq_broker = b1, publishIdx = 0\<rparr>)
   in bk_queue mem_view (mq_broker q) ''gateway.queue.g2'' = [JNull] \<and> bk_queue mem_view (mq_broker q) ''gateway.queue.g1'' = []"
proof -
  let ?b = "\<lparr>mb_queues = [], mb_bindings = [], mb_faults = []\<rparr>"
  let ?b1 = "fst (start_gateways mem_amqp [''g1'', ''g2''] ?b)"
  let ?q = "fst (PublishDown mem_amqp ''g2'' JNull \<lparr>mq_broker = ?b1, publishIdx = 0\<rparr>)"
  have s: "start_gateways mem_amqp [''g1'', ''g2''] ?b = (?b1, None)"
    by (simp add: ConsumeDownQueue_def mem_amqp_def mb_fault_def)
  have p: "PublishDown mem_amqp ''g2'' JNull \<lparr>mq_broker = ?b1, publishIdx = 0\<rparr> = (?q, None)"
    by (simp add: ConsumeDownQueue_def mem_amqp_def mb_fault_def PublishDown_def publish_on_def getPublishCh_def)
  have free: "\<forall>key qn. (downExchangeName, key, qn) \<notin> bk_bound mem_view ?b" by (simp add: mem_view_def)
  note routed = down_routing_exact [OF mem_amqp_laws free s p]
  have "bk_queue mem_view (mq_broker ?q) ''gateway.queue.g2'' = [JNull]"
    by (subst routed) (simp add: mem_view_def)
  moreover have "bk_queue mem_view (mq_broker ?q) ''gateway.queue.g1'' = []"
    by (subst routed) (simp add: mem_view_def)
  ultimately show ?thesis by (simp only: Let_def simp_thms)
qed

end
