(* ===== verification/Redis.thy ===== *)
theory Redis
  imports Json
begin

text \<open>
  Redis as the gateway and the logic server use it (\<open>apps/pkg/cache/redis_client.go\<close> hands out
  the client): the routing table \<open>route:user:<id>\<close> and the sequence counters. The server and
  its client library are not part of the repository: \<open>redis_ops\<close> is what the sources call, on a
  state \<open>'r\<close>, and \<open>redis_laws\<close> what they rely on. Deadlines of keys are in theory
  \<open>Presence\<close>; here none passes. A command that fails may have taken effect or not.
\<close>

record 'r redis_ops =
  rd_get :: "gostring \<Rightarrow> 'r \<Rightarrow> 'r \<times> (gostring option) result"
  rd_set :: "gostring \<Rightarrow> gostring \<Rightarrow> int \<Rightarrow> 'r \<Rightarrow> 'r \<times> goerror option"
  rd_expire :: "gostring \<Rightarrow> int \<Rightarrow> 'r \<Rightarrow> 'r \<times> goerror option"
  rd_del :: "gostring \<Rightarrow> 'r \<Rightarrow> 'r \<times> goerror option"
  rd_incr :: "gostring \<Rightarrow> 'r \<Rightarrow> 'r \<times> i64 result"
  rd_value :: "'r \<Rightarrow> gostring \<Rightarrow> gostring option"
  rd_counter :: "'r \<Rightarrow> gostring \<Rightarrow> i64"

definition redis_laws :: "'r redis_ops \<Rightarrow> bool" where
  "redis_laws rd \<longleftrightarrow>
     (\<forall>k r r' res. rd_get rd k r = (r', res) \<longrightarrow>
        rd_value rd r' = rd_value rd r \<and> rd_counter rd r' = rd_counter rd r
        \<and> (\<forall>v. res = Inr v \<longrightarrow> v = rd_value rd r k))
   \<and> (\<forall>k v d r r' e. rd_set rd k v d r = (r', e) \<longrightarrow>
        rd_counter rd r' = rd_counter rd r \<and>
        (if e = None then rd_value rd r' = (rd_value rd r)(k \<mapsto> v)
         else rd_value rd r' = rd_value rd r \<or> rd_value rd r' = (rd_value rd r)(k \<mapsto> v)))
   \<and> (\<forall>k d r r' e. 0 < d \<longrightarrow> rd_expire rd k d r = (r', e) \<longrightarrow>
        rd_counter rd r' = rd_counter rd r \<and> rd_value rd r' = rd_value rd r)
   \<and> (\<forall>k r r' e. rd_del rd k r = (r', e) \<longrightarrow>
        rd_counter rd r' = rd_counter rd r \<and>
        (if e = None then rd_value rd r' = (rd_value rd r)(k := None)
         else rd_value rd r' = rd_value rd r \<or> rd_value rd r' = (rd_value rd r)(k := None)))
   \<and> (\<forall>k r r' res. rd_incr rd k r = (r', res) \<longrightarrow>
        rd_value rd r' = rd_value rd r \<and>
        (\<forall>j. j \<noteq> k \<longrightarrow> rd_counter rd r' j = rd_counter rd r j) \<and>
        (case res of
           Inr n \<Rightarrow> n = rd_counter rd r k + 1 \<and> rd_counter rd r' k = n
         | Inl e \<Rightarrow> rd_counter rd r' k = rd_counter rd r k \<or> rd_counter rd r' k = rd_counter rd r k + 1))"

text \<open>A Redis in memory with a script of failures.\<close>

record mem_redis =
  mr_values :: "(gostring \<times> gostring) list"
  mr_counters :: "(gostring \<times> i64) list"
  mr_faults :: "goerror option list"

definition mr_fault :: "mem_redis \<Rightarrow> mem_redis \<times> goerror option" where
  "mr_fault r = (case mr_faults r of [] \<Rightarrow> (r, None) | f # fs \<Rightarrow> (r\<lparr>mr_faults := fs\<rparr>, f))"

definition mr_counter :: "mem_redis \<Rightarrow> gostring \<Rightarrow> i64" where
  "mr_counter r k = (case map_of (mr_counters r) k of None \<Rightarrow> 0 | Some n \<Rightarrow> n)"

definition mem_redis_ops :: "mem_redis redis_ops" where
  "mem_redis_ops =
     \<lparr>rd_get = \<lambda>k r. (case mr_fault r of (r1, Some e) \<Rightarrow> (r1, Inl e) | (r1, None) \<Rightarrow> (r1, Inr (map_of (mr_values r1) k))),
      rd_set = \<lambda>k v d r.
        (case mr_fault r of
           (r1, Some e) \<Rightarrow> (r1, Some e)
         | (r1, None) \<Rightarrow> (r1\<lparr>mr_values := (k, v) # mr_values r1\<rparr>, None)),
      rd_expire = \<lambda>k d. mr_fault,
      rd_del = \<lambda>k r.
        (case mr_fault r of
           (r1, Some e) \<Rightarrow> (r1, Some e)
         | (r1, None) \<Rightarrow> (r1\<lparr>mr_values := filter (\<lambda>p. fst p \<noteq> k) (mr_values r1)\<rparr>, None)),
      rd_incr = \<lambda>k r.
        (case mr_fault r of
           (r1, Some e) \<Rightarrow> (r1, Inl e)
         | (r1, None) \<Rightarrow>
             (let n = mr_counter r1 k + 1 in (r1\<lparr>mr_counters := (k, n) # mr_counters r1\<rparr>, Inr n))),
      rd_value = \<lambda>r. map_of (mr_values r),
      rd_counter = mr_counter\<rparr>"

lemma mr_fault_same: "mr_fault r = (r1, f) \<Longrightarrow> mr_values r1 = mr_values r \<and> mr_counters r1 = mr_counters r"
  by (auto simp: mr_fault_def split: list.splits)

lemma map_of_filter_key: "map_of (filter (\<lambda>p. fst p \<noteq> k) ps) = (map_of ps)(k := None)"
  by (induction ps) auto

lemma mem_redis_laws: "redis_laws mem_redis_ops"
  unfolding redis_laws_def
  by (auto simp: mem_redis_ops_def mr_counter_def map_of_filter_key Let_def dest!: mr_fault_same
      split: prod.splits option.splits sum.splits)

locale redis_client =
  fixes rd :: "'r redis_ops"
  assumes redis: "redis_laws rd"
begin

lemma get_value: "rd_get rd k r = (r', Inr v) \<Longrightarrow> v = rd_value rd r k"
  using redis unfolding redis_laws_def by metis

lemma get_same: "rd_get rd k r = (r', res) \<Longrightarrow> rd_value rd r' = rd_value rd r \<and> rd_counter rd r' = rd_counter rd r"
  using redis unfolding redis_laws_def by metis

lemma set_value: "rd_set rd k v d r = (r', None) \<Longrightarrow> rd_value rd r' = (rd_value rd r)(k \<mapsto> v)"
  using redis unfolding redis_laws_def by metis

lemma del_value: "rd_del rd k r = (r', None) \<Longrightarrow> rd_value rd r' = (rd_value rd r)(k := None)"
  using redis unfolding redis_laws_def by metis

lemma incr_value:
  "rd_incr rd k r = (r', Inr n) \<Longrightarrow> n = rd_counter rd r k + 1 \<and> rd_counter rd r' k = n
     \<and> (\<forall>j. j \<noteq> k \<longrightarrow> rd_counter rd r' j = rd_counter rd r j)"
  using redis unfolding redis_laws_def by (auto split: sum.splits)

end

interpretation mem_cache: redis_client mem_redis_ops
  by unfold_locales (rule mem_redis_laws)

text \<open>The key of a user's gateway.\<close>

definition route_key :: "i64 \<Rightarrow> gostring" where
  "route_key uid = ''route:user:'' @ fmt_int64 uid"

lemma route_key_inj [simp]: "route_key u = route_key w \<longleftrightarrow> u = w"
  by (simp add: route_key_def)

end
