(* ===== verification/Messages.thy ===== *)
theory Messages
  imports Snowflake "HOL-Library.Multiset"
begin

text \<open>
  The message table and the RPC service on it: \<open>apps/logic/models/messages.go\<close>,
  \<open>apps/logic/dao/messages.go\<close>, \<open>apps/logic/dao/group_members.go\<close> and
  \<open>apps/logic/service/chat_service.go\<close>.

  gorm and MySQL are not part of the repository. What the sources call is the record
  \<open>table_ops\<close>, on a state \<open>'db\<close> of the database; \<open>table_laws\<close> states what they rely on. A
  failing statement may or may not have taken effect.
\<close>

section \<open>Tables\<close>

record ('db, 'r) table_ops =
  tb_create :: "'r \<Rightarrow> 'db \<Rightarrow> 'db \<times> goerror option"
  tb_find :: "('r \<Rightarrow> bool) \<Rightarrow> 'db \<Rightarrow> 'db \<times> ('r list) result"
  tb_updates :: "('r \<Rightarrow> bool) \<Rightarrow> ('r \<Rightarrow> 'r) \<Rightarrow> 'db \<Rightarrow> 'db \<times> goerror option"
  tb_rows :: "'db \<Rightarrow> 'r list"

definition update_rows :: "('r \<Rightarrow> bool) \<Rightarrow> ('r \<Rightarrow> 'r) \<Rightarrow> 'r list \<Rightarrow> 'r list" where
  "update_rows P f rs = map (\<lambda>r. if P r then f r else r) rs"

text \<open>\<open>key\<close> is the primary key: unique, and a second row with it is refused.\<close>

definition table_laws :: "('r \<Rightarrow> 'k) \<Rightarrow> ('db, 'r) table_ops \<Rightarrow> bool" where
  "table_laws key t \<longleftrightarrow>
     (\<forall>r db db' e. tb_create t r db = (db', e) \<longrightarrow>
        (if e = None then key r \<notin> key ` set (tb_rows t db) \<and> tb_rows t db' = tb_rows t db @ [r]
         else tb_rows t db' = tb_rows t db
              \<or> key r \<notin> key ` set (tb_rows t db) \<and> tb_rows t db' = tb_rows t db @ [r]))
   \<and> (\<forall>P db db' res. tb_find t P db = (db', res) \<longrightarrow>
        tb_rows t db' = tb_rows t db \<and> (\<forall>rs. res = Inr rs \<longrightarrow> mset rs = mset (filter P (tb_rows t db))))
   \<and> (\<forall>P f db db' e. (\<forall>r. key (f r) = key r) \<longrightarrow> tb_updates t P f db = (db', e) \<longrightarrow>
        (if e = None then tb_rows t db' = update_rows P f (tb_rows t db)
         else tb_rows t db' = tb_rows t db \<or> tb_rows t db' = update_rows P f (tb_rows t db)))"

text \<open>
  A table in memory that obeys the laws, with a script of failures: each statement consumes an
  entry, \<open>Some e\<close> makes it fail before it takes effect.
\<close>

record 'r mem_db =
  mem_rows :: "'r list"
  mem_faults :: "goerror option list"

definition next_fault :: "'r mem_db \<Rightarrow> 'r mem_db \<times> goerror option" where
  "next_fault db =
     (case mem_faults db of [] \<Rightarrow> (db, None) | f # fs \<Rightarrow> (db\<lparr>mem_faults := fs\<rparr>, f))"

definition mem_table :: "('r \<Rightarrow> 'k) \<Rightarrow> ('r mem_db, 'r) table_ops" where
  "mem_table key =
     \<lparr>tb_create = \<lambda>r db.
        (case next_fault db of
           (db1, Some e) \<Rightarrow> (db1, Some e)
         | (db1, None) \<Rightarrow>
             if list_ex (\<lambda>x. key x = key r) (mem_rows db1) then (db1, Some ''Duplicate entry'')
             else (db1\<lparr>mem_rows := mem_rows db1 @ [r]\<rparr>, None)),
      tb_find = \<lambda>P db.
        (case next_fault db of
           (db1, Some e) \<Rightarrow> (db1, Inl e)
         | (db1, None) \<Rightarrow> (db1, Inr (filter P (mem_rows db1)))),
      tb_updates = \<lambda>P f db.
        (case next_fault db of
           (db1, Some e) \<Rightarrow> (db1, Some e)
         | (db1, None) \<Rightarrow> (db1\<lparr>mem_rows := update_rows P f (mem_rows db1)\<rparr>, None)),
      tb_rows = mem_rows\<rparr>"

lemma next_fault_rows [simp]: "next_fault db = (db1, f) \<Longrightarrow> mem_rows db1 = mem_rows db"
  by (auto simp: next_fault_def split: list.splits)

lemma mem_table_laws: "table_laws key (mem_table key)"
  unfolding table_laws_def
  by (auto simp: mem_table_def list_ex_iff image_iff split: prod.splits option.splits if_splits)

locale db_table =
  fixes key :: "'r \<Rightarrow> 'k" and t :: "('db, 'r) table_ops"
  assumes laws: "table_laws key t"
begin

lemma create_ok: "tb_create t r db = (db', None) \<Longrightarrow> key r \<notin> key ` set (tb_rows t db) \<and> tb_rows t db' = tb_rows t db @ [r]"
  using laws unfolding table_laws_def by metis

lemma create_any:
  "tb_create t r db = (db', e) \<Longrightarrow> tb_rows t db' = tb_rows t db
     \<or> key r \<notin> key ` set (tb_rows t db) \<and> tb_rows t db' = tb_rows t db @ [r]"
  using laws unfolding table_laws_def by metis

lemma create_duplicate:
  "tb_create t r db = (db', e) \<Longrightarrow> key r \<in> key ` set (tb_rows t db) \<Longrightarrow> e \<noteq> None \<and> tb_rows t db' = tb_rows t db"
  using laws unfolding table_laws_def by metis

lemma find_rows: "tb_find t P db = (db', res) \<Longrightarrow> tb_rows t db' = tb_rows t db"
  using laws unfolding table_laws_def by metis

lemma find_ok: "tb_find t P db = (db', Inr rs) \<Longrightarrow> mset rs = mset (filter P (tb_rows t db))"
  using laws unfolding table_laws_def by metis

lemma updates_ok:
  "(\<And>r. key (f r) = key r) \<Longrightarrow> tb_updates t P f db = (db', None) \<Longrightarrow> tb_rows t db' = update_rows P f (tb_rows t db)"
  using laws unfolding table_laws_def by metis

lemma updates_any:
  "(\<And>r. key (f r) = key r) \<Longrightarrow> tb_updates t P f db = (db', e) \<Longrightarrow>
     tb_rows t db' = tb_rows t db \<or> tb_rows t db' = update_rows P f (tb_rows t db)"
  using laws unfolding table_laws_def by metis

end

section \<open>Messages\<close>

type_synonym i8 = "8 word"

record message =
  MsgId :: i64
  SeqId :: i64
  SenderId :: i64
  ReceiverId :: i64
  GroupId :: i64
  IsRead :: bool
  Content :: gostring
  SendStatus :: i8

definition SendStatusUnsent :: i8 where "SendStatusUnsent = 0"
definition SendStatusSentUnconfirmed :: i8 where "SendStatusSentUnconfirmed = 1"
definition SendStatusSentConfirmed :: i8 where "SendStatusSentConfirmed = 2"

lemmas send_status = SendStatusUnsent_def SendStatusSentUnconfirmed_def SendStatusSentConfirmed_def

text \<open>\<open>NewMessages\<close>, with the id its snowflake generator gives.\<close>

definition NewMessages :: "i64 \<Rightarrow> i64 \<Rightarrow> i64 \<Rightarrow> i64 \<Rightarrow> gostring \<Rightarrow> bool \<Rightarrow> message" where
  "NewMessages snow senderId receiverId groupId content isRead =
     \<lparr>MsgId = snow, SeqId = 0, SenderId = senderId, ReceiverId = receiverId, GroupId = groupId,
      IsRead = isRead, Content = content, SendStatus = SendStatusUnsent\<rparr>"

type_synonym 'db msg_table = "('db, message) table_ops"

definition InsertMessage :: "'db msg_table \<Rightarrow> message \<Rightarrow> 'db \<Rightarrow> 'db \<times> goerror option" where
  "InsertMessage t m db = tb_create t m db"

definition unread_by :: "i64 \<Rightarrow> message \<Rightarrow> bool" where
  "unread_by receiverId m \<longleftrightarrow> ReceiverId m = receiverId \<and> \<not> IsRead m"

definition confirm :: "message \<Rightarrow> message" where
  "confirm m = m\<lparr>IsRead := True, SendStatus := SendStatusSentConfirmed\<rparr>"

definition GetUnreadMessages :: "'db msg_table \<Rightarrow> i64 \<Rightarrow> 'db \<Rightarrow> 'db \<times> (message list) result" where
  "GetUnreadMessages t receiverId db = tb_find t (unread_by receiverId) db"

definition MarkMessagesAsRead :: "'db msg_table \<Rightarrow> i64 \<Rightarrow> 'db \<Rightarrow> 'db \<times> goerror option" where
  "MarkMessagesAsRead t receiverId db = tb_updates t (unread_by receiverId) confirm db"

definition MarkMessageAsRead :: "'db msg_table \<Rightarrow> i64 \<Rightarrow> 'db \<Rightarrow> 'db \<times> goerror option" where
  "MarkMessageAsRead t msgId db = tb_updates t (\<lambda>m. MsgId m = msgId \<and> \<not> IsRead m) confirm db"

definition MarkSendTransportDelivered :: "'db msg_table \<Rightarrow> i64 \<Rightarrow> 'db \<Rightarrow> 'db \<times> goerror option" where
  "MarkSendTransportDelivered t msgId db =
     tb_updates t (\<lambda>m. MsgId m = msgId \<and> SendStatus m = SendStatusUnsent)
       (\<lambda>m. m\<lparr>SendStatus := SendStatusSentUnconfirmed\<rparr>) db"

record group_member =
  gm_GroupID :: i64
  gm_UserID :: i64

definition GetGroupMembers :: "('db, group_member) table_ops \<Rightarrow> i64 \<Rightarrow> 'db \<Rightarrow> 'db \<times> (i64 list) result" where
  "GetGroupMembers t groupID db =
     (case tb_find t (\<lambda>g. gm_GroupID g = groupID) db of
        (db', Inl e) \<Rightarrow> (db', Inl e)
      | (db', Inr gs) \<Rightarrow> (db', Inr (map gm_UserID gs)))"

section \<open>The service\<close>

record message_item =
  mi_MsgId :: i64
  mi_SenderId :: i64
  mi_GroupId :: i64
  mi_Content :: gostring
  mi_SeqId :: i64
  mi_SendStatus :: u32

definition to_item :: "message \<Rightarrow> message_item" where
  "to_item m =
     \<lparr>mi_MsgId = MsgId m, mi_SenderId = SenderId m, mi_GroupId = GroupId m, mi_Content = Content m,
      mi_SeqId = SeqId m, mi_SendStatus = scast (SendStatus m)\<rparr>"

definition SyncUnread :: "'db msg_table \<Rightarrow> i64 \<Rightarrow> 'db \<Rightarrow> 'db \<times> (message_item list) result" where
  "SyncUnread t receiverId db =
     (case GetUnreadMessages t receiverId db of
        (db', Inl e) \<Rightarrow> (db', Inl e)
      | (db', Inr ms) \<Rightarrow> (db', Inr (map to_item ms)))"

text \<open>The three operations below answer with a flag and an error that agree.\<close>

definition NotifyDelivered :: "'db msg_table \<Rightarrow> i64 \<Rightarrow> 'db \<Rightarrow> 'db \<times> bool \<times> goerror option" where
  "NotifyDelivered t msgId db =
     (case MarkSendTransportDelivered t msgId db of
        (db', Some e) \<Rightarrow> (db', False, Some e)
      | (db', None) \<Rightarrow> (db', True, None))"

definition AckMessage :: "'db msg_table \<Rightarrow> i64 \<Rightarrow> 'db \<Rightarrow> 'db \<times> bool \<times> goerror option" where
  "AckMessage t msgId db =
     (case MarkMessageAsRead t msgId db of
        (db', Some e) \<Rightarrow> (db', False, Some e)
      | (db', None) \<Rightarrow> (db', True, None))"

definition ReadMessages :: "'db msg_table \<Rightarrow> i64 \<Rightarrow> 'db \<Rightarrow> 'db \<times> bool \<times> goerror option" where
  "ReadMessages t receiverId db =
     (case MarkMessagesAsRead t receiverId db of
        (db', Some e) \<Rightarrow> (db', False, Some e)
      | (db', None) \<Rightarrow> (db', True, None))"

interpretation mem: db_table key "mem_table key" for key :: "'r \<Rightarrow> 'k"
  by unfold_locales (rule mem_table_laws)

section \<open>The life of a message\<close>

text \<open>The statements that write the table; \<open>StInsert\<close> is given what \<open>NewMessages\<close> built.\<close>

datatype msg_stmt = StInsert message | StDelivered i64 | StAck i64 | StReadAll i64

definition run_stmt :: "'db msg_table \<Rightarrow> msg_stmt \<Rightarrow> 'db \<Rightarrow> 'db" where
  "run_stmt t st db =
     (case st of
        StInsert m \<Rightarrow> fst (InsertMessage t m db)
      | StDelivered i \<Rightarrow> fst (NotifyDelivered t i db)
      | StAck i \<Rightarrow> fst (AckMessage t i db)
      | StReadAll u \<Rightarrow> fst (ReadMessages t u db))"

definition advances :: "message \<Rightarrow> message \<Rightarrow> bool" where
  "advances m m' \<longleftrightarrow> m' = m\<lparr>IsRead := IsRead m', SendStatus := SendStatus m'\<rparr>
     \<and> unat (SendStatus m) \<le> unat (SendStatus m') \<and> (IsRead m \<longrightarrow> IsRead m')"

definition status_ok :: "message \<Rightarrow> bool" where
  [inv_defs]: "status_ok m \<longleftrightarrow> unat (SendStatus m) \<le> 2 \<and> (SendStatus m = SendStatusSentConfirmed \<longrightarrow> IsRead m)"

lemma advances_refl [simp]: "advances m m"
  by (simp add: advances_def)

lemma advances_trans: "advances a b \<Longrightarrow> advances b c \<Longrightarrow> advances a c"
  by (cases a; cases b; cases c) (auto simp: advances_def)

lemma confirm_advances: "status_ok m \<Longrightarrow> advances m (confirm m) \<and> status_ok (confirm m)"
  by (simp add: advances_def confirm_def status_ok_def send_status)

lemma delivered_advances:
  "status_ok m \<Longrightarrow> SendStatus m = SendStatusUnsent \<Longrightarrow>
   advances m (m\<lparr>SendStatus := SendStatusSentUnconfirmed\<rparr>) \<and> status_ok (m\<lparr>SendStatus := SendStatusSentUnconfirmed\<rparr>)"
  by (simp add: advances_def status_ok_def send_status)

text \<open>How a table may change: old rows advance in place, new rows come after them.\<close>

definition grows :: "message list \<Rightarrow> message list \<Rightarrow> bool" where
  "grows rs rs' \<longleftrightarrow> length rs \<le> length rs' \<and> (\<forall>i < length rs. advances (rs ! i) (rs' ! i)) \<and> list_all status_ok rs'"

lemma grows_refl: "list_all status_ok rs \<Longrightarrow> grows rs rs"
  by (simp add: grows_def)

lemma grows_trans: "grows a b \<Longrightarrow> grows b c \<Longrightarrow> grows a c"
  unfolding grows_def by (metis advances_trans le_trans order_less_le_trans)

lemma grows_snoc: "list_all status_ok rs \<Longrightarrow> status_ok m \<Longrightarrow> grows rs (rs @ [m])"
  by (simp add: grows_def nth_append)

lemma grows_update:
  assumes "list_all status_ok rs" and "\<And>m. status_ok m \<Longrightarrow> P m \<Longrightarrow> advances m (f m) \<and> status_ok (f m)"
  shows "grows rs (update_rows P f rs)"
proof -
  have ok: "status_ok (rs ! i)" if "i < length rs" for i using assms(1) that by (simp add: list_all_length)
  show ?thesis
    using assms(2) ok by (auto simp: grows_def update_rows_def list_all_length)
qed

lemma filter_updated_gone: "(\<And>m. P m \<Longrightarrow> \<not> P (f m)) \<Longrightarrow> filter P (update_rows P f rs) = []"
  by (induction rs) (auto simp: update_rows_def)

lemma filter_update_rows:
  "(\<And>m. P m \<Longrightarrow> \<not> Q m \<and> \<not> Q (f m)) \<Longrightarrow> filter Q (update_rows P f rs) = filter Q rs"
  by (induction rs) (auto simp: update_rows_def)

definition stmt_ok :: "msg_stmt \<Rightarrow> bool" where
  "stmt_ok st = (case st of StInsert m \<Rightarrow> SendStatus m = SendStatusUnsent | _ \<Rightarrow> True)"

lemma db_table_of: "table_laws key t \<Longrightarrow> db_table key t"
  by unfold_locales

lemma marks_cases:
  assumes "table_laws MsgId t"
  shows "tb_rows t (fst (MarkMessagesAsRead t u db)) \<in> {tb_rows t db, update_rows (unread_by u) confirm (tb_rows t db)}"
    and "tb_rows t (fst (MarkMessageAsRead t i db)) \<in>
      {tb_rows t db, update_rows (\<lambda>m. MsgId m = i \<and> \<not> IsRead m) confirm (tb_rows t db)}"
    and "tb_rows t (fst (MarkSendTransportDelivered t i db)) \<in>
      {tb_rows t db, update_rows (\<lambda>m. MsgId m = i \<and> SendStatus m = SendStatusUnsent)
         (\<lambda>m. m\<lparr>SendStatus := SendStatusSentUnconfirmed\<rparr>) (tb_rows t db)}"
  using db_table.updates_any [OF db_table_of [OF assms] _ prod.collapse [symmetric]]
  by (simp_all add: MarkMessagesAsRead_def MarkMessageAsRead_def MarkSendTransportDelivered_def confirm_def)

lemma run_stmt_grows:
  assumes laws: "table_laws MsgId t" and "list_all status_ok (tb_rows t db)" and "stmt_ok st"
  shows "grows (tb_rows t db) (tb_rows t (run_stmt t st db))"
proof (cases st)
  case (StInsert m)
  then have "status_ok m" using assms(3) by (simp add: stmt_ok_def status_ok_def send_status)
  with db_table.create_any [OF db_table_of [OF laws], of m db "fst (InsertMessage t m db)" "snd (InsertMessage t m db)"]
    assms(2) StInsert show ?thesis
    by (auto simp: run_stmt_def InsertMessage_def grows_refl grows_snoc)
next
  case (StDelivered i)
  have "fst (NotifyDelivered t i db) = fst (MarkSendTransportDelivered t i db)"
    by (simp add: NotifyDelivered_def split: prod.split option.split)
  moreover have "grows (tb_rows t db) (update_rows (\<lambda>m. MsgId m = i \<and> SendStatus m = SendStatusUnsent)
      (\<lambda>m. m\<lparr>SendStatus := SendStatusSentUnconfirmed\<rparr>) (tb_rows t db))"
    by (rule grows_update [OF assms(2)]) (use delivered_advances in blast)
  ultimately show ?thesis
    using StDelivered marks_cases(3) [OF laws, of i db] grows_refl [OF assms(2)] by (auto simp: run_stmt_def)
next
  case (StAck i)
  have "fst (AckMessage t i db) = fst (MarkMessageAsRead t i db)"
    by (simp add: AckMessage_def split: prod.split option.split)
  moreover have "grows (tb_rows t db) (update_rows (\<lambda>m. MsgId m = i \<and> \<not> IsRead m) confirm (tb_rows t db))"
    by (rule grows_update [OF assms(2)]) (use confirm_advances in blast)
  ultimately show ?thesis
    using StAck marks_cases(2) [OF laws, of i db] grows_refl [OF assms(2)] by (auto simp: run_stmt_def)
next
  case (StReadAll u)
  have "fst (ReadMessages t u db) = fst (MarkMessagesAsRead t u db)"
    by (simp add: ReadMessages_def split: prod.split option.split)
  moreover have "grows (tb_rows t db) (update_rows (unread_by u) confirm (tb_rows t db))"
    by (rule grows_update [OF assms(2)]) (use confirm_advances in blast)
  ultimately show ?thesis
    using StReadAll marks_cases(1) [OF laws, of u db] grows_refl [OF assms(2)] by (auto simp: run_stmt_def)
qed

section \<open>Properties\<close>

text \<open>
  C24. A message only moves forward. Under any sequence of inserts, delivery notices,
  acknowledgements and read-alls, each of which may fail before or after it took effect, no row
  is lost or moved, its ids and content never change, \<open>send_status\<close> never decreases (0, 1, 2),
  a read message stays read, and status 2 is only found on read messages.
\<close>

theorem message_lifecycle_monotone:
  assumes "table_laws MsgId t" and "list_all status_ok (tb_rows t db)" and "list_all stmt_ok sts"
  shows "grows (tb_rows t db) (tb_rows t (fold (run_stmt t) sts db))"
  using assms(2,3)
proof (induction sts arbitrary: db)
  case (Cons st sts)
  from run_stmt_grows [OF assms(1) Cons.prems(1)] Cons.prems(2)
  have now: "grows (tb_rows t db) (tb_rows t (run_stmt t st db))" by simp
  then have "list_all status_ok (tb_rows t (run_stmt t st db))" by (simp add: grows_def)
  with Cons.IH Cons.prems(2) grows_trans [OF now] show ?case by simp
qed (simp add: grows_refl)

definition two_messages :: "message list" where
  "two_messages = [NewMessages 11 1 2 0 ''hello'' False, NewMessages 12 1 2 0 ''again'' False]"

lemma message_lifecycle_monotone_witness:
  "let db = \<lparr>mem_rows = [], mem_faults = []\<rparr>;
       sts = [StInsert (two_messages ! 0), StDelivered 11, StAck 11, StDelivered 11]
   in grows [] (mem_rows (fold (run_stmt (mem_table MsgId)) sts db))"
proof -
  have "list_all stmt_ok [StInsert (two_messages ! 0), StDelivered 11, StAck 11, StDelivered 11]"
    by (simp add: stmt_ok_def two_messages_def NewMessages_def)
  from message_lifecycle_monotone [OF mem_table_laws _ this, of "\<lparr>mem_rows = [], mem_faults = []\<rparr>"]
  show ?thesis by (simp add: mem_table_def)
qed

text \<open>
  Synchronising and reading agree on what is unread. A successful \<open>SyncUnread\<close> returns exactly
  the unread messages of the receiver, each once, and changes nothing; a successful
  \<open>ReadMessages\<close> leaves none unread for the receiver and everybody else's messages as they were.
\<close>

theorem sync_unread_exact:
  assumes "table_laws MsgId t"
  shows "(SyncUnread t u db = (db1, Inr items) \<longrightarrow>
       mset items = mset (map to_item (filter (unread_by u) (tb_rows t db))) \<and> tb_rows t db1 = tb_rows t db)
    \<and> (ReadMessages t u db = (db2, True, None) \<longrightarrow>
       filter (unread_by u) (tb_rows t db2) = []
       \<and> filter (\<lambda>m. ReceiverId m \<noteq> u) (tb_rows t db2) = filter (\<lambda>m. ReceiverId m \<noteq> u) (tb_rows t db))"
proof (intro conjI impI)
  note loc = db_table_of [OF assms]
  assume s: "SyncUnread t u db = (db1, Inr items)"
  then obtain ms where ms: "tb_find t (unread_by u) db = (db1, Inr ms)" "items = map to_item ms"
    by (auto simp: SyncUnread_def GetUnreadMessages_def split: prod.splits sum.splits)
  show "tb_rows t db1 = tb_rows t db" by (rule db_table.find_rows [OF loc ms(1)])
  show "mset items = mset (map to_item (filter (unread_by u) (tb_rows t db)))"
    using db_table.find_ok [OF loc ms(1)] ms(2) by (simp only: mset_map)
next
  assume r: "ReadMessages t u db = (db2, True, None)"
  then have "tb_updates t (unread_by u) confirm db = (db2, None)"
    by (auto simp: ReadMessages_def MarkMessagesAsRead_def split: prod.splits option.splits)
  have rows: "tb_rows t db2 = update_rows (unread_by u) confirm (tb_rows t db)"
    by (rule db_table.updates_ok [OF db_table_of [OF assms] _ \<open>tb_updates t (unread_by u) confirm db = (db2, None)\<close>])
      (simp add: confirm_def)
  show "filter (unread_by u) (tb_rows t db2) = []"
    unfolding rows by (rule filter_updated_gone) (simp add: unread_by_def confirm_def)
  show "filter (\<lambda>m. ReceiverId m \<noteq> u) (tb_rows t db2) = filter (\<lambda>m. ReceiverId m \<noteq> u) (tb_rows t db)"
    unfolding rows by (rule filter_update_rows) (simp add: unread_by_def confirm_def)
qed

lemma sync_unread_exact_witness:
  "let db = \<lparr>mem_rows = two_messages, mem_faults = []\<rparr>; r = ReadMessages (mem_table MsgId) 2 db
   in filter (unread_by 2) (mem_rows (fst r)) = []"
proof -
  let ?db = "\<lparr>mem_rows = two_messages, mem_faults = []\<rparr>"
  have "ReadMessages (mem_table MsgId) 2 ?db = (fst (ReadMessages (mem_table MsgId) 2 ?db), True, None)"
    by (simp add: ReadMessages_def MarkMessagesAsRead_def mem_table_def next_fault_def)
  with sync_unread_exact [OF mem_table_laws, of 2 ?db] show ?thesis by (simp add: mem_table_def Let_def)
qed

end
