(* ===== verification/Logic_Upload.thy ===== *)
theory Logic_Upload
  imports Messages Redis Mq "HOL-Library.Sublist"
begin

text \<open>
  The upstream consumer of the logic server: \<open>apps/logic/service/upload_consumer.go\<close>. A delivery
  is decoded, stored, and handed on to the receiver's gateway when the routing table knows one.
  The result of a delivery is what the consumer tells the broker.

  \<open>lo_next\<close> is \<open>utils.GetSnowflake().Generate()\<close> (theory \<open>Snowflake\<close>) on the generator's state.
\<close>

record ('db, 'r, 'b, 'g) logic_ops =
  lo_msgs :: "'db msg_table"
  lo_members :: "('db, group_member) table_ops"
  lo_redis :: "'r redis_ops"
  lo_amqp :: "'b amqp_ops"
  lo_next :: "'g \<Rightarrow> i64 \<times> 'g"

record ('db, 'r, 'b, 'g) logic =
  lg_db :: 'db
  lg_redis :: 'r
  lg_mq :: "'b mq"
  lg_gen :: 'g

text \<open>\<open>models.NewMessages\<close> draws an id from the generator, which the callers then replace.\<close>

definition new_message ::
    "('db, 'r, 'b, 'g) logic_ops \<Rightarrow> i64 \<Rightarrow> i64 \<Rightarrow> i64 \<Rightarrow> gostring \<Rightarrow> bool \<Rightarrow>
     ('db, 'r, 'b, 'g) logic \<Rightarrow> ('db, 'r, 'b, 'g) logic \<times> message" where
  "new_message ops sender receiver grp content isRead s =
     (case lo_next ops (lg_gen s) of
        (i, g') \<Rightarrow> (s\<lparr>lg_gen := g'\<rparr>, NewMessages i sender receiver grp content isRead))"

definition insert_message ::
    "('db, 'r, 'b, 'g) logic_ops \<Rightarrow> message \<Rightarrow> ('db, 'r, 'b, 'g) logic \<Rightarrow> ('db, 'r, 'b, 'g) logic \<times> goerror option" where
  "insert_message ops m s =
     (case InsertMessage (lo_msgs ops) m (lg_db s) of (db', e) \<Rightarrow> (s\<lparr>lg_db := db'\<rparr>, e))"

definition lookup_route ::
    "('db, 'r, 'b, 'g) logic_ops \<Rightarrow> i64 \<Rightarrow> ('db, 'r, 'b, 'g) logic \<Rightarrow>
     ('db, 'r, 'b, 'g) logic \<times> (gostring option) result" where
  "lookup_route ops uid s =
     (case rd_get (lo_redis ops) (route_key uid) (lg_redis s) of (r', res) \<Rightarrow> (s\<lparr>lg_redis := r'\<rparr>, res))"

definition publish_down ::
    "('db, 'r, 'b, 'g) logic_ops \<Rightarrow> gostring \<Rightarrow> DownPayload \<Rightarrow> ('db, 'r, 'b, 'g) logic \<Rightarrow>
     ('db, 'r, 'b, 'g) logic \<times> goerror option" where
  "publish_down ops addr p s =
     (case PublishDown (lo_amqp ops) addr (marshal_down p) (lg_mq s) of (q', e) \<Rightarrow> (s\<lparr>lg_mq := q'\<rparr>, e))"

definition handleSingleChat ::
    "('db, 'r, 'b, 'g) logic_ops \<Rightarrow> UploadPayload \<Rightarrow> ('db, 'r, 'b, 'g) logic \<Rightarrow>
     ('db, 'r, 'b, 'g) logic \<times> goerror option" where
  "handleSingleChat ops p s =
     (case new_message ops (up_SenderID p) (up_ReceiverID p) (up_GroupID p) (up_Content p) False s of
        (s1, m) \<Rightarrow>
          (case insert_message ops (m\<lparr>MsgId := up_MsgID p, SeqId := up_SeqID p\<rparr>) s1 of
             (s2, Some e) \<Rightarrow> (s2, Some (''[Upload] insert failed: '' @ e))
           | (s2, None) \<Rightarrow>
               (case lookup_route ops (up_ReceiverID p) s2 of
                  (s3, Inl e) \<Rightarrow> (s3, Some (''[Upload] Redis query failed: '' @ e))
                | (s3, Inr None) \<Rightarrow> (s3, None)
                | (s3, Inr (Some addr)) \<Rightarrow>
                    (case publish_down ops addr
                            \<lparr>dp_MsgID = up_MsgID p, dp_SeqID = up_SeqID p, dp_GroupID = 0,
                             dp_SenderID = up_SenderID p, dp_ReceiverID = up_ReceiverID p,
                             dp_Content = up_Content p, dp_ChatType = up_ChatType p\<rparr> s3 of
                       (s4, e) \<Rightarrow> (s4, None)))))"

text \<open>The body of the loop of \<open>handleGroupChat\<close>: every failure only skips the member.\<close>

definition group_member_step ::
    "('db, 'r, 'b, 'g) logic_ops \<Rightarrow> UploadPayload \<Rightarrow> i64 \<Rightarrow> ('db, 'r, 'b, 'g) logic \<Rightarrow> ('db, 'r, 'b, 'g) logic" where
  "group_member_step ops p memberID s =
     (if memberID = up_SenderID p then s
      else
        (case new_message ops (up_SenderID p) memberID (up_GroupID p) (up_Content p) False s of
           (s1, m0) \<Rightarrow>
             (case lo_next ops (lg_gen s1) of
                (i, g') \<Rightarrow>
                  (let m = m0\<lparr>MsgId := i, SeqId := up_SeqID p\<rparr> in
                   (case insert_message ops m (s1\<lparr>lg_gen := g'\<rparr>) of
                      (s2, Some e) \<Rightarrow> s2
                    | (s2, None) \<Rightarrow>
                        (case lookup_route ops memberID s2 of
                           (s3, Inl e) \<Rightarrow> s3
                         | (s3, Inr None) \<Rightarrow> s3
                         | (s3, Inr (Some addr)) \<Rightarrow>
                             fst (publish_down ops addr
                               \<lparr>dp_MsgID = MsgId m, dp_SeqID = up_SeqID p, dp_GroupID = up_GroupID p,
                                dp_SenderID = up_SenderID p, dp_ReceiverID = memberID,
                                dp_Content = up_Content p, dp_ChatType = up_ChatType p\<rparr> s3)))))))"

definition handleGroupChat ::
    "('db, 'r, 'b, 'g) logic_ops \<Rightarrow> UploadPayload \<Rightarrow> ('db, 'r, 'b, 'g) logic \<Rightarrow>
     ('db, 'r, 'b, 'g) logic \<times> goerror option" where
  "handleGroupChat ops p s =
     (case GetGroupMembers (lo_members ops) (up_GroupID p) (lg_db s) of
        (db', Inl e) \<Rightarrow> (s\<lparr>lg_db := db'\<rparr>, Some (''[Upload] query of group members failed: '' @ e))
      | (db', Inr members) \<Rightarrow> (fold (group_member_step ops p) members (s\<lparr>lg_db := db'\<rparr>), None))"

definition handleAIChat ::
    "('db, 'r, 'b, 'g) logic_ops \<Rightarrow> UploadPayload \<Rightarrow> ('db, 'r, 'b, 'g) logic \<Rightarrow>
     ('db, 'r, 'b, 'g) logic \<times> goerror option" where
  "handleAIChat ops p s =
     (case new_message ops (up_SenderID p) (up_ReceiverID p) (up_GroupID p) (up_Content p) True s of
        (s1, m) \<Rightarrow>
          (case insert_message ops (m\<lparr>MsgId := up_MsgID p, SeqId := up_SeqID p\<rparr>) s1 of
             (s2, Some e) \<Rightarrow> (s2, Some (''[Upload] insert of AI message failed: '' @ e))
           | (s2, None) \<Rightarrow> (s2, None)))"

definition handleUploadDelivery ::
    "('db, 'r, 'b, 'g) logic_ops \<Rightarrow> json option \<Rightarrow> ('db, 'r, 'b, 'g) logic \<Rightarrow>
     ('db, 'r, 'b, 'g) logic \<times> disposition" where
  "handleUploadDelivery ops body s =
     (case unmarshal_upload body of
        Inl e \<Rightarrow> (s, Nack False)
      | Inr p \<Rightarrow>
          (let (s', err) =
             (if up_ChatType p = ChatTypeSingle then handleSingleChat ops p s
              else if up_ChatType p = ChatTypeGroup then handleGroupChat ops p s
              else if up_ChatType p = ChatTypeAI then handleAIChat ops p s
              else (s, None))
           in (s', if err = None then Ack else Nack True)))"

section \<open>Lemmas\<close>

text \<open>The row a delivery of a single chat stores, and the message it sends on.\<close>

definition single_row :: "UploadPayload \<Rightarrow> message" where
  "single_row p =
     \<lparr>MsgId = up_MsgID p, SeqId = up_SeqID p, SenderId = up_SenderID p, ReceiverId = up_ReceiverID p,
      GroupId = up_GroupID p, IsRead = False, Content = up_Content p, SendStatus = SendStatusUnsent\<rparr>"

definition single_down :: "UploadPayload \<Rightarrow> DownPayload" where
  "single_down p =
     \<lparr>dp_MsgID = up_MsgID p, dp_SeqID = up_SeqID p, dp_GroupID = 0, dp_SenderID = up_SenderID p,
      dp_ReceiverID = up_ReceiverID p, dp_Content = up_Content p, dp_ChatType = up_ChatType p\<rparr>"

lemma handleSingleChat_unfold:
  "handleSingleChat ops p s =
     (let s1 = s\<lparr>lg_gen := snd (lo_next ops (lg_gen s))\<rparr> in
      case insert_message ops (single_row p) s1 of
        (s2, Some e) \<Rightarrow> (s2, Some (''[Upload] insert failed: '' @ e))
      | (s2, None) \<Rightarrow>
          (case lookup_route ops (up_ReceiverID p) s2 of
             (s3, Inl e) \<Rightarrow> (s3, Some (''[Upload] Redis query failed: '' @ e))
           | (s3, Inr None) \<Rightarrow> (s3, None)
           | (s3, Inr (Some addr)) \<Rightarrow> (fst (publish_down ops addr (single_down p) s3), None)))"
  by (simp add: handleSingleChat_def new_message_def NewMessages_def single_row_def single_down_def Let_def
      split: prod.split option.split sum.split)

lemma insert_message_sel:
  "insert_message ops m s = (s', e) \<Longrightarrow> lg_redis s' = lg_redis s \<and> lg_mq s' = lg_mq s \<and> lg_gen s' = lg_gen s
     \<and> tb_create (lo_msgs ops) m (lg_db s) = (lg_db s', e)"
  by (auto simp: insert_message_def InsertMessage_def split: prod.splits)

lemma lookup_route_sel:
  "lookup_route ops u s = (s', r) \<Longrightarrow> lg_db s' = lg_db s \<and> lg_mq s' = lg_mq s \<and> lg_gen s' = lg_gen s
     \<and> rd_get (lo_redis ops) (route_key u) (lg_redis s) = (lg_redis s', r)"
  by (auto simp: lookup_route_def split: prod.splits)

lemma publish_down_sel:
  "lg_db (fst (publish_down ops a p s)) = lg_db s \<and> lg_redis (fst (publish_down ops a p s)) = lg_redis s
     \<and> lg_mq (fst (publish_down ops a p s)) = fst (PublishDown (lo_amqp ops) a (marshal_down p) (lg_mq s))"
  by (simp add: publish_down_def split: prod.split)

text \<open>The ids the generator hands out from a state on.\<close>

primrec ids_from :: "('g \<Rightarrow> i64 \<times> 'g) \<Rightarrow> 'g \<Rightarrow> nat \<Rightarrow> i64 list" where
  "ids_from nxt g 0 = []"
| "ids_from nxt g (Suc n) = fst (nxt g) # ids_from nxt (snd (nxt g)) n"

lemma ids_from_take: "n \<le> m \<Longrightarrow> ids_from nxt g n = take n (ids_from nxt g m)"
proof (induction n arbitrary: g m)
  case (Suc n)
  then obtain k where "m = Suc k" "n \<le> k" by (cases m) auto
  with Suc.IH show ?case by simp
qed simp

lemma distinct_append_take: "distinct (xs @ ys) \<Longrightarrow> distinct (xs @ take n ys)"
  by (auto dest: in_set_takeD)

definition group_row :: "UploadPayload \<Rightarrow> i64 \<Rightarrow> i64 \<Rightarrow> message" where
  "group_row p i memberID =
     \<lparr>MsgId = i, SeqId = up_SeqID p, SenderId = up_SenderID p, ReceiverId = memberID,
      GroupId = up_GroupID p, IsRead = False, Content = up_Content p, SendStatus = SendStatusUnsent\<rparr>"

definition group_down :: "UploadPayload \<Rightarrow> i64 \<Rightarrow> i64 \<Rightarrow> DownPayload" where
  "group_down p i memberID =
     \<lparr>dp_MsgID = i, dp_SeqID = up_SeqID p, dp_GroupID = up_GroupID p, dp_SenderID = up_SenderID p,
      dp_ReceiverID = memberID, dp_Content = up_Content p, dp_ChatType = up_ChatType p\<rparr>"

lemma group_member_unfold:
  assumes "memberID \<noteq> up_SenderID p"
  shows "group_member_step ops p memberID s =
    (let g1 = snd (lo_next ops (lg_gen s)); i = fst (lo_next ops g1);
         s1 = s\<lparr>lg_gen := snd (lo_next ops g1)\<rparr> in
     case insert_message ops (group_row p i memberID) s1 of
       (s2, Some e) \<Rightarrow> s2
     | (s2, None) \<Rightarrow>
         (case lookup_route ops memberID s2 of
            (s3, Inl e) \<Rightarrow> s3
          | (s3, Inr None) \<Rightarrow> s3
          | (s3, Inr (Some addr)) \<Rightarrow> fst (publish_down ops addr (group_down p i memberID) s3)))"
  using assms
  by (simp add: group_member_step_def new_message_def NewMessages_def group_row_def group_down_def Let_def
      split: prod.split option.split sum.split)

lemma publish_down_gen [simp]: "lg_gen (fst (publish_down ops a p s)) = lg_gen s"
  by (simp add: publish_down_def split: prod.split)

lemma group_member_effect:
  assumes "memberID \<noteq> up_SenderID p"
  shows "\<exists>e. let g1 = snd (lo_next ops (lg_gen s)) in
      tb_create (lo_msgs ops) (group_row p (fst (lo_next ops g1)) memberID) (lg_db s)
        = (lg_db (group_member_step ops p memberID s), e)
      \<and> lg_gen (group_member_step ops p memberID s) = snd (lo_next ops g1)"
proof -
  let ?g1 = "snd (lo_next ops (lg_gen s))"
  let ?m = "group_row p (fst (lo_next ops ?g1)) memberID"
  let ?s1 = "s\<lparr>lg_gen := snd (lo_next ops ?g1)\<rparr>"
  obtain s2 e where i: "insert_message ops ?m ?s1 = (s2, e)" by force
  note ins = insert_message_sel [OF i]
  have "lg_db (group_member_step ops p memberID s) = lg_db s2 \<and> lg_gen (group_member_step ops p memberID s) = lg_gen s2"
    unfolding group_member_unfold [OF assms] Let_def i
    by (auto simp: publish_down_sel dest: lookup_route_sel split: option.split sum.split prod.split)
  with ins show ?thesis by (auto simp: Let_def)
qed

lemma group_member_sender: "group_member_step ops p (up_SenderID p) s = s"
  by (simp add: group_member_step_def)

definition group_rows_of :: "UploadPayload \<Rightarrow> message list \<Rightarrow> bool" where
  "group_rows_of p ms \<longleftrightarrow> (\<forall>m \<in> set ms. m = group_row p (MsgId m) (ReceiverId m))"

lemma group_fold_rows:
  assumes "table_laws MsgId (lo_msgs ops)"
  shows "\<exists>new. tb_rows (lo_msgs ops) (lg_db (fold (group_member_step ops p) members s))
        = tb_rows (lo_msgs ops) (lg_db s) @ new
      \<and> group_rows_of p new \<and> subseq (map ReceiverId new) (filter (\<lambda>u. u \<noteq> up_SenderID p) members)"
proof (induction members arbitrary: s)
  case Nil
  show ?case by (simp add: group_rows_of_def)
next
  case (Cons u us)
  note loc = db_table_of [OF assms]
  show ?case
  proof (cases "u = up_SenderID p")
    case True
    with Cons.IH [of s] show ?thesis by (simp add: group_member_sender)
  next
    case False
    let ?s1 = "group_member_step ops p u s"
    let ?i = "fst (lo_next ops (snd (lo_next ops (lg_gen s))))"
    from group_member_effect [OF False, of ops s] obtain e where
      c: "tb_create (lo_msgs ops) (group_row p ?i u) (lg_db s) = (lg_db ?s1, e)" by (auto simp: Let_def)
    have now: "tb_rows (lo_msgs ops) (lg_db ?s1) = tb_rows (lo_msgs ops) (lg_db s)
        \<or> tb_rows (lo_msgs ops) (lg_db ?s1) = tb_rows (lo_msgs ops) (lg_db s) @ [group_row p ?i u]"
      using db_table.create_any [OF loc c] by blast
    obtain new where new: "tb_rows (lo_msgs ops) (lg_db (fold (group_member_step ops p) us ?s1))
        = tb_rows (lo_msgs ops) (lg_db ?s1) @ new" "group_rows_of p new"
        "subseq (map ReceiverId new) (filter (\<lambda>u. u \<noteq> up_SenderID p) us)" using Cons.IH by blast
    from now show ?thesis
    proof
      assume "tb_rows (lo_msgs ops) (lg_db ?s1) = tb_rows (lo_msgs ops) (lg_db s)"
      with new False show ?thesis by (intro exI [of _ new]) auto
    next
      assume "tb_rows (lo_msgs ops) (lg_db ?s1) = tb_rows (lo_msgs ops) (lg_db s) @ [group_row p ?i u]"
      with new False show ?thesis
        by (intro exI [of _ "group_row p ?i u # new"]) (auto simp: group_rows_of_def group_row_def)
    qed
  qed
qed

text \<open>With a table that takes every fresh row and fresh ids, nobody is left out.\<close>

definition accepts_fresh :: "('r \<Rightarrow> 'k) \<Rightarrow> ('db, 'r) table_ops \<Rightarrow> bool" where
  "accepts_fresh key t \<longleftrightarrow> (\<forall>r db. key r \<notin> key ` set (tb_rows t db) \<longrightarrow> snd (tb_create t r db) = None)"

lemma group_fold_complete:
  assumes laws: "table_laws MsgId (lo_msgs ops)" and up: "accepts_fresh MsgId (lo_msgs ops)"
    and "distinct (map MsgId (tb_rows (lo_msgs ops) (lg_db s)) @ ids_from (lo_next ops) (lg_gen s) (2 * length members))"
  shows "\<exists>new. tb_rows (lo_msgs ops) (lg_db (fold (group_member_step ops p) members s))
        = tb_rows (lo_msgs ops) (lg_db s) @ new
      \<and> group_rows_of p new \<and> map ReceiverId new = filter (\<lambda>u. u \<noteq> up_SenderID p) members"
  using assms(3)
proof (induction members arbitrary: s)
  case Nil
  show ?case by (simp add: group_rows_of_def)
next
  case (Cons u us)
  note loc = db_table_of [OF laws]
  let ?t = "lo_msgs ops"
  let ?g1 = "snd (lo_next ops (lg_gen s))"
  let ?i = "fst (lo_next ops ?g1)"
  have ids: "ids_from (lo_next ops) (lg_gen s) (2 * length (u # us)) =
      fst (lo_next ops (lg_gen s)) # ?i # ids_from (lo_next ops) (snd (lo_next ops ?g1)) (2 * length us)"
    by simp
  show ?case
  proof (cases "u = up_SenderID p")
    case True
    have "distinct (map MsgId (tb_rows ?t (lg_db s)) @ ids_from (lo_next ops) (lg_gen s) (2 * length us))"
      using distinct_append_take [OF Cons.prems, of "2 * length us"]
      by (simp only: ids_from_take [of "2 * length us" "2 * length (u # us)"] list.size mult_le_mono2 le_add1 add_0_right)
    from Cons.IH [OF this] True show ?thesis by (simp add: group_member_sender)
  next
    case False
    let ?s1 = "group_member_step ops p u s"
    from group_member_effect [OF False, of ops s] obtain e where
      c: "tb_create ?t (group_row p ?i u) (lg_db s) = (lg_db ?s1, e)" and g: "lg_gen ?s1 = snd (lo_next ops ?g1)"
      by (auto simp: Let_def)
    have "?i \<notin> MsgId ` set (tb_rows ?t (lg_db s))" using Cons.prems unfolding ids by auto
    moreover have "MsgId (group_row p ?i u) = ?i" by (simp add: group_row_def)
    ultimately have "snd (tb_create ?t (group_row p ?i u) (lg_db s)) = None"
      using up by (simp only: accepts_fresh_def not_False_eq_True simp_thms)
    with c have "e = None" by simp
    with db_table.create_ok [OF loc] c
    have rows: "tb_rows ?t (lg_db ?s1) = tb_rows ?t (lg_db s) @ [group_row p ?i u]" by blast
    have "distinct (map MsgId (tb_rows ?t (lg_db ?s1)) @ ids_from (lo_next ops) (lg_gen ?s1) (2 * length us))"
      using Cons.prems unfolding ids rows g by (auto simp: group_row_def)
    from Cons.IH [OF this] obtain new where "tb_rows ?t (lg_db (fold (group_member_step ops p) us ?s1))
        = tb_rows ?t (lg_db ?s1) @ new" "group_rows_of p new"
        "map ReceiverId new = filter (\<lambda>u. u \<noteq> up_SenderID p) us" by blast
    with rows False show ?thesis
      by (intro exI [of _ "group_row p ?i u # new"]) (auto simp: group_rows_of_def group_row_def)
  qed
qed

section \<open>Properties\<close>

definition deliver :: "('db, 'r, 'b, 'g) logic_ops \<Rightarrow> UploadPayload \<Rightarrow> ('db, 'r, 'b, 'g) logic \<Rightarrow> ('db, 'r, 'b, 'g) logic" where
  "deliver ops p s = fst (handleUploadDelivery ops (Some (marshal_upload p)) s)"

lemma handleUpload_single:
  "up_ChatType p = ChatTypeSingle \<Longrightarrow> handleUploadDelivery ops (Some (marshal_upload p)) s =
     (fst (handleSingleChat ops p s), if snd (handleSingleChat ops p s) = None then Ack else Nack True)"
  by (cases "handleSingleChat ops p s") (simp add: handleUploadDelivery_def)

text \<open>
  A single chat that is acknowledged is safe. When the consumer acknowledges a delivery, the
  table has gained exactly the row the gateway described, unread and unsent; if the routing
  table knew a gateway for the receiver the message has been offered to exactly that gateway's
  exchange key with the same ids and text, and if it knew none nothing was published. A failed
  publish does not change that.
\<close>

theorem single_chat_stored_then_routed:
  assumes "table_laws MsgId (lo_msgs ops)" and "redis_laws (lo_redis ops)"
    and "up_ChatType p = ChatTypeSingle"
    and "handleUploadDelivery ops (Some (marshal_upload p)) s = (s', Ack)"
  shows "tb_rows (lo_msgs ops) (lg_db s') = tb_rows (lo_msgs ops) (lg_db s) @ [single_row p]
    \<and> lg_mq s' = (case rd_value (lo_redis ops) (lg_redis s) (route_key (up_ReceiverID p)) of
          None \<Rightarrow> lg_mq s
        | Some addr \<Rightarrow> fst (PublishDown (lo_amqp ops) addr (marshal_down (single_down p)) (lg_mq s)))"
proof -
  let ?s1 = "s\<lparr>lg_gen := snd (lo_next ops (lg_gen s))\<rparr>"
  from assms(4) have ok: "handleSingleChat ops p s = (s', None)"
    by (cases "handleSingleChat ops p s") (auto simp: handleUpload_single [OF assms(3)] split: if_splits)
  then obtain s2 where ins: "insert_message ops (single_row p) ?s1 = (s2, None)"
    by (auto simp: handleSingleChat_unfold Let_def split: prod.splits option.splits)
  note i = insert_message_sel [OF ins]
  from i db_table.create_ok [OF db_table_of [OF assms(1)], of "single_row p" "lg_db s" "lg_db s2"]
  have rows: "tb_rows (lo_msgs ops) (lg_db s2) = tb_rows (lo_msgs ops) (lg_db s) @ [single_row p]" by simp
  from ok ins obtain s3 v where look: "lookup_route ops (up_ReceiverID p) s2 = (s3, Inr v)"
    and fin: "s' = (case v of None \<Rightarrow> s3 | Some addr \<Rightarrow> fst (publish_down ops addr (single_down p) s3))"
    by (auto simp: handleSingleChat_unfold Let_def split: prod.splits sum.splits option.splits)
  note l = lookup_route_sel [OF look]
  have "v = rd_value (lo_redis ops) (lg_redis s2) (route_key (up_ReceiverID p))"
    using redis_client.get_value [OF redis_client.intro [OF assms(2)]] l by blast
  with i l rows fin show ?thesis by (auto simp: publish_down_sel split: option.split)
qed

definition mem_logic :: "(message mem_db, mem_redis, mem_broker, i64) logic_ops" where
  "mem_logic =
     \<lparr>lo_msgs = mem_table MsgId,
      lo_members = \<lparr>tb_create = \<lambda>r db. (db, None), tb_find = \<lambda>P db. (db, Inr (filter P
         [\<lparr>gm_GroupID = 9, gm_UserID = 1\<rparr>, \<lparr>gm_GroupID = 9, gm_UserID = 2\<rparr>, \<lparr>gm_GroupID = 9, gm_UserID = 3\<rparr>])),
         tb_updates = \<lambda>P f db. (db, None), tb_rows = \<lambda>db. []\<rparr>,
      lo_redis = mem_redis_ops, lo_amqp = mem_amqp, lo_next = \<lambda>g. (g, g + 1)\<rparr>"

definition mem_state :: "(gostring \<times> gostring) list \<Rightarrow> goerror option list \<Rightarrow> (message mem_db, mem_redis, mem_broker, i64) logic" where
  "mem_state routes faults =
     \<lparr>lg_db = \<lparr>mem_rows = [], mem_faults = []\<rparr>,
      lg_redis = \<lparr>mr_values = routes, mr_counters = [], mr_faults = faults\<rparr>,
      lg_mq = \<lparr>mq_broker = \<lparr>mb_queues = [], mb_bindings = [(downExchangeName, ''g1'', ''gateway.queue.g1'')], mb_faults = []\<rparr>,
               publishIdx = 0\<rparr>,
      lg_gen = 100\<rparr>"

definition hi_payload :: UploadPayload where
  "hi_payload =
     \<lparr>up_MsgID = 7, up_SeqID = 1, up_ChatType = ''single_chat'', up_GroupID = 0, up_ConvID = ''1_2'',
      up_SenderID = 1, up_ReceiverID = 2, up_Content = ''hi''\<rparr>"

lemma mem_logic_laws:
  "table_laws MsgId (lo_msgs mem_logic)" "redis_laws (lo_redis mem_logic)"
  by (simp_all add: mem_logic_def mem_table_laws mem_redis_laws)

lemmas mem_logic_simps = mem_logic_def mem_state_def mem_table_def mem_redis_ops_def next_fault_def mr_fault_def
  hi_payload_def chat_types

lemma single_chat_stored_then_routed_witness:
  "mem_rows (lg_db (fst (handleUploadDelivery mem_logic (Some (marshal_upload hi_payload)) (mem_state [(route_key 2, ''g1'')] []))))
     = [single_row hi_payload]"
proof -
  let ?s = "mem_state [(route_key 2, ''g1'')] []"
  let ?r = "handleUploadDelivery mem_logic (Some (marshal_upload hi_payload)) ?s"
  have t: "up_ChatType hi_payload = ChatTypeSingle" by (simp add: hi_payload_def chat_types)
  have "?r = (fst ?r, Ack)"
    unfolding handleUpload_single [OF t]
    by (simp add: handleSingleChat_unfold insert_message_def InsertMessage_def lookup_route_def mem_logic_simps Let_def)
  from single_chat_stored_then_routed [OF mem_logic_laws t this]
  show ?thesis by (simp add: mem_logic_def mem_state_def mem_table_def)
qed

text \<open>
  C39. A message can be stored and yet come back for ever. If the row is in the table, because
  Redis failed right after the insert the first time, every later delivery of the same message
  is refused with requeueing: the insert fails on the primary key, nothing is published to the
  receiver, and no number of redeliveries gets the message acknowledged or dead-lettered.
\<close>

theorem upload_poison_loop:
  assumes "table_laws MsgId (lo_msgs ops)" and "up_ChatType p = ChatTypeSingle"
    and "insert_message ops (single_row p) (s\<lparr>lg_gen := snd (lo_next ops (lg_gen s))\<rparr>) = (s2, None)"
    and "snd (lookup_route ops (up_ReceiverID p) s2) = Inl e"
  shows "snd (handleUploadDelivery ops (Some (marshal_upload p)) ((deliver ops p ^^ n) s)) = Nack True
    \<and> lg_mq ((deliver ops p ^^ n) s) = lg_mq s
    \<and> (0 < n \<longrightarrow> tb_rows (lo_msgs ops) (lg_db ((deliver ops p ^^ n) s)) = tb_rows (lo_msgs ops) (lg_db s) @ [single_row p])"
proof -
  note loc = db_table_of [OF assms(1)]
  let ?t = "lo_msgs ops"
  have key: "MsgId (single_row p) = up_MsgID p" by (simp add: single_row_def)
  have again: "snd (handleUploadDelivery ops (Some (marshal_upload p)) x) = Nack True
      \<and> lg_mq (deliver ops p x) = lg_mq x \<and> tb_rows ?t (lg_db (deliver ops p x)) = tb_rows ?t (lg_db x)"
    if dup: "up_MsgID p \<in> MsgId ` set (tb_rows ?t (lg_db x))" for x
  proof -
    let ?x1 = "x\<lparr>lg_gen := snd (lo_next ops (lg_gen x))\<rparr>"
    obtain x2 f where i: "insert_message ops (single_row p) ?x1 = (x2, f)" by force
    note ins = insert_message_sel [OF i]
    from ins dup db_table.create_duplicate [OF loc, of "single_row p" "lg_db x" "lg_db x2" f]
    have "f \<noteq> None \<and> tb_rows ?t (lg_db x2) = tb_rows ?t (lg_db x)" by (simp add: key)
    with i ins show ?thesis
      by (auto simp: deliver_def handleUpload_single [OF assms(2)] handleSingleChat_unfold Let_def)
  qed
  note ins = insert_message_sel [OF assms(3)]
  obtain s3 where look: "lookup_route ops (up_ReceiverID p) s2 = (s3, Inl e)"
    using assms(4) by (cases "lookup_route ops (up_ReceiverID p) s2") auto
  note l = lookup_route_sel [OF look]
  have first: "snd (handleUploadDelivery ops (Some (marshal_upload p)) s) = Nack True" "deliver ops p s = s3"
    by (simp_all add: deliver_def handleUpload_single [OF assms(2)] handleSingleChat_unfold Let_def assms(3) look)
  have rows: "tb_rows ?t (lg_db s3) = tb_rows ?t (lg_db s) @ [single_row p]"
    using db_table.create_ok [OF loc, of "single_row p" "lg_db s" "lg_db s2"] ins l by simp
  have mq: "lg_mq s3 = lg_mq s" using ins l by simp
  have later: "tb_rows ?t (lg_db ((deliver ops p ^^ Suc n) s)) = tb_rows ?t (lg_db s) @ [single_row p]
      \<and> lg_mq ((deliver ops p ^^ Suc n) s) = lg_mq s" for n
  proof (induction n)
    case (Suc n)
    then have "up_MsgID p \<in> MsgId ` set (tb_rows ?t (lg_db ((deliver ops p ^^ Suc n) s)))"
      by (simp add: key del: funpow.simps)
    from again [OF this] Suc show ?case by simp
  qed (simp add: first rows mq)
  show ?thesis
  proof (cases n)
    case (Suc m)
    from later [of m] have "up_MsgID p \<in> MsgId ` set (tb_rows ?t (lg_db ((deliver ops p ^^ Suc m) s)))"
      by (simp add: key del: funpow.simps)
    from again [OF this] later [of m] Suc show ?thesis by (simp del: funpow.simps)
  qed (simp add: first(1))
qed

lemma upload_poison_loop_witness:
  "snd (handleUploadDelivery mem_logic (Some (marshal_upload hi_payload))
     ((deliver mem_logic hi_payload ^^ 1000) (mem_state [(route_key 2, ''g1'')] [Some ''i/o timeout'']))) = Nack True"
proof -
  let ?s = "mem_state [(route_key 2, ''g1'')] [Some ''i/o timeout'']"
  let ?i = "insert_message mem_logic (single_row hi_payload) (?s\<lparr>lg_gen := snd (lo_next mem_logic (lg_gen ?s))\<rparr>)"
  have t: "up_ChatType hi_payload = ChatTypeSingle" by (simp add: hi_payload_def chat_types)
  have i: "?i = (fst ?i, None)"
    by (simp add: insert_message_def InsertMessage_def mem_logic_simps)
  have l: "snd (lookup_route mem_logic (up_ReceiverID hi_payload) (fst ?i)) = Inl ''i/o timeout''"
    by (simp add: lookup_route_def insert_message_def InsertMessage_def mem_logic_simps)
  from upload_poison_loop [OF mem_logic_laws(1) t i l] show ?thesis by blast
qed

text \<open>
  C27. A group message is fanned out to the members: once the member list is read the delivery is
  acknowledged; the rows added are rows of this message, one for each of a subsequence of the
  members without the sender; and with a table that takes every row with a fresh id and a
  generator of fresh ids, every member but the sender has exactly his row, in the list's order.
\<close>

theorem group_chat_fanned_out:
  assumes "table_laws MsgId (lo_msgs ops)" and "up_ChatType p = ChatTypeGroup"
    and "GetGroupMembers (lo_members ops) (up_GroupID p) (lg_db s) = (db', Inr members)"
    and "tb_rows (lo_msgs ops) db' = tb_rows (lo_msgs ops) (lg_db s)"
  shows "\<exists>s' new. handleUploadDelivery ops (Some (marshal_upload p)) s = (s', Ack)
    \<and> tb_rows (lo_msgs ops) (lg_db s') = tb_rows (lo_msgs ops) (lg_db s) @ new \<and> group_rows_of p new
    \<and> subseq (map ReceiverId new) (filter (\<lambda>u. u \<noteq> up_SenderID p) members)
    \<and> (accepts_fresh MsgId (lo_msgs ops)
        \<and> distinct (map MsgId (tb_rows (lo_msgs ops) (lg_db s)) @ ids_from (lo_next ops) (lg_gen s) (2 * length members))
       \<longrightarrow> map ReceiverId new = filter (\<lambda>u. u \<noteq> up_SenderID p) members)"
proof -
  let ?s1 = "s\<lparr>lg_db := db'\<rparr>"
  let ?s' = "fold (group_member_step ops p) members ?s1"
  have run: "handleUploadDelivery ops (Some (marshal_upload p)) s = (?s', Ack)"
    using assms(2,3) by (simp add: handleUploadDelivery_def handleGroupChat_def chat_types)
  have rows: "tb_rows (lo_msgs ops) (lg_db ?s1) = tb_rows (lo_msgs ops) (lg_db s)" using assms(4) by simp
  show ?thesis
  proof (cases "accepts_fresh MsgId (lo_msgs ops)
        \<and> distinct (map MsgId (tb_rows (lo_msgs ops) (lg_db s)) @ ids_from (lo_next ops) (lg_gen s) (2 * length members))")
    case True
    then have "distinct (map MsgId (tb_rows (lo_msgs ops) (lg_db ?s1)) @ ids_from (lo_next ops) (lg_gen ?s1) (2 * length members))"
      using rows by simp
    from group_fold_complete [OF assms(1) conjunct1 [OF True] this, of p] obtain new
      where "tb_rows (lo_msgs ops) (lg_db ?s') = tb_rows (lo_msgs ops) (lg_db s) @ new" "group_rows_of p new"
        "map ReceiverId new = filter (\<lambda>u. u \<noteq> up_SenderID p) members" using rows by auto
    with run show ?thesis by (intro exI [of _ ?s'] exI [of _ new]) simp
  next
    case False
    from group_fold_rows [OF assms(1), of p members ?s1] rows run False show ?thesis by fastforce
  qed
qed

lemma group_chat_fanned_out_witness:
  "\<exists>s' new. handleUploadDelivery mem_logic (Some (marshal_upload (hi_payload\<lparr>up_ChatType := ''group_chat'', up_GroupID := 9\<rparr>)))
       (mem_state [] []) = (s', Ack)
     \<and> mem_rows (lg_db s') = new \<and> map ReceiverId new = [2, 3]"
proof -
  let ?p = "hi_payload\<lparr>up_ChatType := ''group_chat'', up_GroupID := 9\<rparr>"
  let ?s = "mem_state [] []"
  have t: "up_ChatType ?p = ChatTypeGroup" by (simp add: chat_types)
  have g: "GetGroupMembers (lo_members mem_logic) (up_GroupID ?p) (lg_db ?s) = (lg_db ?s, Inr [1, 2, 3])"
    by (simp add: GetGroupMembers_def mem_logic_def)
  have r: "tb_rows (lo_msgs mem_logic) (lg_db ?s) = []" by (simp add: mem_logic_def mem_state_def mem_table_def)
  from group_chat_fanned_out [OF mem_logic_laws(1) t g refl] obtain s' new where
    "handleUploadDelivery mem_logic (Some (marshal_upload ?p)) ?s = (s', Ack)"
    "tb_rows (lo_msgs mem_logic) (lg_db s') = new" unfolding r by auto
  moreover have "map ReceiverId (mem_rows (lg_db (fst (handleUploadDelivery mem_logic (Some (marshal_upload ?p)) ?s)))) = [2, 3]"
    by (simp add: handleUploadDelivery_def handleGroupChat_def GetGroupMembers_def group_member_step_def new_message_def
        NewMessages_def insert_message_def InsertMessage_def lookup_route_def Let_def mem_logic_simps)
  ultimately show ?thesis by (force simp: mem_logic_def mem_table_def)
qed

definition group_hi :: UploadPayload where
  "group_hi = hi_payload\<lparr>up_ChatType := ''group_chat'', up_GroupID := 9\<rparr>"


end
