(* ===== verification/Ws_Client.thy ===== *)
theory Ws_Client
  imports Redis "HOL-Library.AList" "HOL-Library.Sublist"
begin

text \<open>
  One user's websocket connection in the gateway, \<open>apps/gateway/ws/client.go\<close>, and the table of
  connections, \<open>apps/gateway/ws/manager.go\<close>. A connection has a buffered channel of 1024
  messages, written by \<open>SendMessage\<close> from any goroutine and emptied by its \<open>WritePump\<close>, and a
  signal that closes it once.

  The websocket itself is not part of the repository: a write succeeds or fails as it likes, and
  fails after the connection has been closed.
\<close>

section \<open>A connection\<close>

text \<open>A message: a text put together with \<open>fmt.Sprintf\<close>, or a document from \<open>json.Marshal\<close>.\<close>

datatype frame = Raw gostring | Doc json

text \<open>Where \<open>WritePump\<close> is: at its \<open>select\<close>, writing a message, returned.\<close>

datatype pump = PSelect | PWrite frame | PEnded

text \<open>
  \<open>ws_pick\<close> is what the scheduler picks when both cases of the \<open>select\<close> in \<open>SendMessage\<close> are
  ready, in its \<open>n\<close>-th call. \<open>ws_sent\<close>, \<open>ws_accepted\<close>, \<open>ws_written\<close> and \<open>ws_closes\<close> record what was
  handed to \<open>SendMessage\<close>, what entered the channel, what was written to the connection and how
  often the connection was closed.
\<close>

record ws_client =
  Uid :: i64
  SendChan :: "frame list"
  ws_closed :: bool
  ws_pump :: pump
  ws_pick :: "nat \<Rightarrow> bool"
  ws_sent :: "frame list"
  ws_accepted :: "frame list"
  ws_written :: "frame list"
  ws_closes :: nat

definition send_cap :: nat where "send_cap = 1024"

definition NewWsClient :: "(nat \<Rightarrow> bool) \<Rightarrow> i64 \<Rightarrow> ws_client" where
  "NewWsClient pick uid =
     \<lparr>Uid = uid, SendChan = [], ws_closed = False, ws_pump = PSelect, ws_pick = pick, ws_sent = [],
      ws_accepted = [], ws_written = [], ws_closes = 0\<rparr>"

text \<open>\<open>Close\<close> runs its body once.\<close>

definition WsClose :: "ws_client \<Rightarrow> ws_client" where
  "WsClose c = (if ws_closed c then c else c\<lparr>ws_closed := True, ws_closes := Suc (ws_closes c)\<rparr>)"

text \<open>
  The \<open>select\<close> of \<open>SendMessage\<close>: the send is ready when the channel has room, the receive when the
  connection is closed, and \<open>default\<close> is taken when neither is.
\<close>

definition SendMessage :: "frame \<Rightarrow> ws_client \<Rightarrow> ws_client" where
  "SendMessage msg c0 =
     (let c = c0\<lparr>ws_sent := ws_sent c0 @ [msg]\<rparr>;
          room = length (SendChan c0) < send_cap in
      if room \<and> (\<not> ws_closed c0 \<or> ws_pick c0 (length (ws_sent c0)))
      then c\<lparr>SendChan := SendChan c @ [msg], ws_accepted := ws_accepted c @ [msg]\<rparr>
      else if ws_closed c0 then c
      else WsClose c)"

text \<open>The back-pressure warning of \<open>SendMessage\<close>.\<close>

definition warns :: "ws_client \<Rightarrow> bool" where
  "warns c \<longleftrightarrow> send_cap * 8 div 10 < length (SendChan c)"

text \<open>
  A connection with its pump. Setting the write deadline and writing are one action, which may
  fail; then the pump closes the connection and returns.
\<close>

inductive ws_step :: "ws_client \<Rightarrow> ws_client \<Rightarrow> bool" where
  send: "ws_step c (SendMessage msg c)"
| pump_take: "ws_pump c = PSelect \<Longrightarrow> SendChan c = msg # queue \<Longrightarrow>
    ws_step c (c\<lparr>SendChan := queue, ws_pump := PWrite msg\<rparr>)"
| pump_closed: "ws_pump c = PSelect \<Longrightarrow> ws_closed c \<Longrightarrow> ws_step c (WsClose c\<lparr>ws_pump := PEnded\<rparr>)"
| pump_written: "ws_pump c = PWrite msg \<Longrightarrow> \<not> ws_closed c \<Longrightarrow>
    ws_step c (c\<lparr>ws_written := ws_written c @ [msg], ws_pump := PSelect\<rparr>)"
| pump_failed: "ws_pump c = PWrite msg \<Longrightarrow> ws_step c (WsClose c\<lparr>ws_pump := PEnded\<rparr>)"
| closing: "ws_step c (WsClose c)"

inductive ws_reachable :: "(nat \<Rightarrow> bool) \<Rightarrow> i64 \<Rightarrow> ws_client \<Rightarrow> bool" for pick uid where
  ws_init: "ws_reachable pick uid (NewWsClient pick uid)"
| ws_next: "ws_reachable pick uid c \<Longrightarrow> ws_step c c' \<Longrightarrow> ws_reachable pick uid c'"

lemma SendMessage_sel [simp]:
  "Uid (SendMessage m c) = Uid c" "ws_pump (SendMessage m c) = ws_pump c"
  "ws_written (SendMessage m c) = ws_written c" "ws_pick (SendMessage m c) = ws_pick c"
  "ws_sent (SendMessage m c) = ws_sent c @ [m]"
  by (simp_all add: SendMessage_def WsClose_def Let_def)

lemma WsClose_sel [simp]:
  "Uid (WsClose c) = Uid c" "SendChan (WsClose c) = SendChan c" "ws_closed (WsClose c)"
  "ws_pump (WsClose c) = ws_pump c" "ws_sent (WsClose c) = ws_sent c" "ws_accepted (WsClose c) = ws_accepted c"
  "ws_written (WsClose c) = ws_written c" "WsClose (WsClose c) = WsClose c"
  by (simp_all add: WsClose_def)

text \<open>A message to an open connection with room is queued; to a closed one nothing happens but that.\<close>

lemma SendMessage_open:
  "\<not> ws_closed c \<Longrightarrow> length (SendChan c) < send_cap \<Longrightarrow>
     SendChan (SendMessage m c) = SendChan c @ [m] \<and> \<not> ws_closed (SendMessage m c)
     \<and> ws_accepted (SendMessage m c) = ws_accepted c @ [m]"
  by (simp add: SendMessage_def Let_def)

lemma SendMessage_full:
  "\<not> ws_closed c \<Longrightarrow> send_cap \<le> length (SendChan c) \<Longrightarrow>
     SendChan (SendMessage m c) = SendChan c \<and> ws_closed (SendMessage m c)"
  by (simp add: SendMessage_def WsClose_def Let_def)

lemma SendMessage_closed: "ws_closed c \<Longrightarrow> ws_closed (SendMessage m c)"
  by (simp add: SendMessage_def Let_def)

section \<open>Invariant of a connection\<close>

definition in_flight :: "ws_client \<Rightarrow> frame list" where
  "in_flight c = (case ws_pump c of PWrite m \<Rightarrow> [m] | _ \<Rightarrow> [])"

definition ws_inv :: "ws_client \<Rightarrow> bool" where
  [inv_defs]: "ws_inv c \<longleftrightarrow>
     (\<exists>lost. ws_accepted c = ws_written c @ lost @ SendChan c \<and> (lost = in_flight c \<or> ws_closed c \<and> ws_pump c = PEnded))
   \<and> length (SendChan c) \<le> send_cap
   \<and> ws_closes c = (if ws_closed c then 1 else 0)
   \<and> subseq (ws_accepted c) (ws_sent c)
   \<and> (\<not> ws_closed c \<longrightarrow> ws_accepted c = ws_sent c \<and> ws_pump c \<noteq> PEnded)"

lemma ws_inv_init: "ws_inv (NewWsClient pick uid)"
  by (simp add: ws_inv_def NewWsClient_def in_flight_def)

lemma ws_inv_Close: "ws_inv c \<Longrightarrow> ws_inv (WsClose c)"
  by (auto simp: ws_inv_def WsClose_def in_flight_def split: pump.splits)

lemma ws_inv_SendMessage:
  assumes "ws_inv c"
  shows "ws_inv (SendMessage m c)"
proof -
  have sub: "subseq (ws_accepted c) (ws_sent c @ [m])" "subseq (ws_accepted c @ [m]) (ws_sent c @ [m])"
    using assms by (auto simp: ws_inv_def intro: subseq_order.trans [OF _ subseq_rev_drop_many] list_emb_append_mono)
  show ?thesis
    using assms sub unfolding ws_inv_def SendMessage_def WsClose_def Let_def in_flight_def
    by (auto split: if_splits)
qed

lemma ws_inv_step: "ws_step c c' \<Longrightarrow> ws_inv c \<Longrightarrow> ws_inv c'"
proof (induction rule: ws_step.induct)
  case (send c msg)
  then show ?case by (rule ws_inv_SendMessage)
next
  case (pump_take c msg queue)
  then show ?case by (auto simp: ws_inv_def in_flight_def)
next
  case (pump_closed c)
  then show ?case by (auto simp: ws_inv_def in_flight_def WsClose_def)
next
  case (pump_written c msg)
  then show ?case by (auto simp: ws_inv_def in_flight_def)
next
  case (pump_failed c msg)
  then show ?case by (auto simp: ws_inv_def in_flight_def WsClose_def)
next
  case (closing c)
  then show ?case by (rule ws_inv_Close)
qed

lemma ws_inv_reachable: "ws_reachable pick uid c \<Longrightarrow> ws_inv c \<and> Uid c = uid"
proof (induction rule: ws_reachable.induct)
  case ws_init
  show ?case by (rule conjI [OF ws_inv_init]) (simp add: NewWsClient_def)
next
  case (ws_next c c')
  have "Uid c' = Uid c" using ws_next.hyps(2) by (cases rule: ws_step.cases) auto
  with ws_next ws_inv_step show ?case by auto
qed

text \<open>
  C16. Delivery on a connection, in every interleaving of senders, the pump and closers: what the
  user receives is a prefix of what was accepted, in order and without repetition; what was
  accepted is what was sent, less what was refused; as long as the connection is open nothing
  has been refused, so every message sent is written, about to be written or waiting; at most
  1024 wait; and the connection is closed at most once.
\<close>

theorem ws_delivery_in_order:
  assumes "ws_reachable pick uid c"
  shows "prefix (ws_written c) (ws_accepted c) \<and> subseq (ws_accepted c) (ws_sent c)
    \<and> (\<not> ws_closed c \<longrightarrow> ws_sent c = ws_written c @ in_flight c @ SendChan c)
    \<and> length (SendChan c) \<le> 1024 \<and> ws_closes c \<le> 1"
proof -
  from ws_inv_reachable [OF assms] have inv: "ws_inv c" by simp
  from inv have "prefix (ws_written c) (ws_accepted c)" by (auto simp: ws_inv_def)
  moreover from inv have "\<not> ws_closed c \<longrightarrow> ws_sent c = ws_written c @ in_flight c @ SendChan c"
    by (auto simp: ws_inv_def)
  ultimately show ?thesis using inv by (auto simp: ws_inv_def send_cap_def)
qed

lemma ws_delivery_in_order_witness:
  "ws_written ((NewWsClient (\<lambda>n. True) 5)\<lparr>ws_written := [Raw ''a''], ws_accepted := [Raw ''a''], ws_sent := [Raw ''a'']\<rparr>) = [Raw ''a'']
   \<and> ws_reachable (\<lambda>n. True) 5 ((NewWsClient (\<lambda>n. True) 5)\<lparr>ws_written := [Raw ''a''], ws_accepted := [Raw ''a''], ws_sent := [Raw ''a'']\<rparr>)"
proof -
  let ?n = "NewWsClient (\<lambda>n. True) 5"
  let ?c = "?n\<lparr>ws_written := [Raw ''a''], ws_accepted := [Raw ''a''], ws_sent := [Raw ''a'']\<rparr>"
  let ?c1 = "SendMessage (Raw ''a'') ?n"
  have "ws_reachable (\<lambda>n. True) 5 ?c1" by (rule ws_next [OF ws_init send])
  from ws_next [OF this pump_take [of ?c1 "Raw ''a''" "[]"]]
  have "ws_reachable (\<lambda>n. True) 5 (?c1\<lparr>SendChan := [], ws_pump := PWrite (Raw ''a'')\<rparr>)"
    by (simp add: SendMessage_def NewWsClient_def send_cap_def)
  from ws_next [OF this pump_written [of _ "Raw ''a''"]] have "ws_reachable (\<lambda>n. True) 5 ?c"
    by (simp add: SendMessage_def NewWsClient_def send_cap_def)
  moreover from ws_delivery_in_order [OF this] have "prefix (ws_written ?c) (ws_accepted ?c)" by blast
  ultimately show ?thesis by simp
qed

end
