(* ===== verification/Hub.thy ===== *)
theory Hub
  imports Ws_Client
begin

text \<open>
  The table of connections of a gateway, \<open>CliMap\<close> in \<open>apps/gateway/ws/manager.go\<close>: one
  connection per user, under the user's id as text. A \<open>*Client\<close> is a number, an index into the
  connections made so far, so that two pointers are compared as the code compares them.
\<close>

section \<open>Operations\<close>

record 'r hub =
  Clients :: "(gostring \<times> nat) list"
  hub_heap :: "ws_client list"
  hub_redis :: 'r

definition NewCliMap :: "'r \<Rightarrow> 'r hub" where
  "NewCliMap r = \<lparr>Clients = [], hub_heap = [], hub_redis = r\<rparr>"

definition on_ws :: "nat \<Rightarrow> (ws_client \<Rightarrow> ws_client) \<Rightarrow> 'r hub \<Rightarrow> 'r hub" where
  "on_ws i f h = h\<lparr>hub_heap := (hub_heap h)[i := f (hub_heap h ! i)]\<rparr>"

definition quoted :: "gostring \<Rightarrow> gostring" where
  "quoted s = [CHR 0x22] @ s @ [CHR 0x22]"

definition kick_msg :: frame where
  "kick_msg = Raw (''{'' @ quoted ''action'' @ '': '' @ quoted ''kick'' @ '', '' @ quoted ''reason'' @ '': ''
     @ quoted ''logged_in_elsewhere'' @ ''}'')"

definition HubRegister :: "i64 \<Rightarrow> nat \<Rightarrow> 'r hub \<Rightarrow> 'r hub" where
  "HubRegister uid newClient h =
     (let IdStr = fmt_int64 uid;
          h1 = (case map_of (Clients h) IdStr of
                  Some old \<Rightarrow> on_ws old WsClose (on_ws old (SendMessage kick_msg) h)
                | None \<Rightarrow> h)
      in h1\<lparr>Clients := AList.update IdStr newClient (Clients h1)\<rparr>)"

definition HubGet :: "gostring \<Rightarrow> 'r hub \<Rightarrow> nat option" where
  "HubGet key h = map_of (Clients h) key"

definition HubRemove :: "'r redis_ops \<Rightarrow> gostring \<Rightarrow> nat \<Rightarrow> 'r hub \<Rightarrow> 'r hub" where
  "HubRemove rd key client h =
     (if map_of (Clients h) key = Some client
      then h\<lparr>Clients := AList.delete key (Clients h), hub_redis := fst (rd_del rd (''route:user:'' @ key) (hub_redis h))\<rparr>
      else h)"

definition HubLen :: "'r hub \<Rightarrow> nat" where
  "HubLen h = length (Clients h)"

text \<open>\<open>if client, ok := GlobalCliMap.Get(key); ok { client.SendMessage(msg) }\<close>\<close>

definition send_to :: "gostring \<Rightarrow> frame \<Rightarrow> 'r hub \<Rightarrow> 'r hub" where
  "send_to key msg h = (case HubGet key h of None \<Rightarrow> h | Some i \<Rightarrow> on_ws i (SendMessage msg) h)"

lemma on_ws_sel [simp]:
  "Clients (on_ws i f h) = Clients h" "hub_redis (on_ws i f h) = hub_redis h"
  "length (hub_heap (on_ws i f h)) = length (hub_heap h)"
  "hub_heap (on_ws i f h) = (hub_heap h)[i := f (hub_heap h ! i)]"
  by (simp_all add: on_ws_def)

section \<open>A gateway's connections over time\<close>

text \<open>
  A connection is made and registered (\<open>Handler\<close>); a connection takes a step of its own; a
  \<open>ReadPump\<close> ends and removes its connection. The second component collects the connections
  whose \<open>ReadPump\<close> has done so; they are closed a moment later.
\<close>

definition hub_connect :: "(nat \<Rightarrow> bool) \<Rightarrow> i64 \<Rightarrow> 'r hub \<Rightarrow> 'r hub" where
  "hub_connect pick uid h =
     HubRegister uid (length (hub_heap h)) (h\<lparr>hub_heap := hub_heap h @ [NewWsClient pick uid]\<rparr>)"

inductive hub_step :: "'r redis_ops \<Rightarrow> 'r hub \<times> nat set \<Rightarrow> 'r hub \<times> nat set \<Rightarrow> bool" for rd where
  connect: "hub_step rd (h, gone) (hub_connect pick uid h, gone)"
| client: "i < length (hub_heap h) \<Longrightarrow> ws_step (hub_heap h ! i) c \<Longrightarrow>
    hub_step rd (h, gone) (on_ws i (\<lambda>_. c) h, gone)"
| remove: "i < length (hub_heap h) \<Longrightarrow>
    hub_step rd (h, gone) (HubRemove rd (fmt_int64 (Uid (hub_heap h ! i))) i h, insert i gone)"

inductive hub_reachable :: "'r redis_ops \<Rightarrow> 'r hub \<times> nat set \<Rightarrow> bool" for rd where
  hub_init: "hub_reachable rd (NewCliMap r, {})"
| hub_next: "hub_reachable rd s \<Longrightarrow> hub_step rd s s' \<Longrightarrow> hub_reachable rd s'"

definition hub_inv :: "'r hub \<times> nat set \<Rightarrow> bool" where
  "hub_inv s \<longleftrightarrow> (case s of (h, gone) \<Rightarrow>
       distinct (map fst (Clients h))
     \<and> (\<forall>k i. map_of (Clients h) k = Some i \<longrightarrow> i < length (hub_heap h) \<and> k = fmt_int64 (Uid (hub_heap h ! i)) \<and> i \<notin> gone)
     \<and> (\<forall>i < length (hub_heap h). ws_closed (hub_heap h ! i) \<or> i \<in> gone
          \<or> map_of (Clients h) (fmt_int64 (Uid (hub_heap h ! i))) = Some i)
     \<and> (\<forall>i \<in> gone. i < length (hub_heap h)))"

lemma ws_step_mono: "ws_step c c' \<Longrightarrow> Uid c' = Uid c \<and> (ws_closed c \<longrightarrow> ws_closed c')"
  by (induction rule: ws_step.induct) (auto simp: SendMessage_closed)

lemma update_alist [simp]: "map_of (AList.update k v xs) = (map_of xs)(k \<mapsto> v)"
  by (rule update_conv')

lemma delete_alist [simp]: "map_of (AList.delete k xs) = (map_of xs)(k := None)"
  by (rule delete_conv')

text \<open>What \<open>HubRegister\<close> does to the connections: at most the user's old one changes, and it is closed.\<close>

lemma hub_connect_effect:
  assumes "hub_inv (h, gone)"
  shows "length (hub_heap (hub_connect pick uid h)) = Suc (length (hub_heap h))"
    and "map_of (Clients (hub_connect pick uid h)) = (map_of (Clients h))(fmt_int64 uid \<mapsto> length (hub_heap h))"
    and "hub_heap (hub_connect pick uid h) ! length (hub_heap h) = NewWsClient pick uid"
    and "i < length (hub_heap h) \<Longrightarrow> hub_heap (hub_connect pick uid h) ! i =
      (if map_of (Clients h) (fmt_int64 uid) = Some i then WsClose (SendMessage kick_msg (hub_heap h ! i)) else hub_heap h ! i)"
    and "hub_redis (hub_connect pick uid h) = hub_redis h"
proof -
  have lt: "old < length (hub_heap h)" if "map_of (Clients h) (fmt_int64 uid) = Some old" for old
    using assms that by (auto simp: hub_inv_def)
  show "length (hub_heap (hub_connect pick uid h)) = Suc (length (hub_heap h))"
    "map_of (Clients (hub_connect pick uid h)) = (map_of (Clients h))(fmt_int64 uid \<mapsto> length (hub_heap h))"
    "hub_redis (hub_connect pick uid h) = hub_redis h"
    by (auto simp: hub_connect_def HubRegister_def Let_def split: option.split)
  show "hub_heap (hub_connect pick uid h) ! length (hub_heap h) = NewWsClient pick uid"
    by (auto simp: hub_connect_def HubRegister_def Let_def nth_list_update nth_append dest: lt split: option.split)
  show "i < length (hub_heap h) \<Longrightarrow> hub_heap (hub_connect pick uid h) ! i =
      (if map_of (Clients h) (fmt_int64 uid) = Some i then WsClose (SendMessage kick_msg (hub_heap h ! i)) else hub_heap h ! i)"
    by (auto simp: hub_connect_def HubRegister_def Let_def nth_list_update nth_append dest: lt split: option.split)
qed

lemma hub_inv_connect:
  assumes inv: "hub_inv (h, gone)"
  shows "hub_inv (hub_connect pick uid h, gone)"
proof -
  note e = hub_connect_effect [OF inv]
  have d: "distinct (map fst (Clients (hub_connect pick uid h)))"
    using inv by (auto simp: hub_inv_def hub_connect_def HubRegister_def Let_def distinct_update split: option.split)
  have gone: "\<forall>i \<in> gone. i < length (hub_heap h)" using inv by (simp add: hub_inv_def)
  have same: "Uid (hub_heap (hub_connect pick uid h) ! i) = Uid (hub_heap h ! i)" if "i < length (hub_heap h)" for i
    using e(4) [OF that, of pick uid] by simp
  have m: "i < length (hub_heap h) \<and> k = fmt_int64 (Uid (hub_heap h ! i)) \<and> i \<notin> gone" if "map_of (Clients h) k = Some i" for k i
    using inv that by (auto simp: hub_inv_def)
  have "ws_closed (hub_heap (hub_connect pick uid h) ! i) \<or> i \<in> gone
      \<or> map_of (Clients (hub_connect pick uid h)) (fmt_int64 (Uid (hub_heap (hub_connect pick uid h) ! i))) = Some i"
    if i: "i < Suc (length (hub_heap h))" for i
  proof (cases "i = length (hub_heap h)")
    case True
    then show ?thesis by (simp add: e(2,3) NewWsClient_def)
  next
    case False
    with i have lt: "i < length (hub_heap h)" by simp
    with inv have "ws_closed (hub_heap h ! i) \<or> i \<in> gone \<or> map_of (Clients h) (fmt_int64 (Uid (hub_heap h ! i))) = Some i"
      unfolding hub_inv_def prod.case by blast
    then show ?thesis unfolding same [OF lt] using e(4) [OF lt, of pick uid] by (auto simp: e(2))
  qed
  moreover have "i < Suc (length (hub_heap h)) \<and> k = fmt_int64 (Uid (hub_heap (hub_connect pick uid h) ! i)) \<and> i \<notin> gone"
    if "map_of (Clients (hub_connect pick uid h)) k = Some i" for k i
    using that m gone by (auto simp: e(2,3) same NewWsClient_def less_Suc_eq split: if_splits)
  ultimately show ?thesis using d gone by (auto simp: hub_inv_def e(1) less_Suc_eq)
qed

lemma hub_inv_client:
  assumes inv: "hub_inv (h, gone)" and i: "i < length (hub_heap h)" and s: "ws_step (hub_heap h ! i) c"
  shows "hub_inv (on_ws i (\<lambda>_. c) h, gone)"
proof -
  let ?h = "on_ws i (\<lambda>_. c) h"
  have same: "Uid (hub_heap ?h ! j) = Uid (hub_heap h ! j)" "ws_closed (hub_heap h ! j) \<longrightarrow> ws_closed (hub_heap ?h ! j)" for j
    using ws_step_mono [OF s] i by (simp_all add: nth_list_update)
  have "ws_closed (hub_heap ?h ! j) \<or> j \<in> gone \<or> map_of (Clients h) (fmt_int64 (Uid (hub_heap h ! j))) = Some j"
    if "j < length (hub_heap h)" for j
    using inv that same(2) [of j] unfolding hub_inv_def prod.case by blast
  moreover have
    "j < length (hub_heap h) \<and> k = fmt_int64 (Uid (hub_heap h ! j)) \<and> j \<notin> gone" if "map_of (Clients h) k = Some j" for k j
    using inv that unfolding hub_inv_def prod.case by blast
  moreover have "distinct (map fst (Clients h))" "\<forall>i \<in> gone. i < length (hub_heap h)"
    using inv unfolding hub_inv_def prod.case by blast+
  ultimately show ?thesis unfolding hub_inv_def prod.case same(1) on_ws_sel(1,3) by (intro conjI allI impI) blast+
qed

lemma hub_inv_remove:
  assumes inv: "hub_inv (h, gone)" and i: "i < length (hub_heap h)"
  shows "hub_inv (HubRemove rd (fmt_int64 (Uid (hub_heap h ! i))) i h, insert i gone)"
proof -
  let ?k = "fmt_int64 (Uid (hub_heap h ! i))"
  let ?h = "HubRemove rd ?k i h"
  have sel: "hub_heap ?h = hub_heap h"
    "map_of (Clients ?h) = (if map_of (Clients h) ?k = Some i then (map_of (Clients h))(?k := None) else map_of (Clients h))"
    by (simp_all add: HubRemove_def)
  have "distinct (map fst (Clients h))" using inv unfolding hub_inv_def prod.case by blast
  then have d: "distinct (map fst (Clients ?h))" by (simp add: HubRemove_def distinct_delete)
  have m: "j < length (hub_heap h) \<and> k = fmt_int64 (Uid (hub_heap h ! j)) \<and> j \<notin> insert i gone"
    if "map_of (Clients ?h) k = Some j" for k j
  proof -
    have "map_of (Clients h) k = Some j" using that by (simp add: sel(2) split: if_splits)
    with inv have c: "j < length (hub_heap h)" "k = fmt_int64 (Uid (hub_heap h ! j))" "j \<notin> gone"
      unfolding hub_inv_def prod.case by blast+
    have "j \<noteq> i"
    proof
      assume "j = i"
      with c(2) \<open>map_of (Clients h) k = Some j\<close> that show False by (simp add: sel(2))
    qed
    with c show ?thesis by simp
  qed
  have o: "ws_closed (hub_heap h ! j) \<or> j \<in> insert i gone \<or> map_of (Clients ?h) (fmt_int64 (Uid (hub_heap h ! j))) = Some j"
    if "j < length (hub_heap h)" for j
  proof -
    from inv that have "ws_closed (hub_heap h ! j) \<or> j \<in> gone \<or> map_of (Clients h) (fmt_int64 (Uid (hub_heap h ! j))) = Some j"
      unfolding hub_inv_def prod.case by blast
    then show ?thesis by (auto simp only: sel(2) fun_upd_apply split: if_splits)
  qed
  have "\<forall>j \<in> insert i gone. j < length (hub_heap h)"
    using inv i unfolding hub_inv_def prod.case by blast
  with d m o show ?thesis unfolding hub_inv_def prod.case sel(1) by (intro conjI allI impI) blast+
qed

lemma hub_inv_reachable: "hub_reachable rd s \<Longrightarrow> hub_inv s"
proof (induction rule: hub_reachable.induct)
  case (hub_init r)
  then show ?case by (simp add: hub_inv_def NewCliMap_def)
next
  case (hub_next s s')
  from hub_next.hyps(2) hub_next.IH show ?case
    by (cases rule: hub_step.cases) (auto intro: hub_inv_connect hub_inv_client hub_inv_remove)
qed

text \<open>
  C8. One connection per user. Whatever connections are made, fail, overflow, are closed or
  removed in whatever order: of the connections of one user whose reader has not already left
  at most one is open, it is the one \<open>Get\<close> returns under the user's id, and \<open>Get\<close> never
  returns another user's connection.
\<close>

theorem hub_one_open_connection:
  assumes "hub_reachable rd (h, gone)"
  shows "(\<forall>i < length (hub_heap h). i \<notin> gone \<longrightarrow> \<not> ws_closed (hub_heap h ! i) \<longrightarrow>
        HubGet (fmt_int64 (Uid (hub_heap h ! i))) h = Some i)
    \<and> (\<forall>i < length (hub_heap h). \<forall>j < length (hub_heap h). i \<notin> gone \<longrightarrow> j \<notin> gone \<longrightarrow>
        \<not> ws_closed (hub_heap h ! i) \<longrightarrow> \<not> ws_closed (hub_heap h ! j) \<longrightarrow>
        Uid (hub_heap h ! i) = Uid (hub_heap h ! j) \<longrightarrow> i = j)
    \<and> (\<forall>u i. HubGet (fmt_int64 u) h = Some i \<longrightarrow> i < length (hub_heap h) \<and> Uid (hub_heap h ! i) = u)"
proof -
  from hub_inv_reachable [OF assms] have inv: "hub_inv (h, gone)" .
  then have a: "HubGet (fmt_int64 (Uid (hub_heap h ! i))) h = Some i"
    if "i < length (hub_heap h)" "i \<notin> gone" "\<not> ws_closed (hub_heap h ! i)" for i
    using that by (auto simp: hub_inv_def HubGet_def)
  moreover from a have "i = j"
    if "i < length (hub_heap h)" "j < length (hub_heap h)" "i \<notin> gone" "j \<notin> gone"
      "\<not> ws_closed (hub_heap h ! i)" "\<not> ws_closed (hub_heap h ! j)" "Uid (hub_heap h ! i) = Uid (hub_heap h ! j)" for i j
    using that by (metis option.inject)
  moreover have "i < length (hub_heap h) \<and> Uid (hub_heap h ! i) = u" if "HubGet (fmt_int64 u) h = Some i" for u i
  proof -
    from that have "map_of (Clients h) (fmt_int64 u) = Some i" by (simp add: HubGet_def)
    with inv have "i < length (hub_heap h)" "fmt_int64 u = fmt_int64 (Uid (hub_heap h ! i))"
      unfolding hub_inv_def prod.case by blast+
    then show ?thesis by simp
  qed
  ultimately show ?thesis by blast
qed

lemma hub_one_open_connection_witness:
  "\<exists>h. hub_reachable mem_redis_ops (h, {}) \<and> ws_closed (hub_heap h ! 0) \<and> HubGet (fmt_int64 7) h = Some 1"
proof -
  let ?h0 = "NewCliMap \<lparr>mr_values = [], mr_counters = [], mr_faults = []\<rparr>"
  let ?h1 = "hub_connect (\<lambda>n. True) 7 ?h0"
  let ?h2 = "hub_connect (\<lambda>n. True) 7 ?h1"
  have r1: "hub_reachable mem_redis_ops (?h1, {})" by (rule hub_next [OF hub_init connect])
  have r2: "hub_reachable mem_redis_ops (?h2, {})" by (rule hub_next [OF r1 connect])
  note e1 = hub_connect_effect [OF hub_inv_reachable [OF hub_init [of mem_redis_ops
    "\<lparr>mr_values = [], mr_counters = [], mr_faults = []\<rparr>"]], where pick = "\<lambda>n. True" and uid = 7]
  note e2 = hub_connect_effect [OF hub_inv_reachable [OF r1], where pick = "\<lambda>n. True" and uid = 7]
  have len: "length (hub_heap ?h0) = 0" by (simp add: NewCliMap_def)
  have l1: "length (hub_heap ?h1) = 1" using e1(1) len by simp
  have u: "Uid (hub_heap ?h2 ! 1) = 7" "\<not> ws_closed (hub_heap ?h2 ! 1)" "length (hub_heap ?h2) = 2"
    using e2(1,3) by (simp_all add: l1 NewWsClient_def)
  have "map_of (Clients ?h1) (fmt_int64 7) = Some 0" using e1(2) len by simp
  with e2(4) [of 0] l1 have "ws_closed (hub_heap ?h2 ! 0)" by simp
  moreover have "HubGet (fmt_int64 7) ?h2 = Some 1"
    using conjunct1 [OF hub_one_open_connection [OF r2], THEN spec, of 1] u by simp
  ultimately show ?thesis using r2 by blast
qed

end
