(* ===== verification/Md5.thy ===== *)
theory Md5
  imports Prelude
begin

text \<open>
  The digest of \<open>apps/pkg/utils/crypto.go\<close>: \<open>MD5\<close>, the text of a digest in hexadecimal digits. \<open>crypto/md5\<close> and
  \<open>encoding/hex\<close> are of the standard library and written out: padding, the 64 steps on a block of sixteen
  words, and the digits. Nothing in the repository calls \<open>MD5\<close>.
\<close>

section \<open>The digest\<close>

definition md5_table :: "u32 list" where
  "md5_table =
     [0xd76aa478, 0xe8c7b756, 0x242070db, 0xc1bdceee, 0xf57c0faf, 0x4787c62a, 0xa8304613, 0xfd469501,
      0x698098d8, 0x8b44f7af, 0xffff5bb1, 0x895cd7be, 0x6b901122, 0xfd987193, 0xa679438e, 0x49b40821,
      0xf61e2562, 0xc040b340, 0x265e5a51, 0xe9b6c7aa, 0xd62f105d, 0x02441453, 0xd8a1e681, 0xe7d3fbc8,
      0x21e1cde6, 0xc33707d6, 0xf4d50d87, 0x455a14ed, 0xa9e3e905, 0xfcefa3f8, 0x676f02d9, 0x8d2a4c8a,
      0xfffa3942, 0x8771f681, 0x6d9d6122, 0xfde5380c, 0xa4beea44, 0x4bdecfa9, 0xf6bb4b60, 0xbebfbc70,
      0x289b7ec6, 0xeaa127fa, 0xd4ef3085, 0x04881d05, 0xd9d4d039, 0xe6db99e5, 0x1fa27cf8, 0xc4ac5665,
      0xf4292244, 0x432aff97, 0xab9423a7, 0xfc93a039, 0x655b59c3, 0x8f0ccc92, 0xffeff47d, 0x85845dd1,
      0x6fa87e4f, 0xfe2ce6e0, 0xa3014314, 0x4e0811a1, 0xf7537e82, 0xbd3af235, 0x2ad7d2bb, 0xeb86d391]"

definition md5_shifts :: "nat list" where
  "md5_shifts = concat (map (\<lambda>s. concat (replicate 4 s)) [[7, 12, 17, 22], [5, 9, 14, 20], [4, 11, 16, 23], [6, 10, 15, 21]])"

type_synonym md5_state = "u32 \<times> u32 \<times> u32 \<times> u32"

definition md5_step :: "u32 list \<Rightarrow> md5_state \<Rightarrow> nat \<Rightarrow> md5_state" where
  "md5_step m st i =
     (case st of (a, b, c, d) \<Rightarrow>
        (let (f, g) =
               (if i < 16 then ((b AND c) OR (NOT b AND d), i)
                else if i < 32 then ((d AND b) OR (NOT d AND c), (5 * i + 1) mod 16)
                else if i < 48 then (b XOR c XOR d, (3 * i + 5) mod 16)
                else (c XOR (b OR NOT d), (7 * i) mod 16))
         in (d, b + word_rotl (md5_shifts ! i) (a + f + md5_table ! i + m ! g), b, c)))"

definition md5_block :: "md5_state \<Rightarrow> u32 list \<Rightarrow> md5_state" where
  "md5_block st m =
     (case (st, foldl (md5_step m) st [0..<64]) of ((a, b, c, d), (a', b', c', d')) \<Rightarrow> (a + a', b + b', c + c', d + d'))"

text \<open>The last block ends with the length in bits, modulo \<open>2 ^ 64\<close>, least byte first.\<close>

definition le_bytes :: "nat \<Rightarrow> nat \<Rightarrow> nat list" where
  "le_bytes k n = map (\<lambda>i. n div 256 ^ i mod 256) [0..<k]"

definition md5_pad :: "nat list \<Rightarrow> nat list" where
  "md5_pad bs = bs @ 128 # replicate ((119 - length bs mod 64) mod 64) 0 @ le_bytes 8 (8 * length bs)"

fun le_words :: "nat list \<Rightarrow> u32 list" where
  "le_words (a # b # c # d # bs) = of_nat (a + 256 * b + 256 ^ 2 * c + 256 ^ 3 * d) # le_words bs"
| "le_words _ = []"

fun md5_blocks :: "md5_state \<Rightarrow> u32 list \<Rightarrow> md5_state" where
  "md5_blocks st ws = (if ws = [] then st else md5_blocks (md5_block st (take 16 ws)) (drop 16 ws))"

declare md5_blocks.simps [simp del]

definition md5_sum :: "nat list \<Rightarrow> nat list" where
  "md5_sum bs =
     (case md5_blocks (0x67452301, 0xefcdab89, 0x98badcfe, 0x10325476) (le_words (md5_pad bs)) of
        (a, b, c, d) \<Rightarrow> concat (map (\<lambda>w. le_bytes 4 (unat w)) [a, b, c, d]))"

section \<open>Hexadecimal text\<close>

definition lower_hex :: "nat \<Rightarrow> char" where
  "lower_hex d = ''0123456789abcdef'' ! d"

definition EncodeToString :: "nat list \<Rightarrow> gostring" where
  "EncodeToString bs = concat (map (\<lambda>b. [lower_hex (b div 16), lower_hex (b mod 16)]) bs)"

definition MD5 :: "gostring \<Rightarrow> gostring" where
  "MD5 str = EncodeToString (md5_sum (map of_char str))"

section \<open>Properties\<close>

lemma length_le_bytes [simp]: "length (le_bytes k n) = k"
  by (simp add: le_bytes_def)

lemma le_bytes_small: "b \<in> set (le_bytes k n) \<Longrightarrow> b < 256"
  by (auto simp: le_bytes_def)

text \<open>The padded message is whole blocks, and adds between nine bytes and a block and eight.\<close>

lemma md5_pad_blocks:
  "64 dvd length (md5_pad bs) \<and> length bs + 9 \<le> length (md5_pad bs) \<and> length (md5_pad bs) \<le> length bs + 72"
proof -
  define q r where "q = length bs div 64" and "r = length bs mod 64"
  have n: "length bs = 64 * q + r" and r: "r < 64" by (simp_all add: q_def r_def)
  have len: "length (md5_pad bs) = length bs + 9 + (119 - r) mod 64" by (simp add: md5_pad_def r_def)
  show ?thesis
  proof (cases "r \<le> 55")
    case True
    then have "119 - r = 64 + (55 - r)" by simp
    then have "(119 - r) mod 64 = (64 + (55 - r)) mod 64" by (rule arg_cong)
    also have "\<dots> = 55 - r" by (simp add: mod_add_self1 del: diff_is_0_eq')
    finally have "length (md5_pad bs) = 64 * (q + 1)" using True n len by simp
    with n True show ?thesis by simp
  next
    case False
    then have "(119 - r) mod 64 = 119 - r" by simp
    then have "length (md5_pad bs) = 64 * (q + 2)" using False r n len by simp
    with n False r show ?thesis by simp
  qed
qed

lemma lower_hex_digit: "d < 16 \<Longrightarrow> lower_hex d \<in> set ''0123456789abcdef''"
  unfolding lower_hex_def by (rule nth_mem) simp

lemma EncodeToString_digits:
  "\<forall>b \<in> set bs. b < 256 \<Longrightarrow> length (EncodeToString bs) = 2 * length bs \<and> set (EncodeToString bs) \<subseteq> set ''0123456789abcdef''"
proof (induction bs)
  case (Cons b bs)
  then have "b div 16 < 16" "b mod 16 < 16" by auto
  from this [THEN lower_hex_digit] Cons show ?case by (simp add: EncodeToString_def)
qed (simp add: EncodeToString_def)

text \<open>\<open>MD5\<close> gives 32 lower-case hexadecimal digits for every string.\<close>

theorem MD5_digits: "length (MD5 str) = 32 \<and> set (MD5 str) \<subseteq> set ''0123456789abcdef''"
proof -
  let ?bs = "map of_char str :: nat list"
  obtain a b c d where "md5_blocks (0x67452301, 0xefcdab89, 0x98badcfe, 0x10325476) (le_words (md5_pad ?bs)) = (a, b, c, d)"
    by (metis prod_cases4)
  then have "md5_sum ?bs = le_bytes 4 (unat a) @ le_bytes 4 (unat b) @ le_bytes 4 (unat c) @ le_bytes 4 (unat d)"
    by (simp add: md5_sum_def)
  then have "length (md5_sum ?bs) = 16" "\<forall>x \<in> set (md5_sum ?bs). x < 256" by (auto dest: le_bytes_small)
  with EncodeToString_digits [of "md5_sum ?bs"] show ?thesis by (simp add: MD5_def)
qed

end
