(* ===== verification/Users.thy ===== *)
theory Users
  imports Json "HOL-Library.Multiset"
begin

text \<open>
  Accounts: \<open>apps/pkg/utils/jwt.go\<close> and \<open>crypto.go\<close>, \<open>apps/logic/dao/users.go\<close>,
  \<open>apps/logic/service/user_service.go\<close>, and on the gateway's side
  \<open>apps/gateway/api/user_api/user_handler.go\<close> and \<open>apps/gateway/router/router.go\<close>.

  The libraries \<open>golang-jwt\<close>, \<open>bcrypt\<close>, \<open>gorm\<close> are not part of the repository; each is a record
  of operations and a law. Texts shown to users are kept in translation.
\<close>

section \<open>Tokens\<close>

record claims =
  cl_UserID :: i64
  cl_ExpiresAt :: int
  cl_IssuedAt :: int
  cl_Issuer :: gostring

datatype jwt_error = ErrTokenExpired | ErrTokenOther gostring

record jwt_ops =
  jw_sign :: "gostring \<Rightarrow> claims \<Rightarrow> gostring result"
  jw_parse :: "gostring \<Rightarrow> time \<Rightarrow> gostring \<Rightarrow> jwt_error + (claims \<times> bool)"

text \<open>A signed token parses to its claims under the same key until it expires.\<close>

definition jwt_laws :: "jwt_ops \<Rightarrow> bool" where
  "jwt_laws jw \<longleftrightarrow>
     (\<forall>key c tok now. jw_sign jw key c = Inr tok \<longrightarrow>
        jw_parse jw key now tok =
          (if now < cl_ExpiresAt c * second then Inr (c, True) else Inl ErrTokenExpired))"

definition JwtSecret :: gostring where "JwtSecret = ''go-im-system-super-secret-key-2026''"

text \<open>\<open>jwt.NewNumericDate\<close> keeps whole seconds.\<close>

definition NumericDate :: "time \<Rightarrow> int" where "NumericDate t = t div second"

text \<open>\<open>GenerateToken\<close>, which reads the clock twice.\<close>

definition GenerateToken :: "jwt_ops \<Rightarrow> time \<Rightarrow> time \<Rightarrow> i64 \<Rightarrow> gostring result" where
  "GenerateToken jw now1 now2 userID =
     jw_sign jw JwtSecret
       \<lparr>cl_UserID = userID, cl_ExpiresAt = NumericDate (now1 + 7 * 24 * hour),
        cl_IssuedAt = NumericDate now2, cl_Issuer = ''go-im-gateway''\<rparr>"

definition ParseToken :: "jwt_ops \<Rightarrow> time \<Rightarrow> gostring \<Rightarrow> i64 result" where
  "ParseToken jw now tok =
     (case jw_parse jw JwtSecret now tok of
        Inl ErrTokenExpired \<Rightarrow> Inl ''token expired, please log in again''
      | Inl (ErrTokenOther e) \<Rightarrow> Inl ''invalid token''
      | Inr (c, valid) \<Rightarrow> if valid then Inr (cl_UserID c) else Inl ''cannot parse token'')"

section \<open>Passwords\<close>

text \<open>\<open>bc_generate\<close> draws a salt, its first argument.\<close>

record bcrypt_ops =
  bc_generate :: "nat \<Rightarrow> gostring \<Rightarrow> gostring result"
  bc_compare :: "gostring \<Rightarrow> gostring \<Rightarrow> goerror option"

definition bcrypt_laws :: "bcrypt_ops \<Rightarrow> bool" where
  "bcrypt_laws bc \<longleftrightarrow> (\<forall>salt pw h. bc_generate bc salt pw = Inr h \<longrightarrow> bc_compare bc h pw = None)"

definition HashPassword :: "bcrypt_ops \<Rightarrow> nat \<Rightarrow> gostring \<Rightarrow> gostring result" where
  "HashPassword bc salt password = bc_generate bc salt password"

definition CheckPasswordHash :: "bcrypt_ops \<Rightarrow> gostring \<Rightarrow> gostring \<Rightarrow> bool" where
  "CheckPasswordHash bc password hash \<longleftrightarrow> bc_compare bc hash password = None"

section \<open>The user table\<close>

record user =
  us_UserId :: i64
  us_Username :: gostring
  us_Password :: gostring
  us_Nickname :: gostring
  us_Avatar :: gostring

definition NewUser :: "i64 \<Rightarrow> gostring \<Rightarrow> gostring \<Rightarrow> gostring \<Rightarrow> gostring \<Rightarrow> user" where
  "NewUser userId username password nickname avatar =
     \<lparr>us_UserId = userId, us_Username = username, us_Password = password, us_Nickname = nickname, us_Avatar = avatar\<rparr>"

text \<open>
  The table, whose collation \<open>ut_same\<close> decides when two names are the same. The name has a unique
  index, the id is the primary key. An id of zero is replaced by a fresh one, an empty nickname
  by the column's default.
\<close>

record 'd user_ops =
  ut_create :: "user \<Rightarrow> 'd \<Rightarrow> 'd \<times> goerror option"
  ut_by_name :: "gostring \<Rightarrow> 'd \<Rightarrow> 'd \<times> (user list) result"
  ut_rows :: "'d \<Rightarrow> user list"
  ut_same :: "gostring \<Rightarrow> gostring \<Rightarrow> bool"

definition stored_as :: "user \<Rightarrow> user \<Rightarrow> bool" where
  "stored_as u u' \<longleftrightarrow> u' = u\<lparr>us_UserId := us_UserId u', us_Nickname := us_Nickname u'\<rparr>
     \<and> (us_UserId u \<noteq> 0 \<longrightarrow> us_UserId u' = us_UserId u) \<and> (us_Nickname u \<noteq> '''' \<longrightarrow> us_Nickname u' = us_Nickname u)"

definition user_laws :: "'d user_ops \<Rightarrow> bool" where
  "user_laws ut \<longleftrightarrow>
     (\<forall>n. ut_same ut n n)
   \<and> (\<forall>u d d' e. ut_create ut u d = (d', e) \<longrightarrow>
        ut_rows ut d' = ut_rows ut d \<and> e \<noteq> None
        \<or> (\<exists>u'. stored_as u u' \<and> ut_rows ut d' = ut_rows ut d @ [u'] \<and> us_UserId u' \<notin> us_UserId ` set (ut_rows ut d)
             \<and> (\<forall>x \<in> set (ut_rows ut d). \<not> ut_same ut (us_Username u) (us_Username x))))
   \<and> (\<forall>n d d' res. ut_by_name ut n d = (d', res) \<longrightarrow>
        ut_rows ut d' = ut_rows ut d
        \<and> (\<forall>us. res = Inr us \<longrightarrow> mset us = mset (filter (\<lambda>u. ut_same ut n (us_Username u)) (ut_rows ut d))))"

definition FindUserByName :: "'d user_ops \<Rightarrow> gostring \<Rightarrow> 'd \<Rightarrow> 'd \<times> user result" where
  "FindUserByName ut userName d =
     (case ut_by_name ut userName d of
        (d', Inl e) \<Rightarrow> (d', Inl e)
      | (d', Inr []) \<Rightarrow> (d', Inl ''user does not exist'')
      | (d', Inr (u # others)) \<Rightarrow> (d', Inr u))"

definition InsertUser :: "'d user_ops \<Rightarrow> user \<Rightarrow> 'd \<Rightarrow> 'd \<times> goerror option" where
  "InsertUser ut u d = ut_create ut u d"

section \<open>The service\<close>

record login_args =
  la_UserId :: i64
  la_UserName :: gostring
  la_Password :: gostring

record register_args =
  ra_UserId :: i64
  ra_UserName :: gostring
  ra_Password :: gostring
  ra_Nickname :: gostring
  ra_Avatar :: gostring

definition UserLogin ::
    "'d user_ops \<Rightarrow> bcrypt_ops \<Rightarrow> jwt_ops \<Rightarrow> time \<Rightarrow> time \<Rightarrow> login_args \<Rightarrow> 'd \<Rightarrow> 'd \<times> (i64 \<times> gostring) result" where
  "UserLogin ut bc jw now1 now2 args d =
     (case FindUserByName ut (la_UserName args) d of
        (d', Inl e) \<Rightarrow> (d', Inl ''user does not exist'')
      | (d', Inr u) \<Rightarrow>
          if \<not> CheckPasswordHash bc (la_Password args) (us_Password u) then (d', Inl ''wrong password'')
          else (case GenerateToken jw now1 now2 (us_UserId u) of
                  Inl e \<Rightarrow> (d', Inl ''token generation failed'')
                | Inr tok \<Rightarrow> (d', Inr (us_UserId u, tok))))"

definition UserRegister ::
    "'d user_ops \<Rightarrow> bcrypt_ops \<Rightarrow> nat \<Rightarrow> register_args \<Rightarrow> 'd \<Rightarrow> 'd \<times> bool result" where
  "UserRegister ut bc salt args d =
     (case HashPassword bc salt (ra_Password args) of
        Inl e \<Rightarrow> (d, Inl e)
      | Inr password \<Rightarrow>
          (case InsertUser ut (NewUser (ra_UserId args) (ra_UserName args) password (ra_Nickname args) (ra_Avatar args)) d of
             (d', Some e) \<Rightarrow> (d', Inl e)
           | (d', None) \<Rightarrow> (d', Inr True)))"

section \<open>The gateway's handlers\<close>

text \<open>
  A reply is a status and a document. \<open>rpc\<close> is the call through \<open>rpcclient.LogicRpcClient\<close>, given
  the routing key of its context.
\<close>

definition bind_login :: "json option \<Rightarrow> login_args result" where
  "bind_login doc =
     bind (as_object doc) (\<lambda>fs. bind (get_int64 ''user_id'' fs) (\<lambda>i. bind (get_string ''user_name'' fs) (\<lambda>n.
     bind (get_string ''password'' fs) (\<lambda>p. Inr \<lparr>la_UserId = i, la_UserName = n, la_Password = p\<rparr>))))"

definition bind_register :: "json option \<Rightarrow> register_args result" where
  "bind_register doc =
     bind (as_object doc) (\<lambda>fs. bind (get_int64 ''user_id'' fs) (\<lambda>i. bind (get_string ''user_name'' fs) (\<lambda>n.
     bind (get_string ''password'' fs) (\<lambda>p. bind (get_string ''nickname'' fs) (\<lambda>k. bind (get_string ''avatar'' fs) (\<lambda>a.
       Inr \<lparr>ra_UserId = i, ra_UserName = n, ra_Password = p, ra_Nickname = k, ra_Avatar = a\<rparr>))))))"

definition UserLoginHandler ::
    "(gostring \<Rightarrow> login_args \<Rightarrow> 's \<Rightarrow> 's \<times> (i64 \<times> gostring) result) \<Rightarrow> json option \<Rightarrow> 's \<Rightarrow> 's \<times> int \<times> json" where
  "UserLoginHandler rpc doc s =
     (case bind_login doc of
        Inl e \<Rightarrow> (s, 400, JObj [(''error'', JStr ''bad parameters'')])
      | Inr req \<Rightarrow>
          (case rpc (la_UserName req) req s of
             (s', Inl e) \<Rightarrow> (s', 401, JObj [(''code'', JInt 401), (''error'', JStr e)])
           | (s', Inr (uid, tok)) \<Rightarrow>
               (s', 200, JObj [(''code'', JInt 200), (''msg'', JStr ''login succeeded''),
                               (''data'', JObj [(''user_id'', JInt64 uid), (''token'', JStr tok)])])))"

definition UserRegisterHandler ::
    "(gostring \<Rightarrow> register_args \<Rightarrow> 's \<Rightarrow> 's \<times> bool result) \<Rightarrow> json option \<Rightarrow> 's \<Rightarrow> 's \<times> int \<times> json" where
  "UserRegisterHandler rpc doc s =
     (case bind_register doc of
        Inl e \<Rightarrow> (s, 400, JObj [(''error'', JStr ''bad parameters'')])
      | Inr req \<Rightarrow>
          (case rpc (ra_UserName req) req s of
             (s', Inl e) \<Rightarrow> (s', 500, JObj [(''error'', JStr ''system busy'')])
           | (s', Inr ok) \<Rightarrow>
               (s', 200, JObj [(''code'', JInt 200), (''msg'', JStr ''registration succeeded''), (''data'', JBool ok)])))"

text \<open>\<open>SetupRouter\<close>: what a request leads to; \<open>corsMiddleware\<close> answers every \<open>OPTIONS\<close> itself.\<close>

datatype endpoint = Preflight int | LoginEndpoint | RegisterEndpoint | WebsocketEndpoint | NotFound

definition SetupRouter :: "gostring \<Rightarrow> gostring \<Rightarrow> endpoint" where
  "SetupRouter meth path =
     (if meth = ''OPTIONS'' then Preflight 204
      else if meth = ''POST'' \<and> path = ''/api/login'' then LoginEndpoint
      else if meth = ''POST'' \<and> path = ''/api/register'' then RegisterEndpoint
      else if meth = ''GET'' \<and> path = ''/ws'' then WebsocketEndpoint
      else NotFound)"

section \<open>Lemmas\<close>

locale token_service =
  fixes jw :: jwt_ops
  assumes jwt: "jwt_laws jw"
begin

lemma parse_generated:
  "GenerateToken jw now1 now2 u = Inr tok \<Longrightarrow>
   ParseToken jw now tok =
     (if now < NumericDate (now1 + 7 * 24 * hour) * second then Inr u else Inl ''token expired, please log in again'')"
  using jwt by (simp add: GenerateToken_def ParseToken_def jwt_laws_def)

end

locale account_table =
  fixes ut :: "'d user_ops"
  assumes users: "user_laws ut"
begin

lemma find_user:
  assumes "FindUserByName ut n d = (d', Inr u)"
  shows "u \<in> set (ut_rows ut d) \<and> ut_same ut n (us_Username u) \<and> ut_rows ut d' = ut_rows ut d"
proof -
  from assms obtain rest where r: "ut_by_name ut n d = (d', Inr (u # rest))"
    by (auto simp: FindUserByName_def split: prod.splits sum.splits list.splits)
  with users have "mset (u # rest) = mset (filter (\<lambda>x. ut_same ut n (us_Username x)) (ut_rows ut d))"
    "ut_rows ut d' = ut_rows ut d"
    unfolding user_laws_def by blast+
  from this(1) have "set (u # rest) = set (filter (\<lambda>x. ut_same ut n (us_Username x)) (ut_rows ut d))"
    by (rule mset_eq_setD)
  with \<open>ut_rows ut d' = ut_rows ut d\<close> show ?thesis by auto
qed

text \<open>The one row with a name is found, unless the query fails.\<close>

lemma find_only:
  assumes "filter (\<lambda>x. ut_same ut n (us_Username x)) (ut_rows ut d) = [u]"
    and "ut_by_name ut n d = (d', Inr us)"
  shows "FindUserByName ut n d = (d', Inr u)"
proof -
  from users assms have "mset us = {#u#}" unfolding user_laws_def by (metis mset_single_iff_right mset.simps(1,2) add_mset_add_single empty_neutral(1))
  then have "us = [u]" by simp
  with assms show ?thesis by (simp add: FindUserByName_def)
qed

lemma created:
  assumes "ut_create ut u d = (d', None)"
  obtains u' where "stored_as u u'" "ut_rows ut d' = ut_rows ut d @ [u']"
    "\<forall>x \<in> set (ut_rows ut d). \<not> ut_same ut (us_Username u) (us_Username x)"
  using users assms unfolding user_laws_def by blast

end

section \<open>Lawful instances in memory\<close>

definition text_int :: "string \<Rightarrow> int" where
  "text_int s = (case s of [] \<Rightarrow> 0 | c # r \<Rightarrow> if c = CHR ''-'' then - int (text_nat r) else int (text_nat s))"

lemma text_int_itoa [simp]: "text_int (itoa i) = i"
proof (cases "i < 0")
  case True
  then show ?thesis by (simp add: itoa_def text_int_def)
next
  case False
  obtain c r where s: "nat_text (nat i) = c # r" by (cases "nat_text (nat i)") simp_all
  have "c \<noteq> CHR ''-''" using nat_text_no_char [OF char_minus_code, of "nat i"] s by auto
  with False s show ?thesis using text_nat_nat_text [of "nat i"] by (simp add: itoa_def text_int_def)
qed

definition plain_jwt :: jwt_ops where
  "plain_jwt =
     \<lparr>jw_sign = \<lambda>key c.
        (if key = JwtSecret \<and> cl_Issuer c = ''go-im-gateway''
         then Inr (join_with CHR ''.'' [itoa (sint (cl_UserID c)), itoa (cl_ExpiresAt c), itoa (cl_IssuedAt c)])
         else Inl ''unsupported''),
      jw_parse = \<lambda>key now tok.
        (case split_on CHR ''.'' tok of
           [u, x, i] \<Rightarrow>
             if key \<noteq> JwtSecret then Inl (ErrTokenOther ''signature is invalid'')
             else if now < text_int x * second
             then Inr (\<lparr>cl_UserID = of_int (text_int u), cl_ExpiresAt = text_int x, cl_IssuedAt = text_int i,
                        cl_Issuer = ''go-im-gateway''\<rparr>, True)
             else Inl ErrTokenExpired
         | _ \<Rightarrow> Inl (ErrTokenOther ''token is malformed''))\<rparr>"

lemma plain_jwt_laws: "jwt_laws plain_jwt"
proof -
  have "CHR ''.'' \<notin> set (itoa i)" for i by (rule itoa_no_char) simp_all
  then have "split_on CHR ''.'' (join_with CHR ''.'' [itoa a, itoa b, itoa c]) = [itoa a, itoa b, itoa c]" for a b c
    by (intro split_on_join) auto
  then show ?thesis by (auto simp: jwt_laws_def plain_jwt_def)
qed

definition plain_bcrypt :: bcrypt_ops where
  "plain_bcrypt =
     \<lparr>bc_generate = \<lambda>salt pw.
        (if 72 < length pw then Inl ''password length exceeds 72 bytes'' else Inr (CHR ''$'' # nat_text salt @ CHR ''$'' # pw)),
      bc_compare = \<lambda>h pw.
        (if dropWhile (\<lambda>c. c \<noteq> CHR ''$'') (tl h) = CHR ''$'' # pw then None else Some ''mismatch'')\<rparr>"

lemma plain_bcrypt_laws: "bcrypt_laws plain_bcrypt"
proof -
  have "CHR ''$'' \<notin> set (nat_text n)" for n by (rule nat_text_no_char) simp
  then have "dropWhile (\<lambda>c. c \<noteq> CHR ''$'') (nat_text n @ CHR ''$'' # pw) = CHR ''$'' # pw" for n pw
    by (subst dropWhile_append2) auto
  then show ?thesis by (simp add: bcrypt_laws_def plain_bcrypt_def)
qed

definition mem_users :: "user list user_ops" where
  "mem_users =
     \<lparr>ut_create = \<lambda>u us.
        (if us_UserId u = 0 \<or> us_UserId u \<in> us_UserId ` set us then (us, Some ''Duplicate entry'')
         else if us_Username u \<in> us_Username ` set us then (us, Some ''Duplicate entry'')
         else (us @ [u], None)),
      ut_by_name = \<lambda>n us. (us, Inr (filter (\<lambda>u. n = us_Username u) us)),
      ut_rows = \<lambda>us. us, ut_same = (=)\<rparr>"

lemma mem_users_laws: "user_laws mem_users"
proof -
  have "stored_as u u" for u by (simp add: stored_as_def)
  then show ?thesis
    by (auto simp: user_laws_def mem_users_def split: if_splits)
qed

interpretation mem_tokens: token_service plain_jwt
  by unfold_locales (rule plain_jwt_laws)

interpretation mem_accounts: account_table mem_users
  by unfold_locales (rule mem_users_laws)

section \<open>Properties\<close>

text \<open>
  A token stands for its user for seven days: whatever the clock says when it is presented, a
  token made by \<open>GenerateToken\<close> is accepted, as the user it was made for, if and only if the
  whole second seven days after its making has not begun.
\<close>

theorem token_lifetime:
  assumes "jwt_laws jw" and "GenerateToken jw now1 now2 u = Inr tok"
  shows "(ParseToken jw now tok = Inr u \<longleftrightarrow> now < (now1 + 7 * 24 * hour) div second * second)
    \<and> (ParseToken jw now tok \<noteq> Inr u \<longrightarrow> ParseToken jw now tok = Inl ''token expired, please log in again'')"
  using token_service.parse_generated [OF token_service.intro [OF assms(1)] assms(2)]
  by (simp add: NumericDate_def)

lemma token_lifetime_witness:
  "\<exists>tok. GenerateToken plain_jwt 0 0 5 = Inr tok \<and> ParseToken plain_jwt (second * 604799) tok = Inr 5
     \<and> ParseToken plain_jwt (second * 604800) tok \<noteq> Inr 5"
proof -
  let ?tok = "join_with CHR ''.'' [itoa 5, itoa 604800, itoa 0]"
  have g: "GenerateToken plain_jwt 0 0 5 = Inr ?tok"
    by (simp add: GenerateToken_def plain_jwt_def NumericDate_def hour_def minute_def second_def)
  from token_lifetime [OF plain_jwt_laws g, of "second * 604799"] token_lifetime [OF plain_jwt_laws g, of "second * 604800"] g
  show ?thesis by (simp add: hour_def minute_def second_def)
qed

text \<open>
  C34. Logging in proves something. A login that succeeds has found a stored account of that name
  whose hash accepts the password, returns that account's id, and its token opens a connection
  as exactly that user.
\<close>

theorem login_sound:
  assumes "jwt_laws jw" and "user_laws ut"
    and "UserLogin ut bc jw now1 now2 args d = (d', Inr (uid, tok))"
    and "now < (now1 + 7 * 24 * hour) div second * second"
  shows "\<exists>u \<in> set (ut_rows ut d). ut_same ut (la_UserName args) (us_Username u) \<and> us_UserId u = uid
    \<and> bc_compare bc (us_Password u) (la_Password args) = None \<and> ParseToken jw now tok = Inr uid"
proof -
  from assms(3) obtain u where u: "FindUserByName ut (la_UserName args) d = (d', Inr u)"
    "CheckPasswordHash bc (la_Password args) (us_Password u)" "us_UserId u = uid"
    "GenerateToken jw now1 now2 uid = Inr tok"
    by (auto simp: UserLogin_def split: prod.splits sum.splits if_splits)
  from account_table.find_user [OF account_table.intro [OF assms(2)] u(1)]
  have "u \<in> set (ut_rows ut d)" "ut_same ut (la_UserName args) (us_Username u)" by simp_all
  moreover from token_service.parse_generated [OF token_service.intro [OF assms(1)] u(4)] assms(4)
  have "ParseToken jw now tok = Inr uid" by (simp add: NumericDate_def)
  ultimately show ?thesis using u(2,3) unfolding CheckPasswordHash_def by blast
qed

definition ann_args :: register_args where
  "ann_args = \<lparr>ra_UserId = 5, ra_UserName = ''ann'', ra_Password = ''pw'', ra_Nickname = ''Ann'', ra_Avatar = ''''\<rparr>"

definition ann_row :: user where
  "ann_row = \<lparr>us_UserId = 5, us_Username = ''ann'', us_Password = ''$3$pw'', us_Nickname = ''Ann'', us_Avatar = ''''\<rparr>"

lemma login_sound_witness:
  "\<exists>tok. UserLogin mem_users plain_bcrypt plain_jwt 0 0 \<lparr>la_UserId = 0, la_UserName = ''ann'', la_Password = ''pw''\<rparr> [ann_row]
      = ([ann_row], Inr (5, tok)) \<and> ParseToken plain_jwt 0 tok = Inr 5"
proof -
  let ?a = "\<lparr>la_UserId = 0, la_UserName = ''ann'', la_Password = ''pw''\<rparr>"
  obtain tok where tok: "GenerateToken plain_jwt 0 0 5 = Inr tok" by (simp add: GenerateToken_def plain_jwt_def)
  have l: "UserLogin mem_users plain_bcrypt plain_jwt 0 0 ?a [ann_row] = ([ann_row], Inr (5, tok))"
    using tok by (simp add: UserLogin_def FindUserByName_def mem_users_def ann_row_def CheckPasswordHash_def plain_bcrypt_def)
  from login_sound [OF plain_jwt_laws mem_users_laws l, of 0] l show ?thesis
    by (auto simp: hour_def minute_def second_def)
qed

text \<open>
  Registering opens the door. After a registration that the service reports as done, the
  account's name and password log in, unless the query or the signing fails, as the registered
  id; and a name that was taken could not have been registered.
\<close>

theorem register_then_login:
  assumes "user_laws ut" and "bcrypt_laws bc"
    and "UserRegister ut bc salt args d = (d1, Inr ok)"
    and "ut_by_name ut (ra_UserName args) d1 = (d2, Inr us)"
    and "\<And>i. \<exists>tok. GenerateToken jw now1 now2 i = Inr tok"
  shows "ok \<and> (\<forall>x \<in> set (ut_rows ut d). \<not> ut_same ut (ra_UserName args) (us_Username x))
    \<and> (\<exists>i tok. (ra_UserId args \<noteq> 0 \<longrightarrow> i = ra_UserId args) \<and>
        UserLogin ut bc jw now1 now2 \<lparr>la_UserId = x, la_UserName = ra_UserName args, la_Password = ra_Password args\<rparr> d1
          = (d2, Inr (i, tok)))"
proof -
  note table = account_table.intro [OF assms(1)]
  from assms(3) obtain h where h: "bc_generate bc salt (ra_Password args) = Inr h" and ok: "ok"
    and c: "ut_create ut (NewUser (ra_UserId args) (ra_UserName args) h (ra_Nickname args) (ra_Avatar args)) d = (d1, None)"
    by (auto simp: UserRegister_def HashPassword_def InsertUser_def split: prod.splits sum.splits option.splits)
  from account_table.created [OF table c] obtain u' where
    u': "stored_as (NewUser (ra_UserId args) (ra_UserName args) h (ra_Nickname args) (ra_Avatar args)) u'"
    and rows: "ut_rows ut d1 = ut_rows ut d @ [u']"
    and free: "\<forall>x \<in> set (ut_rows ut d). \<not> ut_same ut (ra_UserName args) (us_Username x)"
    by (auto simp: NewUser_def)
  from u' have name: "us_Username u' = ra_UserName args" and pw: "us_Password u' = h"
    and i: "ra_UserId args \<noteq> 0 \<longrightarrow> us_UserId u' = ra_UserId args"
    by (cases u'; auto simp: stored_as_def NewUser_def)+
  have "ut_same ut n n" for n using assms(1) by (simp add: user_laws_def)
  with free have "filter (\<lambda>x. ut_same ut (ra_UserName args) (us_Username x)) (ut_rows ut d1) = [u']"
    by (simp add: rows name filter_empty_conv)
  from account_table.find_only [OF table this assms(4)]
  have found: "FindUserByName ut (ra_UserName args) d1 = (d2, Inr u')" .
  obtain tok where tok: "GenerateToken jw now1 now2 (us_UserId u') = Inr tok" using assms(5) by blast
  have "bc_compare bc h (ra_Password args) = None" using assms(2) h by (simp add: bcrypt_laws_def)
  with found tok have "UserLogin ut bc jw now1 now2
      \<lparr>la_UserId = x, la_UserName = ra_UserName args, la_Password = ra_Password args\<rparr> d1 = (d2, Inr (us_UserId u', tok))"
    by (simp add: UserLogin_def CheckPasswordHash_def pw)
  with ok free i show ?thesis by blast
qed

lemma register_then_login_witness:
  "\<exists>tok. UserLogin mem_users plain_bcrypt plain_jwt 0 0 \<lparr>la_UserId = 0, la_UserName = ''ann'', la_Password = ''pw''\<rparr>
      (fst (UserRegister mem_users plain_bcrypt 3 ann_args [])) = ([ann_row], Inr (5, tok))"
proof -
  have three: "digit_char 3 = CHR ''3''" by code_simp
  have r: "UserRegister mem_users plain_bcrypt 3 ann_args [] = ([ann_row], Inr True)"
    by (simp add: UserRegister_def HashPassword_def plain_bcrypt_def InsertUser_def mem_users_def NewUser_def
        ann_args_def ann_row_def nat_text.simps three)
  have q: "ut_by_name mem_users (ra_UserName ann_args) [ann_row] = ([ann_row], Inr [ann_row])"
    by (simp add: mem_users_def ann_args_def ann_row_def)
  have s: "\<exists>tok. GenerateToken plain_jwt 0 0 i = Inr tok" for i by (simp add: GenerateToken_def plain_jwt_def)
  from register_then_login [OF mem_users_laws plain_bcrypt_laws r q s, of 0] r
  show ?thesis by (simp add: ann_args_def)
qed

end
