(* ===== verification/Gateway.thy ===== *)
theory Gateway
  imports Hub Mq Messages Users
begin

text \<open>
  The gateway: \<open>apps/gateway/ws/chat.go\<close>, \<open>handler.go\<close>, \<open>mq_consumer.go\<close>, the reading side of
  \<open>client.go\<close>, and what is left of \<open>reliability.go\<close> (its lines 111 to 326 are commented out).

  A gateway's state are its connections, its channels to the broker, its id generator and the
  logic server behind the RPC client. Redis is in the state of the connection table. The calls
  \<open>LogicService.*\<close> are given with the routing key the context carries; \<open>go_sse\<close> is what an HTTP GET
  on the agent's address yields, line by line.
\<close>

section \<open>State and collaborators\<close>

record ('r, 'b, 'g, 'l) gateway =
  gw_hub :: "'r hub"
  gw_mq :: "'b mq"
  gw_gen :: 'g
  gw_logic :: 'l

record ('r, 'b, 'g, 'l) gateway_ops =
  go_redis :: "'r redis_ops"
  go_amqp :: "'b amqp_ops"
  go_next :: "'g \<Rightarrow> i64 \<times> 'g"
  go_jwt :: jwt_ops
  go_reliable :: bool
  go_notifies :: bool
  go_addr :: gostring
  go_agent :: gostring
  go_sse :: "gostring \<Rightarrow> (gostring list) result"
  rpc_SyncUnread :: "gostring \<Rightarrow> i64 \<Rightarrow> 'l \<Rightarrow> 'l \<times> (message_item list) result"
  rpc_ReadMessages :: "gostring \<Rightarrow> i64 \<Rightarrow> 'l \<Rightarrow> 'l \<times> bool result"
  rpc_AckMessage :: "gostring \<Rightarrow> i64 \<Rightarrow> 'l \<Rightarrow> 'l \<times> bool result"
  rpc_NotifyDelivered :: "gostring \<Rightarrow> i64 \<Rightarrow> 'l \<Rightarrow> 'l \<times> bool result"

record client_request =
  cr_ChatType :: gostring
  cr_Receiver :: i64
  cr_GroupID :: i64
  cr_Message :: gostring

definition unmarshal_request :: "json option \<Rightarrow> client_request result" where
  "unmarshal_request doc =
     bind (as_object doc) (\<lambda>fs. bind (get_string ''chat_type'' fs) (\<lambda>t. bind (get_int64 ''receiver'' fs) (\<lambda>r.
     bind (get_int64 ''group_id'' fs) (\<lambda>g. bind (get_string ''message'' fs) (\<lambda>m.
       Inr \<lparr>cr_ChatType = t, cr_Receiver = r, cr_GroupID = g, cr_Message = m\<rparr>)))))"

section \<open>Ids\<close>

definition singleChatConvID :: "i64 \<Rightarrow> i64 \<Rightarrow> gostring" where
  "singleChatConvID a b =
     (if b <s a then fmt_int64 b @ ''_'' @ fmt_int64 a else fmt_int64 a @ ''_'' @ fmt_int64 b)"

definition groupConvID :: "i64 \<Rightarrow> gostring" where "groupConvID g = ''group_'' @ fmt_int64 g"
definition aiConvID :: "i64 \<Rightarrow> gostring" where "aiConvID u = ''ai_'' @ fmt_int64 u"

definition seq_key :: "gostring \<Rightarrow> i64 \<Rightarrow> gostring" where
  "seq_key conversationID participantID = ''seq:'' @ conversationID @ '':'' @ fmt_int64 participantID"

definition GetNextSeqID :: "'r redis_ops \<Rightarrow> gostring \<Rightarrow> i64 \<Rightarrow> 'r \<Rightarrow> 'r \<times> i64 result" where
  "GetNextSeqID rd conversationID participantID r = rd_incr rd (seq_key conversationID participantID) r"

definition GenerateMsgID :: "('g \<Rightarrow> i64 \<times> 'g) \<Rightarrow> 'g \<Rightarrow> i64 \<times> 'g" where
  "GenerateMsgID nxt g = nxt g"

text \<open>The sequence number, then the message id; both are zero when there is no reliability manager.\<close>

definition assign_ids ::
    "('r, 'b, 'g, 'l) gateway_ops \<Rightarrow> gostring \<Rightarrow> i64 \<Rightarrow> ('r, 'b, 'g, 'l) gateway \<Rightarrow>
     ('r, 'b, 'g, 'l) gateway \<times> (i64 \<times> i64) result" where
  "assign_ids ops convID senderId s =
     (if \<not> go_reliable ops then (s, Inr (0, 0))
      else (case GetNextSeqID (go_redis ops) convID senderId (hub_redis (gw_hub s)) of
              (r', Inl e) \<Rightarrow> (s\<lparr>gw_hub := (gw_hub s)\<lparr>hub_redis := r'\<rparr>\<rparr>, Inl e)
            | (r', Inr seqID) \<Rightarrow>
                (case GenerateMsgID (go_next ops) (gw_gen s) of
                   (msgID, g') \<Rightarrow> (s\<lparr>gw_hub := (gw_hub s)\<lparr>hub_redis := r'\<rparr>, gw_gen := g'\<rparr>, Inr (msgID, seqID)))))"

section \<open>Messages to the user\<close>

definition server_ack :: "i64 \<Rightarrow> i64 \<Rightarrow> frame" where
  "server_ack msgID seqID =
     Raw (''{'' @ quoted ''chat_type'' @ '':'' @ quoted ''server_ack'' @ '','' @ quoted ''msg_id'' @ '':'' @ fmt_int64 msgID
          @ '','' @ quoted ''seq_id'' @ '':'' @ fmt_int64 seqID @ ''}'')"

definition pong :: frame where
  "pong = Raw (''{'' @ quoted ''action'' @ '':'' @ quoted ''pong'' @ ''}'')"

definition ai_end :: frame where
  "ai_end = Raw (''{'' @ quoted ''chat_type'' @ '':'' @ quoted ''ai_end'' @ '','' @ quoted ''from'' @ '':'' @ quoted ''-1'' @ ''}'')"

definition ai_chunk :: "gostring \<Rightarrow> frame" where
  "ai_chunk chunk =
     Raw (''{'' @ quoted ''chat_type'' @ '':'' @ quoted ''ai_chunk'' @ '','' @ quoted ''from'' @ '':'' @ quoted ''-1'' @ '',''
          @ quoted ''content'' @ '':'' @ quoted chunk @ ''}'')"

definition read_receipt :: "i64 \<Rightarrow> i64 \<Rightarrow> frame" where
  "read_receipt userId msgId =
     Raw (''{'' @ quoted ''chat_type'' @ '': '' @ quoted ''ack'' @ '', '' @ quoted ''read_receipt'' @ '': '' @ fmt_int64 userId
          @ '', '' @ quoted ''msg_id'' @ '': '' @ fmt_int64 msgId @ ''}'')"

text \<open>\<open>json.Marshal\<close> of a map sorts the keys.\<close>

definition marshalChatPush :: "i64 \<Rightarrow> i64 \<Rightarrow> i64 \<Rightarrow> i64 \<Rightarrow> gostring \<Rightarrow> json" where
  "marshalChatPush msgID seqID groupID from_id content =
     JObj [(''chat_type'', JStr ''chat_push''), (''content'', JStr content), (''from'', JInt64 from_id),
           (''group_id'', JInt64 groupID), (''msg_id'', JInt64 msgID), (''seq_id'', JInt64 seqID)]"

definition unread_frame :: "message_item \<Rightarrow> frame" where
  "unread_frame m =
     Doc (JObj [(''chat_type'', JStr ''sync_unread''), (''content'', JStr (mi_Content m)), (''group_id'', JInt64 (mi_GroupId m)),
                (''msg_id'', JInt64 (mi_MsgId m)), (''send_status'', JInt (sint (mi_SendStatus m))),
                (''sender_id'', JInt64 (mi_SenderId m)), (''seq_id'', JInt64 (mi_SeqId m))])"

text \<open>A step on the connection table alone.\<close>

definition on_hub :: "('r hub \<Rightarrow> 'r hub) \<Rightarrow> ('r, 'b, 'g, 'l) gateway \<Rightarrow> ('r, 'b, 'g, 'l) gateway" where
  "on_hub f s = s\<lparr>gw_hub := f (gw_hub s)\<rparr>"

section \<open>Upstream\<close>

text \<open>Publish, and acknowledge to the sender if that worked; the flag says whether it did.\<close>

definition publish_and_ack ::
    "('r, 'b, 'g, 'l) gateway_ops \<Rightarrow> i64 \<Rightarrow> UploadPayload \<Rightarrow> ('r, 'b, 'g, 'l) gateway \<Rightarrow>
     ('r, 'b, 'g, 'l) gateway \<times> bool" where
  "publish_and_ack ops senderId p s =
     (case PublishUpload (go_amqp ops) ''upload.all'' (marshal_upload p) (gw_mq s) of
        (q', Some e) \<Rightarrow> (s\<lparr>gw_mq := q'\<rparr>, False)
      | (q', None) \<Rightarrow>
          (on_hub (send_to (fmt_int64 senderId) (server_ack (up_MsgID p) (up_SeqID p))) (s\<lparr>gw_mq := q'\<rparr>), True))"

definition handleSingleChat ::
    "('r, 'b, 'g, 'l) gateway_ops \<Rightarrow> i64 \<Rightarrow> json option \<Rightarrow> ('r, 'b, 'g, 'l) gateway \<Rightarrow> ('r, 'b, 'g, 'l) gateway" where
  "handleSingleChat ops senderId msgData s =
     (case unmarshal_request msgData of
        Inl e \<Rightarrow> s
      | Inr rq \<Rightarrow>
          (let convID = (if go_reliable ops then singleChatConvID senderId (cr_Receiver rq) else '''') in
           (case assign_ids ops convID senderId s of
              (s1, Inl e) \<Rightarrow> s1
            | (s1, Inr (msgID, seqID)) \<Rightarrow>
                fst (publish_and_ack ops senderId
                  \<lparr>up_MsgID = msgID, up_SeqID = seqID, up_ChatType = ChatTypeSingle, up_GroupID = 0, up_ConvID = convID,
                   up_SenderID = senderId, up_ReceiverID = cr_Receiver rq, up_Content = cr_Message rq\<rparr> s1))))"

definition handleGroupChat ::
    "('r, 'b, 'g, 'l) gateway_ops \<Rightarrow> i64 \<Rightarrow> json option \<Rightarrow> ('r, 'b, 'g, 'l) gateway \<Rightarrow> ('r, 'b, 'g, 'l) gateway" where
  "handleGroupChat ops senderId msgData s =
     (case unmarshal_request msgData of
        Inl e \<Rightarrow> s
      | Inr rq \<Rightarrow>
          (let convID = groupConvID (cr_GroupID rq) in
           (case assign_ids ops convID senderId s of
              (s1, Inl e) \<Rightarrow> s1
            | (s1, Inr (msgID, seqID)) \<Rightarrow>
                fst (publish_and_ack ops senderId
                  \<lparr>up_MsgID = msgID, up_SeqID = seqID, up_ChatType = ChatTypeGroup, up_GroupID = cr_GroupID rq, up_ConvID = convID,
                   up_SenderID = senderId, up_ReceiverID = cr_Receiver rq, up_Content = cr_Message rq\<rparr> s1))))"

text \<open>\<open>url.QueryEscape\<close>, byte by byte.\<close>

definition upper_hex :: "nat \<Rightarrow> char" where
  "upper_hex d = (if d < 10 then char_of (48 + d) else char_of (55 + d))"

definition escape_byte :: "char \<Rightarrow> gostring" where
  "escape_byte c =
     (let n = (of_char c :: nat) in
      if (48 \<le> n \<and> n \<le> 57) \<or> (65 \<le> n \<and> n \<le> 90) \<or> (97 \<le> n \<and> n \<le> 122) \<or> c \<in> {CHR ''-'', CHR ''_'', CHR ''.'', CHR ''~''} then [c]
      else if c = CHR '' '' then ''+''
      else [CHR ''%'', upper_hex (n div 16), upper_hex (n mod 16)])"

definition QueryEscape :: "gostring \<Rightarrow> gostring" where
  "QueryEscape s = concat (map escape_byte s)"

definition agent_url :: "gostring \<Rightarrow> i64 \<Rightarrow> gostring \<Rightarrow> gostring" where
  "agent_url addr senderId message =
     addr @ ''/agent/chat/sse?user_id='' @ fmt_int64 senderId @ ''&message='' @ QueryEscape message"

text \<open>The loop over the lines of the answer, sending to connection \<open>i\<close>.\<close>

fun relay :: "nat \<Rightarrow> gostring list \<Rightarrow> 'r hub \<Rightarrow> 'r hub" where
  "relay i [] h = h"
| "relay i (line # rest) h =
     (if line = ''data: [DONE]'' then on_ws i (SendMessage ai_end) h
      else if prefix ''data: '' line then relay i rest (on_ws i (SendMessage (ai_chunk (drop 6 line))) h)
      else relay i rest h)"

definition handlerAIChat ::
    "('r, 'b, 'g, 'l) gateway_ops \<Rightarrow> i64 \<Rightarrow> json option \<Rightarrow> ('r, 'b, 'g, 'l) gateway \<Rightarrow> ('r, 'b, 'g, 'l) gateway" where
  "handlerAIChat ops senderId msgData s =
     (case unmarshal_request msgData of
        Inl e \<Rightarrow> s
      | Inr rq \<Rightarrow>
          (let convID = aiConvID senderId in
           (case assign_ids ops convID senderId s of
              (s1, Inl e) \<Rightarrow> s1
            | (s1, Inr (msgID, seqID)) \<Rightarrow>
                (case publish_and_ack ops senderId
                    \<lparr>up_MsgID = msgID, up_SeqID = seqID, up_ChatType = ChatTypeAI, up_GroupID = 0, up_ConvID = convID,
                     up_SenderID = senderId, up_ReceiverID = -1, up_Content = cr_Message rq\<rparr> s1 of
                   (s2, False) \<Rightarrow> s2
                 | (s2, True) \<Rightarrow>
                     (case go_sse ops (agent_url (go_agent ops) senderId (cr_Message rq)) of
                        Inl e \<Rightarrow> s2
                      | Inr ls \<Rightarrow>
                          (case HubGet (fmt_int64 senderId) (gw_hub s2) of
                             None \<Rightarrow> s2
                           | Some i \<Rightarrow> on_hub (relay i ls) s2))))))"

record ack_request =
  ak_MsgId :: i64
  ak_SenderId :: i64

definition unmarshal_ack :: "json option \<Rightarrow> ack_request result" where
  "unmarshal_ack doc =
     bind (as_object doc) (\<lambda>fs. bind (get_int64 ''msg_id'' fs) (\<lambda>m. bind (get_int64 ''sender_id'' fs) (\<lambda>u.
       Inr \<lparr>ak_MsgId = m, ak_SenderId = u\<rparr>)))"

definition handleAck ::
    "('r, 'b, 'g, 'l) gateway_ops \<Rightarrow> i64 \<Rightarrow> json option \<Rightarrow> ('r, 'b, 'g, 'l) gateway \<Rightarrow> ('r, 'b, 'g, 'l) gateway" where
  "handleAck ops userId msgData s =
     (case unmarshal_ack msgData of
        Inl e \<Rightarrow> s
      | Inr ak \<Rightarrow>
          (case rpc_AckMessage ops (fmt_int64 userId) (ak_MsgId ak) (gw_logic s) of
             (l', Inl e) \<Rightarrow> s\<lparr>gw_logic := l'\<rparr>
           | (l', Inr ok) \<Rightarrow>
               on_hub (send_to (fmt_int64 (ak_SenderId ak)) (read_receipt userId (ak_MsgId ak))) (s\<lparr>gw_logic := l'\<rparr>)))"

section \<open>Reading from a connection\<close>

text \<open>
  One round of \<open>ReadPump\<close> on connection \<open>i\<close>. The chat handlers run in goroutines of their own: the
  round only says which is started.
\<close>

datatype chat_kind = SingleChat | AIChat | GroupChat
datatype next_round = Leave | Continue | Start chat_kind

definition dispatch :: "json option \<Rightarrow> gostring result" where
  "dispatch doc = bind (as_object doc) (get_string ''chat_type'')"

definition read_round ::
    "('r, 'b, 'g, 'l) gateway_ops \<Rightarrow> nat \<Rightarrow> json option \<Rightarrow> ('r, 'b, 'g, 'l) gateway \<Rightarrow> ('r, 'b, 'g, 'l) gateway \<times> next_round" where
  "read_round ops i msgData s =
     (let uid = Uid (hub_heap (gw_hub s) ! i) in
      case dispatch msgData of
        Inl e \<Rightarrow> (s, Leave)
      | Inr t \<Rightarrow>
          if t = ''ping'' then
            (on_hub (\<lambda>h. on_ws i (SendMessage pong)
                (h\<lparr>hub_redis := fst (rd_expire (go_redis ops) (route_key uid) (30 * second) (hub_redis h))\<rparr>)) s, Continue)
          else if t = ''single_chat'' then (s, Start SingleChat)
          else if t = ''ai_chat'' then (s, Start AIChat)
          else if t = ''group_chat'' then (s, Start GroupChat)
          else if t = ''ack'' then (handleAck ops uid msgData s, Continue)
          else (s, Continue))"

definition run_chat ::
    "('r, 'b, 'g, 'l) gateway_ops \<Rightarrow> chat_kind \<Rightarrow> i64 \<Rightarrow> json option \<Rightarrow> ('r, 'b, 'g, 'l) gateway \<Rightarrow> ('r, 'b, 'g, 'l) gateway" where
  "run_chat ops k =
     (case k of SingleChat \<Rightarrow> handleSingleChat ops | AIChat \<Rightarrow> handlerAIChat ops | GroupChat \<Rightarrow> handleGroupChat ops)"

text \<open>What \<open>ReadPump\<close> defers, in order.\<close>

definition read_exit :: "('r, 'b, 'g, 'l) gateway_ops \<Rightarrow> nat \<Rightarrow> ('r, 'b, 'g, 'l) gateway \<Rightarrow> ('r, 'b, 'g, 'l) gateway" where
  "read_exit ops i s =
     on_hub (\<lambda>h. on_ws i WsClose (HubRemove (go_redis ops) (fmt_int64 (Uid (hub_heap h ! i))) i h)) s"

section \<open>Connecting\<close>

definition syncMessage ::
    "('r, 'b, 'g, 'l) gateway_ops \<Rightarrow> i64 \<Rightarrow> nat \<Rightarrow> ('r, 'b, 'g, 'l) gateway \<Rightarrow> ('r, 'b, 'g, 'l) gateway \<times> goerror option" where
  "syncMessage ops userID i s =
     (let routingKey = fmt_int64 userID in
      case rpc_SyncUnread ops routingKey userID (gw_logic s) of
        (l1, Inl e) \<Rightarrow> (s\<lparr>gw_logic := l1\<rparr>, Some e)
      | (l1, Inr ms) \<Rightarrow>
          if ms = [] then (s\<lparr>gw_logic := l1\<rparr>, None)
          else
            (let s1 = on_hub (fold (\<lambda>m. on_ws i (SendMessage (unread_frame m))) ms) (s\<lparr>gw_logic := l1\<rparr>) in
             case rpc_ReadMessages ops routingKey userID l1 of
               (l2, Inl e) \<Rightarrow> (s1\<lparr>gw_logic := l2\<rparr>, Some e)
             | (l2, Inr ok) \<Rightarrow> (s1\<lparr>gw_logic := l2\<rparr>, None)))"

text \<open>
  \<open>Handler\<close>. \<open>upgrade\<close> is the error of the websocket upgrade: it is logged with \<open>Fatalf\<close>, which ends
  the process. \<open>Served\<close> means that \<open>ReadPump\<close> has been started, \<open>Unserved\<close> that it has not.
\<close>

datatype handler_outcome = Refused gostring | ProcessExit gostring | Served nat | Unserved nat goerror

definition Handler ::
    "('r, 'b, 'g, 'l) gateway_ops \<Rightarrow> time \<Rightarrow> goerror option \<Rightarrow> (nat \<Rightarrow> bool) \<Rightarrow> gostring \<Rightarrow> ('r, 'b, 'g, 'l) gateway \<Rightarrow>
     ('r, 'b, 'g, 'l) gateway \<times> handler_outcome" where
  "Handler ops now upgrade pick tok s =
     (if tok = '''' then (s, Refused ''no token'')
      else
        (case ParseToken (go_jwt ops) now tok of
           Inl e \<Rightarrow> (s, Refused ''authentication failed, please log in again'')
         | Inr userID \<Rightarrow>
             (case upgrade of
                Some e \<Rightarrow> (s, ProcessExit e)
              | None \<Rightarrow>
                  (let i = length (hub_heap (gw_hub s));
                       h = hub_connect pick userID (gw_hub s);
                       h' = h\<lparr>hub_redis := fst (rd_set (go_redis ops) (route_key userID) (go_addr ops) (24 * hour) (hub_redis h))\<rparr>
                   in case syncMessage ops userID i (s\<lparr>gw_hub := h'\<rparr>) of
                        (s', None) \<Rightarrow> (s', Served i)
                      | (s', Some e) \<Rightarrow> (s', Unserved i e)))))"

section \<open>Downstream\<close>

text \<open>The third component is the delivery notice the handler starts a goroutine for, if any.\<close>

definition handleMQDelivery ::
    "('r, 'b, 'g, 'l) gateway_ops \<Rightarrow> json option \<Rightarrow> ('r, 'b, 'g, 'l) gateway \<Rightarrow>
     ('r, 'b, 'g, 'l) gateway \<times> disposition \<times> (i64 \<times> i64) option" where
  "handleMQDelivery ops body s =
     (case unmarshal_down body of
        Inl e \<Rightarrow> (s, Nack False, None)
      | Inr p \<Rightarrow>
          (case HubGet (fmt_int64 (dp_ReceiverID p)) (gw_hub s) of
             None \<Rightarrow> (s, Ack, None)
           | Some i \<Rightarrow>
               (on_hub (on_ws i (SendMessage (Doc (marshalChatPush (dp_MsgID p) (dp_SeqID p) (dp_GroupID p) (dp_SenderID p) (dp_Content p))))) s,
                Ack, if go_notifies ops then Some (dp_SenderID p, dp_MsgID p) else None)))"

definition NotifyDeliveredRPC ::
    "('r, 'b, 'g, 'l) gateway_ops \<Rightarrow> i64 \<times> i64 \<Rightarrow> ('r, 'b, 'g, 'l) gateway \<Rightarrow> ('r, 'b, 'g, 'l) gateway" where
  "NotifyDeliveredRPC ops notice s =
     (case notice of (senderID, msgID) \<Rightarrow>
        s\<lparr>gw_logic := fst (rpc_NotifyDelivered ops (fmt_int64 senderID) msgID (gw_logic s))\<rparr>)"

section \<open>Ids are unambiguous\<close>

lemma fmt_int64_no_char: "c \<noteq> CHR ''-'' \<Longrightarrow> (of_char c :: nat) < 48 \<or> 57 < (of_char c :: nat) \<Longrightarrow> c \<notin> set (fmt_int64 w)"
  by (simp add: fmt_int64_def itoa_no_char)

lemma fmt_int64_first: "fmt_int64 w \<noteq> [] \<and> (hd (fmt_int64 w) = CHR ''-'' \<or> (of_char (hd (fmt_int64 w)) :: nat) \<le> 57)"
proof -
  have ne: "fmt_int64 w \<noteq> []" by (simp add: fmt_int64_def)
  then have "hd (fmt_int64 w) \<in> set (fmt_int64 w)" by simp
  then have "hd (fmt_int64 w) = CHR ''-'' \<or> \<not> 57 < (of_char (hd (fmt_int64 w)) :: nat)"
    using fmt_int64_no_char by blast
  with ne show ?thesis by auto
qed

text \<open>A separator that occurs in neither part splits a text in one way.\<close>

lemma append_separator_inj:
  assumes "c \<notin> set a" "c \<notin> set a'" "a @ c # b = a' @ c # b'"
  shows "a = a' \<and> b = b'"
  using assms
proof (induction a arbitrary: a')
  case Nil
  then show ?case by (cases a') auto
next
  case (Cons x a)
  then show ?case by (cases a') auto
qed

lemma underscore_free: "CHR ''_'' \<notin> set (fmt_int64 w)"
  by (rule fmt_int64_no_char) simp_all

lemma colon_free: "CHR '':'' \<notin> set (fmt_int64 w)"
  by (rule fmt_int64_no_char) simp_all

lemma singleChatConvID_sorted: "\<exists>x y. {x, y} = {a, b} \<and> x \<le>s y \<and> singleChatConvID a b = fmt_int64 x @ CHR ''_'' # fmt_int64 y"
proof (cases "b <s a")
  case True
  then have "b \<le>s a" by (simp add: word_sle_eq word_sless_alt)
  with True show ?thesis by (intro exI [of _ b] exI [of _ a]) (auto simp: singleChatConvID_def)
next
  case False
  then have "a \<le>s b" by (simp add: word_sle_eq word_sless_alt)
  with False show ?thesis by (intro exI [of _ a] exI [of _ b]) (auto simp: singleChatConvID_def)
qed

lemma singleChatConvID_inj: "singleChatConvID a b = singleChatConvID c d \<longleftrightarrow> {a, b} = {c, d}"
proof
  assume "{a, b} = {c, d}"
  then consider "a = c" "b = d" | "a = d" "b = c" by (auto simp: doubleton_eq_iff)
  then show "singleChatConvID a b = singleChatConvID c d"
  proof cases
    case 2
    have "sint c = sint d \<Longrightarrow> c = d" using fmt_int64_inj [of c d] by (simp add: fmt_int64_def)
    then have "c = d \<or> (c <s d \<longleftrightarrow> \<not> d <s c)"
      using linorder_less_linear [of "sint c" "sint d"] unfolding word_sless_alt by linarith
    with 2 show ?thesis by (auto simp: singleChatConvID_def)
  qed simp
next
  assume eq: "singleChatConvID a b = singleChatConvID c d"
  from singleChatConvID_sorted [of a b] obtain x y where xy: "{x, y} = {a, b}" "singleChatConvID a b = fmt_int64 x @ CHR ''_'' # fmt_int64 y"
    by blast
  from singleChatConvID_sorted [of c d] obtain u v where uv: "{u, v} = {c, d}" "singleChatConvID c d = fmt_int64 u @ CHR ''_'' # fmt_int64 v"
    by blast
  from eq have "fmt_int64 x @ CHR ''_'' # fmt_int64 y = fmt_int64 u @ CHR ''_'' # fmt_int64 v" by (simp only: xy(2) uv(2))
  from append_separator_inj [OF underscore_free underscore_free this] have "x = u" "y = v" by simp_all
  with xy(1) uv(1) show "{a, b} = {c, d}" by simp
qed

lemma single_conv_first: "singleChatConvID a b \<noteq> [] \<and>
    (hd (singleChatConvID a b) = CHR ''-'' \<or> (of_char (hd (singleChatConvID a b)) :: nat) \<le> 57)"
  using singleChatConvID_sorted [of a b] fmt_int64_first by fastforce

lemma colon_free_conv: "CHR '':'' \<notin> set (singleChatConvID a b)" "CHR '':'' \<notin> set (groupConvID g)" "CHR '':'' \<notin> set (aiConvID u)"
  by (auto simp: singleChatConvID_def groupConvID_def aiConvID_def colon_free)

lemma seq_key_inj:
  assumes "CHR '':'' \<notin> set c" "CHR '':'' \<notin> set c'"
  shows "seq_key c u = seq_key c' u' \<longleftrightarrow> c = c' \<and> u = u'"
proof
  assume "seq_key c u = seq_key c' u'"
  then have "c @ CHR '':'' # fmt_int64 u = c' @ CHR '':'' # fmt_int64 u'" by (simp add: seq_key_def)
  from append_separator_inj [OF assms this] show "c = c' \<and> u = u'" by simp
qed simp

text \<open>
  Conversations do not share their counters. The id of a single chat depends on the pair of
  users and not on who writes, different pairs have different ids, and no single chat, group or
  AI conversation ever has the id of one of another kind; so the Redis keys of two different
  (conversation, participant) pairs are different.
\<close>

theorem conversation_ids_unambiguous:
  "(singleChatConvID a b = singleChatConvID c d \<longleftrightarrow> {a, b} = {c, d})
   \<and> (groupConvID g = groupConvID g' \<longleftrightarrow> g = g') \<and> (aiConvID a = aiConvID b \<longleftrightarrow> a = b)
   \<and> singleChatConvID a b \<noteq> groupConvID g \<and> singleChatConvID a b \<noteq> aiConvID c \<and> groupConvID g \<noteq> aiConvID a
   \<and> (seq_key (singleChatConvID a b) u = seq_key (singleChatConvID c d) u' \<longleftrightarrow> {a, b} = {c, d} \<and> u = u')
   \<and> seq_key (singleChatConvID a b) u \<noteq> seq_key (groupConvID g) u'
   \<and> seq_key (singleChatConvID a b) u \<noteq> seq_key (aiConvID c) u' \<and> seq_key (groupConvID g) u \<noteq> seq_key (aiConvID c) u'"
proof -
  have sg: "singleChatConvID x y \<noteq> groupConvID z" for x y z
    using single_conv_first [of x y] by (auto simp: groupConvID_def)
  have sa: "singleChatConvID x y \<noteq> aiConvID z" for x y z
    using single_conv_first [of x y] by (auto simp: aiConvID_def)
  have ga: "groupConvID x \<noteq> aiConvID y" for x y by (simp add: groupConvID_def aiConvID_def)
  have gi: "groupConvID x = groupConvID y \<longleftrightarrow> x = y" for x y by (simp add: groupConvID_def)
  have ai: "aiConvID x = aiConvID y \<longleftrightarrow> x = y" for x y by (simp add: aiConvID_def)
  show ?thesis
    using sg sa ga gi ai by (simp only: singleChatConvID_inj seq_key_inj colon_free_conv simp_thms)
qed

section \<open>Sequence numbers\<close>

text \<open>Requests for a number one after the other, all of which succeed.\<close>

fun seq_run :: "'r redis_ops \<Rightarrow> (gostring \<times> i64) list \<Rightarrow> 'r \<Rightarrow> i64 list option" where
  "seq_run rd [] r = Some []"
| "seq_run rd ((conv, u) # reqs) r =
     (case GetNextSeqID rd conv u r of
        (r', Inl e) \<Rightarrow> None
      | (r', Inr n) \<Rightarrow> map_option (\<lambda>ns. n # ns) (seq_run rd reqs r'))"

lemma seq_run_counts:
  assumes "redis_laws rd" and "\<forall>x \<in> set reqs. CHR '':'' \<notin> set (fst x)" and "seq_run rd reqs r = Some ns"
  shows "length ns = length reqs \<and> (\<forall>i < length reqs. ns ! i =
    rd_counter rd r (seq_key (fst (reqs ! i)) (snd (reqs ! i))) + of_nat (count_list (take (Suc i) reqs) (reqs ! i)))"
  using assms(2,3)
proof (induction reqs arbitrary: r ns)
  case (Cons x reqs)
  obtain conv u where x: "x = (conv, u)" by (cases x)
  from Cons.prems x obtain r' n ms where g: "rd_incr rd (seq_key conv u) r = (r', Inr n)" "seq_run rd reqs r' = Some ms" "ns = n # ms"
    by (auto simp: GetNextSeqID_def split: prod.splits sum.splits)
  from redis_client.incr_value [OF redis_client.intro [OF assms(1)] g(1)]
  have n: "n = rd_counter rd r (seq_key conv u) + 1" "rd_counter rd r' (seq_key conv u) = n"
    "\<And>j. j \<noteq> seq_key conv u \<Longrightarrow> rd_counter rd r' j = rd_counter rd r j" by blast+
  from Cons.IH [OF _ g(2)] Cons.prems have len: "length ms = length reqs"
    and IH: "\<And>i. i < length reqs \<Longrightarrow> ms ! i =
      rd_counter rd r' (seq_key (fst (reqs ! i)) (snd (reqs ! i))) + of_nat (count_list (take (Suc i) reqs) (reqs ! i))" by auto
  have free: "CHR '':'' \<notin> set conv" "\<And>i. i < length reqs \<Longrightarrow> CHR '':'' \<notin> set (fst (reqs ! i))"
    using Cons.prems x by auto
  have step: "ns ! Suc i = rd_counter rd r (seq_key (fst (reqs ! i)) (snd (reqs ! i)))
      + of_nat (count_list (take (Suc i) reqs) (reqs ! i) + (if reqs ! i = x then 1 else 0))" if i: "i < length reqs" for i
  proof (cases "reqs ! i = x")
    case True
    then show ?thesis using IH [OF i] g(3) n(1,2) x by simp
  next
    case False
    then have "seq_key (fst (reqs ! i)) (snd (reqs ! i)) \<noteq> seq_key conv u"
      using seq_key_inj [OF free(2) [OF i] free(1)] x by (auto simp: prod_eq_iff)
    with False show ?thesis using IH [OF i] g(3) n(3) by simp
  qed
  have "ns ! i = rd_counter rd r (seq_key (fst ((x # reqs) ! i)) (snd ((x # reqs) ! i)))
      + of_nat (count_list (take (Suc i) (x # reqs)) ((x # reqs) ! i))" if "i < length (x # reqs)" for i
  proof (cases i)
    case 0
    then show ?thesis using g(3) n(1) x by simp
  next
    case (Suc j)
    with that have "j < length reqs" by simp
    from step [OF this] Suc show ?thesis by (auto simp: add.commute)
  qed
  with g(3) len show ?case by auto
qed simp

text \<open>
  Sequence numbers count per conversation and sender. Of requests that succeed one after the
  other, each gets the counter's old value plus the number of requests so far for the same
  conversation by the same participant: one sender's messages are numbered without gaps or
  repetitions, and two senders of one conversation are numbered independently.
\<close>

theorem seq_ids_count_per_sender:
  assumes "redis_laws rd" and "\<forall>x \<in> set reqs. CHR '':'' \<notin> set (fst x)" and "seq_run rd reqs r = Some ns"
    and "i < length reqs"
  shows "ns ! i = rd_counter rd r (seq_key (fst (reqs ! i)) (snd (reqs ! i))) + of_nat (count_list (take (Suc i) reqs) (reqs ! i))"
  using seq_run_counts [OF assms(1-3)] assms(4) by blast

lemma seq_ids_count_per_sender_witness:
  "\<exists>ns. seq_run mem_redis_ops [(singleChatConvID 1 2, 1), (singleChatConvID 2 1, 2), (singleChatConvID 1 2, 1)]
      \<lparr>mr_values = [], mr_counters = [], mr_faults = []\<rparr> = Some ns \<and> ns ! 0 = 1 \<and> ns ! 1 = 1 \<and> ns ! 2 = 2"
proof -
  let ?c = "singleChatConvID 1 2"
  let ?reqs = "[(?c, 1), (singleChatConvID 2 1, 2), (?c, 1)]"
  let ?r = "\<lparr>mr_values = [], mr_counters = [], mr_faults = []\<rparr>"
  have sym: "singleChatConvID 2 1 = ?c" by (subst singleChatConvID_inj) auto
  have keys: "seq_key ?c 1 \<noteq> seq_key ?c 2" by (simp add: seq_key_inj colon_free_conv)
  obtain ns where ns: "seq_run mem_redis_ops ?reqs ?r = Some ns"
    by (simp add: GetNextSeqID_def mem_redis_ops_def mr_fault_def Let_def)
  have free: "\<forall>x \<in> set ?reqs. CHR '':'' \<notin> set (fst x)" by (simp add: colon_free_conv)
  note count = seq_ids_count_per_sender [OF mem_redis_laws free ns]
  have "ns ! 0 = 1" "ns ! 1 = 1" "ns ! 2 = 2"
    using count [of 0] count [of 1] count [of 2] keys
    by (simp_all add: sym mem_redis_ops_def mr_counter_def numeral_2_eq_2)
  with ns show ?thesis by blast
qed

section \<open>Sending\<close>

lemma on_hub_sel [simp]:
  "gw_hub (on_hub f s) = f (gw_hub s)" "gw_mq (on_hub f s) = gw_mq s" "gw_gen (on_hub f s) = gw_gen s"
  "gw_logic (on_hub f s) = gw_logic s"
  by (simp_all add: on_hub_def)

lemma assign_ids_sel:
  "assign_ids ops conv u s = (s', res) \<Longrightarrow> gw_mq s' = gw_mq s \<and> gw_logic s' = gw_logic s
     \<and> Clients (gw_hub s') = Clients (gw_hub s) \<and> hub_heap (gw_hub s') = hub_heap (gw_hub s)"
  by (auto simp: assign_ids_def split: if_splits prod.splits sum.splits)

lemma send_to_cong:
  "Clients h' = Clients h \<Longrightarrow> hub_heap h' = hub_heap h \<Longrightarrow> hub_heap (send_to k m h') = hub_heap (send_to k m h)"
  by (simp add: send_to_def HubGet_def split: option.split)

text \<open>The message a chat request becomes, with the ids it has been given.\<close>

definition upload_of :: "chat_kind \<Rightarrow> i64 \<Rightarrow> gostring \<Rightarrow> client_request \<Rightarrow> i64 \<Rightarrow> i64 \<Rightarrow> UploadPayload" where
  "upload_of k senderId convID rq msgID seqID =
     \<lparr>up_MsgID = msgID, up_SeqID = seqID,
      up_ChatType = (case k of SingleChat \<Rightarrow> ChatTypeSingle | AIChat \<Rightarrow> ChatTypeAI | GroupChat \<Rightarrow> ChatTypeGroup),
      up_GroupID = (if k = GroupChat then cr_GroupID rq else 0), up_ConvID = convID, up_SenderID = senderId,
      up_ReceiverID = (if k = AIChat then -1 else cr_Receiver rq), up_Content = cr_Message rq\<rparr>"

definition conv_of :: "('r, 'b, 'g, 'l) gateway_ops \<Rightarrow> chat_kind \<Rightarrow> i64 \<Rightarrow> client_request \<Rightarrow> gostring" where
  "conv_of ops k senderId rq =
     (case k of
        SingleChat \<Rightarrow> if go_reliable ops then singleChatConvID senderId (cr_Receiver rq) else ''''
      | AIChat \<Rightarrow> aiConvID senderId
      | GroupChat \<Rightarrow> groupConvID (cr_GroupID rq))"

lemma run_chat_unfold:
  "k \<noteq> AIChat \<Longrightarrow> run_chat ops k u doc s =
     (case unmarshal_request doc of
        Inl e \<Rightarrow> s
      | Inr rq \<Rightarrow>
          (case assign_ids ops (conv_of ops k u rq) u s of
             (s1, Inl e) \<Rightarrow> s1
           | (s1, Inr (m, q)) \<Rightarrow> fst (publish_and_ack ops u (upload_of k u (conv_of ops k u rq) rq m q) s1)))"
  by (cases k) (simp_all add: run_chat_def handleSingleChat_def handleGroupChat_def conv_of_def upload_of_def Let_def
      split: sum.split prod.split)


text \<open>The RPC client in front of the service of theory \<open>Messages\<close> on table \<open>t\<close>.\<close>

definition flag_reply :: "'d \<times> bool \<times> goerror option \<Rightarrow> 'd \<times> bool result" where
  "flag_reply r = (case r of (d, ok, e) \<Rightarrow> (d, case e of None \<Rightarrow> Inr ok | Some x \<Rightarrow> Inl x))"

definition talks_to :: "('r, 'b, 'g, 'l) gateway_ops \<Rightarrow> 'l msg_table \<Rightarrow> bool" where
  "talks_to ops t \<longleftrightarrow>
     rpc_SyncUnread ops = (\<lambda>key. SyncUnread t)
   \<and> rpc_ReadMessages ops = (\<lambda>key u d. flag_reply (ReadMessages t u d))
   \<and> rpc_AckMessage ops = (\<lambda>key m d. flag_reply (AckMessage t m d))
   \<and> rpc_NotifyDelivered ops = (\<lambda>key m d. flag_reply (NotifyDelivered t m d))"

definition mem_gateway :: "(mem_redis, mem_broker, i64, message mem_db) gateway_ops" where
  "mem_gateway =
     \<lparr>go_redis = mem_redis_ops, go_amqp = mem_amqp, go_next = \<lambda>g. (g, g + 1), go_jwt = plain_jwt, go_reliable = True,
      go_notifies = True, go_addr = ''g1'', go_agent = ''http://agent'',
      go_sse = \<lambda>url. Inr [''data: hel'', '''', ''data: lo'', '''', ''data: [DONE]'', ''''],
      rpc_SyncUnread = \<lambda>key. SyncUnread (mem_table MsgId),
      rpc_ReadMessages = \<lambda>key u d. flag_reply (ReadMessages (mem_table MsgId) u d),
      rpc_AckMessage = \<lambda>key m d. flag_reply (AckMessage (mem_table MsgId) m d),
      rpc_NotifyDelivered = \<lambda>key m d. flag_reply (NotifyDelivered (mem_table MsgId) m d)\<rparr>"

lemma mem_gateway_talks: "talks_to mem_gateway (mem_table MsgId)"
  by (simp add: talks_to_def mem_gateway_def)

text \<open>A gateway with user 1 connected, and what it needs of the world.\<close>

definition gw_one :: "message list \<Rightarrow> (mem_redis, mem_broker, i64, message mem_db) gateway" where
  "gw_one rows =
     \<lparr>gw_hub = \<lparr>Clients = [(fmt_int64 1, 0)], hub_heap = [NewWsClient (\<lambda>n. False) 1],
         hub_redis = \<lparr>mr_values = [], mr_counters = [], mr_faults = []\<rparr>\<rparr>,
      gw_mq = \<lparr>mq_broker = \<lparr>mb_queues = [], mb_bindings = [(uploadExchangeName, ''upload.all'', ''logic.upload.queue'')],
         mb_faults = []\<rparr>, publishIdx = 0\<rparr>,
      gw_gen = 100, gw_logic = \<lparr>mem_rows = rows, mem_faults = []\<rparr>\<rparr>"

definition hi_request :: json where
  "hi_request = JObj [(''chat_type'', JStr ''single_chat''), (''receiver'', JInt 2), (''message'', JStr ''hi'')]"

lemma hi_request_parses:
  "unmarshal_request (Some hi_request) = Inr \<lparr>cr_ChatType = ''single_chat'', cr_Receiver = 2, cr_GroupID = 0, cr_Message = ''hi''\<rparr>"
  by (simp add: unmarshal_request_def hi_request_def as_object_def get_int64_def get_string_def json_field_def int64_range_def)


section \<open>Receiving\<close>

text \<open>
  A downstream message reaches its receiver and nobody else. A delivery that the gateway can
  read is acknowledged whatever happens; if the receiver is connected here, the connection is
  handed one \<open>chat_push\<close> with the message's ids, group, sender and text, no other connection
  sees anything, and a delivery notice for that message is started; if the receiver is not
  connected nothing changes. A delivery that cannot be read is dropped for good.
\<close>

theorem push_reaches_receiver:
  assumes "handleMQDelivery ops body s = (s', disp, notice)"
  shows "case unmarshal_down body of
      Inl e \<Rightarrow> s' = s \<and> disp = Nack False \<and> notice = None
    | Inr p \<Rightarrow> disp = Ack \<and>
        (case HubGet (fmt_int64 (dp_ReceiverID p)) (gw_hub s) of
           None \<Rightarrow> s' = s \<and> notice = None
         | Some i \<Rightarrow>
             hub_heap (gw_hub s') = (hub_heap (gw_hub s))[i := SendMessage
               (Doc (JObj [(''chat_type'', JStr ''chat_push''), (''content'', JStr (dp_Content p)), (''from'', JInt64 (dp_SenderID p)),
                   (''group_id'', JInt64 (dp_GroupID p)), (''msg_id'', JInt64 (dp_MsgID p)), (''seq_id'', JInt64 (dp_SeqID p))]))
               (hub_heap (gw_hub s) ! i)]
             \<and> (go_notifies ops \<longrightarrow> notice = Some (dp_SenderID p, dp_MsgID p)))"
  using assms by (auto simp: handleMQDelivery_def marshalChatPush_def split: sum.splits option.splits)

definition hi_down :: DownPayload where
  "hi_down = \<lparr>dp_MsgID = 7, dp_SeqID = 1, dp_GroupID = 0, dp_SenderID = 3, dp_ReceiverID = 1, dp_Content = ''yo'', dp_ChatType = ''single_chat''\<rparr>"

lemma push_reaches_receiver_witness:
  "ws_sent (hub_heap (gw_hub (fst (handleMQDelivery mem_gateway (Some (marshal_down hi_down)) (gw_one [])))) ! 0)
     = [Doc (marshalChatPush 7 1 0 3 ''yo'')]"
proof -
  let ?r = "handleMQDelivery mem_gateway (Some (marshal_down hi_down)) (gw_one [])"
  have "?r = (fst ?r, fst (snd ?r), snd (snd ?r))" by simp
  from push_reaches_receiver [OF this] show ?thesis
    by (simp add: hi_down_def HubGet_def gw_one_def NewWsClient_def marshalChatPush_def)
qed

section \<open>Synchronising\<close>

text \<open>What sending a list of messages to one connection does.\<close>

lemma fold_on_ws:
  "i < length (hub_heap h) \<Longrightarrow> fold (\<lambda>m. on_ws i (f m)) ms h = on_ws i (fold f ms) h"
proof (induction ms arbitrary: h)
  case Nil
  then show ?case by (simp add: on_ws_def)
next
  case (Cons m ms)
  then show ?case by (simp add: on_ws_def)
qed

lemma fold_SendMessage_open:
  "\<not> ws_closed c \<Longrightarrow> length (SendChan c) + length fs \<le> send_cap \<Longrightarrow>
     ws_accepted (fold SendMessage fs c) = ws_accepted c @ fs \<and> \<not> ws_closed (fold SendMessage fs c)
     \<and> SendChan (fold SendMessage fs c) = SendChan c @ fs"
  by (induction fs arbitrary: c) (simp_all add: SendMessage_open)

lemma fold_SendMessage_closed:
  "ws_closed c \<Longrightarrow> (\<And>n. \<not> ws_pick c n) \<Longrightarrow>
     SendChan (fold SendMessage fs c) = SendChan c \<and> ws_accepted (fold SendMessage fs c) = ws_accepted c"
  by (induction fs arbitrary: c) (simp_all add: SendMessage_def Let_def)

lemma fold_SendMessage_Uid: "Uid (fold SendMessage fs c) = Uid c"
  by (induction fs arbitrary: c) simp_all

text \<open>
  A synchronisation that goes through: the rows that were unread, in some order, have been handed
  to the connection, and none of the user's rows is unread any more.
\<close>

lemma syncMessage_effect:
  assumes laws: "table_laws MsgId t" and rpc: "talks_to ops t"
    and ok: "syncMessage ops u i s = (s', None)" and i: "i < length (hub_heap (gw_hub s))"
  shows "\<exists>ms. mset ms = mset (filter (unread_by u) (tb_rows t (gw_logic s)))
    \<and> gw_hub s' = on_ws i (fold SendMessage (map (unread_frame \<circ> to_item) ms)) (gw_hub s)
    \<and> filter (unread_by u) (tb_rows t (gw_logic s')) = []"
proof -
  note db = db_table_of [OF laws]
  obtain l1 res where g: "GetUnreadMessages t u (gw_logic s) = (l1, res)" by fastforce
  have "res \<noteq> Inl e" for e
    using ok g rpc by (auto simp: syncMessage_def talks_to_def SyncUnread_def Let_def)
  then obtain ms where res: "res = Inr ms" by (cases res) auto
  from g res db_table.find_ok [OF db] db_table.find_rows [OF db]
  have ms: "mset ms = mset (filter (unread_by u) (tb_rows t (gw_logic s)))" "tb_rows t l1 = tb_rows t (gw_logic s)"
    unfolding GetUnreadMessages_def by blast+
  show ?thesis
  proof (cases "ms = []")
    case True
    with ok g res rpc have "s' = s\<lparr>gw_logic := l1\<rparr>" by (simp add: syncMessage_def talks_to_def SyncUnread_def Let_def)
    moreover have "filter (unread_by u) (tb_rows t l1) = []" using ms True by simp
    moreover have "on_ws i id (gw_hub s) = gw_hub s" by (simp add: on_ws_def)
    ultimately show ?thesis using ms(1) True by (intro exI [of _ "[]"]) simp
  next
    case False
    obtain l2 e where m: "MarkMessagesAsRead t u l1 = (l2, e)" by fastforce
    from ok g res rpc m False have e: "e = None" and s': "gw_logic s' = l2"
      "gw_hub s' = fold (\<lambda>m. on_ws i (SendMessage (unread_frame m))) (map to_item ms) (gw_hub s)"
      by (auto simp: syncMessage_def talks_to_def SyncUnread_def ReadMessages_def flag_reply_def Let_def split: option.splits)
    have "tb_rows t l2 = update_rows (unread_by u) confirm (tb_rows t l1)"
      by (rule db_table.updates_ok [OF db _ m [unfolded e MarkMessagesAsRead_def]]) (simp add: confirm_def)
    then have "filter (unread_by u) (tb_rows t l2) = []"
      by (simp add: filter_updated_gone unread_by_def confirm_def)
    moreover have "gw_hub s' = on_ws i (fold SendMessage (map (unread_frame \<circ> to_item) ms)) (gw_hub s)"
      unfolding s'(2) fold_on_ws [OF i] by (simp add: fold_map comp_def)
    ultimately show ?thesis using ms(1) s'(1) by blast
  qed
qed

lemma Handler_served:
  assumes "Handler ops now up pick tok s = (s', Served i)"
  obtains u h where "ParseToken (go_jwt ops) now tok = Inr u" "up = None" "i = length (hub_heap (gw_hub s))"
    "Clients h = Clients (hub_connect pick u (gw_hub s))" "hub_heap h = hub_heap (hub_connect pick u (gw_hub s))"
    "syncMessage ops u i (s\<lparr>gw_hub := h\<rparr>) = (s', None)"
proof -
  from assms obtain u where t: "tok \<noteq> ''''" and u: "ParseToken (go_jwt ops) now tok = Inr u" and up: "up = None"
    by (auto simp: Handler_def split: if_splits sum.splits option.splits)
  define h where "h = (hub_connect pick u (gw_hub s))\<lparr>hub_redis := fst (rd_set (go_redis ops) (route_key u) (go_addr ops) (24 * hour)
      (hub_redis (hub_connect pick u (gw_hub s))))\<rparr>"
  obtain s1 e where r: "syncMessage ops u (length (hub_heap (gw_hub s))) (s\<lparr>gw_hub := h\<rparr>) = (s1, e)" by fastforce
  have "Handler ops now up pick tok s = (case e of None \<Rightarrow> (s1, Served (length (hub_heap (gw_hub s))))
      | Some x \<Rightarrow> (s1, Unserved (length (hub_heap (gw_hub s))) x))"
    using t u up r by (simp add: Handler_def Let_def h_def split: option.split)
  with assms have "e = None" "s1 = s'" "i = length (hub_heap (gw_hub s))" by (auto split: option.splits)
  with r have "syncMessage ops u i (s\<lparr>gw_hub := h\<rparr>) = (s', None)" by simp
  from that [OF u up \<open>i = length (hub_heap (gw_hub s))\<close> _ _ this] show thesis by (simp add: h_def)
qed

lemma Handler_syncs:
  assumes "table_laws MsgId t" and "talks_to ops t" and "hub_inv (gw_hub s, gone)"
    and "Handler ops now upgrade pick tok s = (s', Served i)"
  shows "\<exists>u ms. ParseToken (go_jwt ops) now tok = Inr u \<and> HubGet (fmt_int64 u) (gw_hub s') = Some i
    \<and> Uid (hub_heap (gw_hub s') ! i) = u
    \<and> mset ms = mset (filter (unread_by u) (tb_rows t (gw_logic s)))
    \<and> filter (unread_by u) (tb_rows t (gw_logic s')) = []
    \<and> (length ms \<le> 1024 \<longrightarrow>
        ws_accepted (hub_heap (gw_hub s') ! i) = map (unread_frame \<circ> to_item) ms \<and> \<not> ws_closed (hub_heap (gw_hub s') ! i))
    \<and> (\<forall>j < length (hub_heap (gw_hub s)). Uid (hub_heap (gw_hub s) ! j) \<noteq> u \<longrightarrow>
        hub_heap (gw_hub s') ! j = hub_heap (gw_hub s) ! j)"
proof -
  from Handler_served [OF assms(4)] obtain u h where u: "ParseToken (go_jwt ops) now tok = Inr u"
    and i: "i = length (hub_heap (gw_hub s))"
    and h: "Clients h = Clients (hub_connect pick u (gw_hub s))" "hub_heap h = hub_heap (hub_connect pick u (gw_hub s))"
    and sync: "syncMessage ops u i (s\<lparr>gw_hub := h\<rparr>) = (s', None)" by blast
  note e = hub_connect_effect [OF assms(3), where pick = pick and uid = u]
  have len: "length (hub_heap h) = Suc i" by (simp only: h(2) e(1) i)
  from syncMessage_effect [OF assms(1,2) sync] len obtain ms where ms: "mset ms = mset (filter (unread_by u) (tb_rows t (gw_logic s)))"
    and hub: "gw_hub s' = on_ws i (fold SendMessage (map (unread_frame \<circ> to_item) ms)) h"
    and none: "filter (unread_by u) (tb_rows t (gw_logic s')) = []" by auto
  have new: "hub_heap h ! i = NewWsClient pick u" by (simp only: h(2) i e(3))
  have at_i: "hub_heap (gw_hub s') ! i = fold SendMessage (map (unread_frame \<circ> to_item) ms) (NewWsClient pick u)"
    using hub len new by simp
  have "HubGet (fmt_int64 u) (gw_hub s') = Some i" by (simp add: HubGet_def hub h(1) e(2) i)
  moreover have "Uid (hub_heap (gw_hub s') ! i) = u" unfolding at_i fold_SendMessage_Uid by (simp add: NewWsClient_def)
  moreover have "length ms \<le> 1024 \<longrightarrow>
      ws_accepted (hub_heap (gw_hub s') ! i) = map (unread_frame \<circ> to_item) ms \<and> \<not> ws_closed (hub_heap (gw_hub s') ! i)"
    using fold_SendMessage_open [of "NewWsClient pick u" "map (unread_frame \<circ> to_item) ms"]
    by (simp add: at_i) (simp add: NewWsClient_def send_cap_def)
  moreover have "hub_heap (gw_hub s') ! j = hub_heap (gw_hub s) ! j"
    if j: "j < length (hub_heap (gw_hub s))" and other: "Uid (hub_heap (gw_hub s) ! j) \<noteq> u" for j
  proof -
    have "map_of (Clients (gw_hub s)) (fmt_int64 u) \<noteq> Some j"
    proof
      assume "map_of (Clients (gw_hub s)) (fmt_int64 u) = Some j"
      with assms(3) have "fmt_int64 u = fmt_int64 (Uid (hub_heap (gw_hub s) ! j))" unfolding hub_inv_def prod.case by blast
      with other show False by simp
    qed
    then have "hub_heap h ! j = hub_heap (gw_hub s) ! j" unfolding h(2) using e(4) [OF j] by simp
    moreover have "hub_heap (gw_hub s') ! j = hub_heap h ! j" using j by (simp add: hub i)
    ultimately show ?thesis by simp
  qed
  ultimately show ?thesis using u ms none by blast
qed

lemma gw_one_serves:
  obtains tok where "ParseToken (go_jwt mem_gateway) 0 tok = Inr u"
    "snd (Handler mem_gateway 0 None (\<lambda>n. True) tok (gw_one rows)) = Served 1"
proof -
  have jw: "go_jwt mem_gateway = plain_jwt" by (simp add: mem_gateway_def)
  obtain tok where tok: "GenerateToken plain_jwt 0 0 u = Inr tok" by (simp add: GenerateToken_def plain_jwt_def)
  from token_service.parse_generated [OF token_service.intro [OF plain_jwt_laws] tok, of 0]
  have p: "ParseToken plain_jwt 0 tok = Inr u" by (simp add: NumericDate_def hour_def minute_def second_def)
  have ne: "tok \<noteq> ''''" using tok by (auto simp: GenerateToken_def plain_jwt_def)
  let ?s = "gw_one rows"
  have len: "length (hub_heap (gw_hub ?s)) = 1" by (simp add: gw_one_def)
  have "snd (syncMessage mem_gateway u 1 (?s\<lparr>gw_hub := h\<rparr>)) = None" for h
    by (simp add: syncMessage_def mem_gateway_def SyncUnread_def GetUnreadMessages_def mem_table_def next_fault_def gw_one_def
        ReadMessages_def MarkMessagesAsRead_def flag_reply_def Let_def)
  then have "snd (Handler mem_gateway 0 None (\<lambda>n. True) tok ?s) = Served 1"
    using ne p by (simp add: Handler_def jw len Let_def split: prod.split option.split) (metis option.distinct(1) snd_conv)
  with p jw that show thesis by simp
qed

lemma gw_one_inv: "hub_inv (gw_hub (gw_one rows), {})"
  by (simp add: hub_inv_def gw_one_def NewWsClient_def)

text \<open>
  Coming online. When a connection is accepted, it belongs to the user of its token and is the
  one \<open>Get\<close> finds; the messages that were unread are handed to it, each once; none of the user's
  messages is unread afterwards; if there were at most 1024, all are in its channel, in the order
  of the query, and it is still open; and other users' connections see nothing.
\<close>

theorem connect_syncs_unread:
  assumes "table_laws MsgId t" and "talks_to ops t" and "hub_inv (gw_hub s, gone)"
    and "Handler ops now upgrade pick tok s = (s', Served i)"
  shows "\<exists>u ms. ParseToken (go_jwt ops) now tok = Inr u \<and> HubGet (fmt_int64 u) (gw_hub s') = Some i
    \<and> Uid (hub_heap (gw_hub s') ! i) = u
    \<and> mset ms = mset (filter (unread_by u) (tb_rows t (gw_logic s)))
    \<and> filter (unread_by u) (tb_rows t (gw_logic s')) = []
    \<and> (length ms \<le> 1024 \<longrightarrow>
        ws_accepted (hub_heap (gw_hub s') ! i) = map (unread_frame \<circ> to_item) ms \<and> \<not> ws_closed (hub_heap (gw_hub s') ! i))
    \<and> (\<forall>j < length (hub_heap (gw_hub s)). Uid (hub_heap (gw_hub s) ! j) \<noteq> u \<longrightarrow>
        hub_heap (gw_hub s') ! j = hub_heap (gw_hub s) ! j)"
  using assms by (rule Handler_syncs)

definition unread_row :: message where
  "unread_row = \<lparr>MsgId = 7, SeqId = 1, SenderId = 3, ReceiverId = 5, GroupId = 0, IsRead = False, Content = ''yo'', SendStatus = 0\<rparr>"

lemma connect_syncs_unread_witness:
  "\<exists>tok. snd (Handler mem_gateway 0 None (\<lambda>n. True) tok (gw_one [unread_row])) = Served 1
     \<and> HubGet (fmt_int64 5) (gw_hub (fst (Handler mem_gateway 0 None (\<lambda>n. True) tok (gw_one [unread_row])))) = Some 1"
proof -
  obtain tok where tok: "ParseToken (go_jwt mem_gateway) 0 tok = Inr 5"
    and served: "snd (Handler mem_gateway 0 None (\<lambda>n. True) tok (gw_one [unread_row])) = Served 1"
    by (rule gw_one_serves)
  let ?r = "Handler mem_gateway 0 None (\<lambda>n. True) tok (gw_one [unread_row])"
  from served have r: "?r = (fst ?r, Served 1)" by (metis prod.collapse)
  from connect_syncs_unread [OF mem_table_laws mem_gateway_talks gw_one_inv r] tok
  have "HubGet (fmt_int64 5) (gw_hub (fst ?r)) = Some 1" by auto
  with served show ?thesis by blast
qed

text \<open>
  Read without being seen. Synchronising does not look at what became of the messages: on a
  connection that has been closed meanwhile, by a second login or an overflow, nothing is put in
  the channel, and still the user's messages are all marked read, so no later login brings them.
\<close>

theorem sync_marks_dropped_as_read:
  assumes "table_laws MsgId t" and "talks_to ops t" and "i < length (hub_heap (gw_hub s))"
    and "ws_closed (hub_heap (gw_hub s) ! i)" and "\<And>n. \<not> ws_pick (hub_heap (gw_hub s) ! i) n"
    and "syncMessage ops u i s = (s', None)"
  shows "SendChan (hub_heap (gw_hub s') ! i) = SendChan (hub_heap (gw_hub s) ! i)
    \<and> filter (unread_by u) (tb_rows t (gw_logic s')) = []"
proof -
  from syncMessage_effect [OF assms(1,2,6,3)] obtain ms where
    "gw_hub s' = on_ws i (fold SendMessage (map (unread_frame \<circ> to_item) ms)) (gw_hub s)"
    "filter (unread_by u) (tb_rows t (gw_logic s')) = []" by blast
  with fold_SendMessage_closed [OF assms(4,5), of "map (unread_frame \<circ> to_item) ms"] assms(3)
  show ?thesis by simp
qed

lemma sync_marks_dropped_as_read_witness:
  "let s = on_hub (on_ws 0 WsClose) (gw_one [unread_row\<lparr>ReceiverId := 1\<rparr>]); s' = fst (syncMessage mem_gateway 1 0 s) in
     SendChan (hub_heap (gw_hub s') ! 0) = [] \<and> filter (unread_by 1) (mem_rows (gw_logic s')) = []
     \<and> filter (unread_by 1) (mem_rows (gw_logic s)) \<noteq> []"
proof -
  let ?s = "on_hub (on_ws 0 WsClose) (gw_one [unread_row\<lparr>ReceiverId := 1\<rparr>])"
  let ?r = "syncMessage mem_gateway 1 0 ?s"
  have len: "0 < length (hub_heap (gw_hub ?s))" by (simp add: gw_one_def)
  have c: "ws_closed (hub_heap (gw_hub ?s) ! 0)" by (simp add: gw_one_def)
  have p: "\<not> ws_pick (hub_heap (gw_hub ?s) ! 0) n" for n by (simp add: gw_one_def NewWsClient_def WsClose_def)
  have "snd ?r = None"
    by (simp add: syncMessage_def mem_gateway_def SyncUnread_def GetUnreadMessages_def mem_table_def next_fault_def gw_one_def
        ReadMessages_def MarkMessagesAsRead_def flag_reply_def Let_def)
  then have r: "?r = (fst ?r, None)" by (metis prod.collapse)
  from sync_marks_dropped_as_read [OF mem_table_laws mem_gateway_talks len c p r]
  have "SendChan (hub_heap (gw_hub (fst ?r)) ! 0) = SendChan (hub_heap (gw_hub ?s) ! 0)"
    "filter (unread_by 1) (mem_rows (gw_logic (fst ?r))) = []" by (simp_all add: mem_table_def)
  moreover have "SendChan (hub_heap (gw_hub ?s) ! 0) = []" by (simp add: gw_one_def NewWsClient_def)
  moreover have "filter (unread_by 1) (mem_rows (gw_logic ?s)) \<noteq> []" by (simp add: gw_one_def unread_row_def unread_by_def)
  ultimately show ?thesis by (simp only: Let_def simp_thms)
qed

section \<open>Two gateways, one Redis\<close>

text \<open>
  A user who has moved from gateway \<open>a\<close> to gateway \<open>b\<close> is still in \<open>a\<close>'s table until the old
  connection's reader ends; when it does, it deletes the route that \<open>b\<close> has written.
\<close>

lemma stale_exit_erases_route:
  assumes "redis_laws (go_redis ops)" and "HubGet (fmt_int64 u) (gw_hub a) = Some i" and "Uid (hub_heap (gw_hub a) ! i) = u"
    and "snd (rd_del (go_redis ops) (route_key u) r) = None"
  shows "rd_value (go_redis ops) (hub_redis (gw_hub (read_exit ops i (on_hub (hub_redis_update (\<lambda>_. r)) a)))) (route_key u) = None"
proof -
  obtain r' where d: "rd_del (go_redis ops) (route_key u) r = (r', None)" using assms(4) by (metis prod.collapse)
  from redis_client.del_value [OF redis_client.intro [OF assms(1)] d]
  have "rd_value (go_redis ops) r' (route_key u) = None" by simp
  moreover have "hub_redis (gw_hub (read_exit ops i (on_hub (hub_redis_update (\<lambda>_. r)) a))) = r'"
    using assms(2,3) d by (simp add: read_exit_def HubRemove_def HubGet_def route_key_def)
  ultimately show ?thesis by simp
qed

text \<open>A request with a valid token that is no websocket handshake ends the process.\<close>

lemma upgrade_failure_exits:
  "tok \<noteq> '''' \<Longrightarrow> ParseToken (go_jwt ops) now tok = Inr u \<Longrightarrow> Handler ops now (Some e) pick tok s = (s, ProcessExit e)"
  by (simp add: Handler_def)

section \<open>Relaying the assistant's answer\<close>

text \<open>The lines between the events are empty.\<close>

lemma relay_chunks:
  assumes "\<forall>c \<in> set chunks. c \<noteq> ''[DONE]''" and "i < length (hub_heap h)"
  shows "relay i (concat (map (\<lambda>c. [''data: '' @ c, '''']) chunks) @ [''data: [DONE]'', '''']) h
    = on_ws i (fold SendMessage (map ai_chunk chunks @ [ai_end])) h"
  using assms
proof (induction chunks arbitrary: h)
  case Nil
  then show ?case by simp
next
  case (Cons c chunks)
  then have "relay i (concat (map (\<lambda>c. [''data: '' @ c, '''']) chunks) @ [''data: [DONE]'', '''']) (on_ws i (SendMessage (ai_chunk c)) h)
      = on_ws i (fold SendMessage (map ai_chunk chunks @ [ai_end])) (on_ws i (SendMessage (ai_chunk c)) h)"
    by (intro Cons.IH) auto
  with Cons.prems show ?case by (simp add: on_ws_def)
qed

end
