(* ===== verification/Agent_Chat.thy ===== *)
theory Agent_Chat
  imports Json Gateway
begin

text \<open>
  The assistant's conversation: \<open>apps/agent/memory/memory.go\<close> (the last twenty messages of a
  session, in a Redis list), \<open>apps/agent/engine/engine.go\<close> (preparing a run and reading its events)
  and \<open>apps/agent/handler/chat_sse.go\<close> (streaming the answer). \<open>agent/dao/messages.go\<close> and
  \<open>agent/models/messages.go\<close> give the row that is stored.

  The Eino library runs the model: \<open>run\<close> is its events for a history, an argument. \<open>schema.Message\<close>
  is taken with the two fields the sources set.
\<close>

section \<open>Redis lists\<close>

text \<open>
  \<open>LTRIM\<close> and \<open>LRANGE\<close> count from the end when an index is negative and treat indices out of range
  as the nearest end.
\<close>

definition list_index :: "int \<Rightarrow> 'a list \<Rightarrow> int" where
  "list_index i xs = (if i < 0 then i + int (length xs) else i)"

definition list_range :: "int \<Rightarrow> int \<Rightarrow> 'a list \<Rightarrow> 'a list" where
  "list_range start stop xs =
     (let a = max 0 (list_index start xs); b = list_index stop xs
      in take (nat (b - a + 1)) (drop (nat a) xs))"

record ('q, 'd) list_ops =
  rl_pipeline :: "('q \<Rightarrow> 'q) list \<Rightarrow> 'q \<Rightarrow> 'q \<times> goerror option"
  rl_RPush :: "gostring \<Rightarrow> 'd \<Rightarrow> 'q \<Rightarrow> 'q"
  rl_LTrim :: "gostring \<Rightarrow> int \<Rightarrow> int \<Rightarrow> 'q \<Rightarrow> 'q"
  rl_Expire :: "gostring \<Rightarrow> int \<Rightarrow> 'q \<Rightarrow> 'q"
  rl_LRange :: "gostring \<Rightarrow> int \<Rightarrow> int \<Rightarrow> 'q \<Rightarrow> 'q \<times> ('d list) result"
  rl_list :: "'q \<Rightarrow> gostring \<Rightarrow> 'd list"

definition list_laws :: "('q, 'd) list_ops \<Rightarrow> bool" where
  "list_laws rl \<longleftrightarrow>
     (\<forall>cs q q'. rl_pipeline rl cs q = (q', None) \<longrightarrow> q' = fold (\<lambda>c. c) cs q)
   \<and> (\<forall>k x q. rl_list rl (rl_RPush rl k x q) = (rl_list rl q)(k := rl_list rl q k @ [x]))
   \<and> (\<forall>k a b q. rl_list rl (rl_LTrim rl k a b q) = (rl_list rl q)(k := list_range a b (rl_list rl q k)))
   \<and> (\<forall>k d q. rl_list rl (rl_Expire rl k d q) = rl_list rl q)
   \<and> (\<forall>k a b q q' res. rl_LRange rl k a b q = (q', res) \<longrightarrow>
        rl_list rl q' = rl_list rl q \<and> (\<forall>xs. res = Inr xs \<longrightarrow> xs = list_range a b (rl_list rl q k)))"

section \<open>Sessions\<close>

datatype role = UserRole | AssistantRole

record chat_msg =
  cm_role :: role
  cm_content :: gostring

record session =
  ss_ID :: gostring
  ss_Key :: gostring
  ss_TTL :: int

definition GetOrCreate :: "int \<Rightarrow> gostring \<Rightarrow> session" where
  "GetOrCreate ttl sessionId = \<lparr>ss_ID = sessionId, ss_Key = ''agent_session:'' @ sessionId, ss_TTL = ttl\<rparr>"

text \<open>\<open>enc\<close> and \<open>dec\<close> are \<open>json.Marshal\<close> and \<open>json.Unmarshal\<close> on \<open>schema.Message\<close>.\<close>

definition Append ::
    "('q, 'd) list_ops \<Rightarrow> (chat_msg \<Rightarrow> 'd result) \<Rightarrow> session \<Rightarrow> chat_msg \<Rightarrow> 'q \<Rightarrow> 'q \<times> goerror option" where
  "Append rl enc s msg q =
     (case enc msg of
        Inl e \<Rightarrow> (q, Some e)
      | Inr data \<Rightarrow>
          rl_pipeline rl
            [rl_RPush rl (ss_Key s) data, rl_LTrim rl (ss_Key s) (-20) (-1), rl_Expire rl (ss_Key s) (ss_TTL s)] q)"

definition decoded :: "('d \<Rightarrow> chat_msg result) \<Rightarrow> 'd list \<Rightarrow> chat_msg list" where
  "decoded dec ds = concat (map (\<lambda>d. case dec d of Inl e \<Rightarrow> [] | Inr m \<Rightarrow> [m]) ds)"

definition GetMessages ::
    "('q, 'd) list_ops \<Rightarrow> ('d \<Rightarrow> chat_msg result) \<Rightarrow> session \<Rightarrow> 'q \<Rightarrow> 'q \<times> (chat_msg list) result" where
  "GetMessages rl dec s q =
     (case rl_LRange rl (ss_Key s) 0 (-1) q of
        (q', Inl e) \<Rightarrow> (q', Inl e)
      | (q', Inr ds) \<Rightarrow> (q', Inr (decoded dec ds)))"

text \<open>\<open>PrepareAgentContext\<close>; \<open>runner\<close> is the error of \<open>GetAgentGraphRunner\<close>.\<close>

definition PrepareAgentContext ::
    "('q, 'd) list_ops \<Rightarrow> (chat_msg \<Rightarrow> 'd result) \<Rightarrow> ('d \<Rightarrow> chat_msg result) \<Rightarrow> goerror option \<Rightarrow> i64 \<Rightarrow> gostring \<Rightarrow> 'q \<Rightarrow>
     'q \<times> (session \<times> chat_msg list) result" where
  "PrepareAgentContext rl enc dec runner senderId message q =
     (let sessionID = ''agent_session:'' @ fmt_int64 senderId in
      case runner of
        Some e \<Rightarrow> (q, Inl e)
      | None \<Rightarrow>
          (let s = GetOrCreate (24 * hour) sessionID in
           case Append rl enc s \<lparr>cm_role = UserRole, cm_content = trim_space message\<rparr> q of
             (q1, Some e) \<Rightarrow> (q1, Inl e)
           | (q1, None) \<Rightarrow>
               (case GetMessages rl dec s q1 of
                  (q2, Inl e) \<Rightarrow> (q2, Inl e)
                | (q2, Inr history) \<Rightarrow> (q2, Inr (s, history)))))"

section \<open>Events\<close>

text \<open>
  An event has an error, an output or neither. The output comes from a role and is a message or a
  stream of frames; \<open>None\<close> is a frame or message that is nil, an error ends the stream.
\<close>

datatype answer = Whole "gostring option" | Frames "gostring option list"

record agent_event =
  ev_Err :: "goerror option"
  ev_Output :: "(role \<times> answer) option"

text \<open>What enters the channel: texts that are not empty.\<close>

definition put_text :: "gostring option \<Rightarrow> gostring list" where
  "put_text t = (case t of None \<Rightarrow> [] | Some c \<Rightarrow> if c = '''' then [] else [c])"

definition event_chunks :: "agent_event \<Rightarrow> gostring list" where
  "event_chunks ev =
     (case ev_Output ev of
        None \<Rightarrow> []
      | Some (r, out) \<Rightarrow>
          if r \<noteq> AssistantRole then []
          else (case out of Frames fs \<Rightarrow> concat (map put_text fs) | Whole m \<Rightarrow> put_text m))"

definition GetAssistantFromEvents :: "agent_event list \<Rightarrow> gostring list" where
  "GetAssistantFromEvents events = concat (map event_chunks events)"

section \<open>Streaming\<close>

definition newline :: char where "newline = char_of (10 :: nat)"

definition sse_data :: "gostring \<Rightarrow> gostring" where
  "sse_data chunk = ''data: '' @ chunk @ [newline, newline]"

text \<open>
  \<open>ChatSSE\<close> on a writer that fails from the \<open>limit\<close>-th write on (\<open>None\<close>: never). The result is what
  was written and the answer's text if the goroutine that stores it is started.
\<close>

fun write_chunks :: "nat option \<Rightarrow> gostring list \<Rightarrow> gostring \<times> bool" where
  "write_chunks limit [] = ('''', True)"
| "write_chunks (Some 0) (c # cs) = ('''', False)"
| "write_chunks limit (c # cs) =
     (case write_chunks (map_option (\<lambda>n. n - 1) limit) cs of (w, fin) \<Rightarrow> (sse_data c @ w, fin))"

definition ChatSSE :: "nat option \<Rightarrow> 'x result \<Rightarrow> gostring list \<Rightarrow> gostring \<times> gostring option" where
  "ChatSSE limit prepared chunks =
     (case prepared of
        Inl e \<Rightarrow> (sse_data ''AI service failed to initialise, please try again later'' @ sse_data ''[DONE]'', None)
      | Inr x \<Rightarrow>
          (case write_chunks limit chunks of
             (w, False) \<Rightarrow> (w, None)
           | (w, True) \<Rightarrow>
               (let fullText = concat chunks in
                (w @ sse_data ''[DONE]'', if fullText = '''' then None else Some fullText))))"

text \<open>The goroutine: the session, then the table, whatever becomes of the session.\<close>

definition store_answer ::
    "('q, 'd) list_ops \<Rightarrow> (chat_msg \<Rightarrow> 'd result) \<Rightarrow> 'db msg_table \<Rightarrow> session \<Rightarrow> i64 \<Rightarrow> i64 \<Rightarrow> gostring \<Rightarrow> 'q \<times> 'db \<Rightarrow> 'q \<times> 'db" where
  "store_answer rl enc t s snow senderId fullText qd =
     (case qd of (q, db) \<Rightarrow>
        (fst (Append rl enc s \<lparr>cm_role = AssistantRole, cm_content = fullText\<rparr> q),
         fst (InsertMessage t (NewMessages snow (-1) senderId 0 fullText False) db)))"

text \<open>\<open>bufio.Scanner\<close> on a text: its lines, without a carriage return at the end.\<close>

definition drop_cr :: "gostring \<Rightarrow> gostring" where
  "drop_cr l = (if l \<noteq> [] \<and> last l = char_of (13 :: nat) then butlast l else l)"

definition scan_lines :: "gostring \<Rightarrow> gostring list" where
  "scan_lines text =
     (let ls = split_on newline text in map drop_cr (if last ls = '''' then butlast ls else ls))"

section \<open>A list server in memory\<close>

definition mem_lists :: "((gostring \<times> 'd list) list, 'd) list_ops" where
  "mem_lists =
     (let get = (\<lambda>q k. case map_of q k of None \<Rightarrow> [] | Some xs \<Rightarrow> xs) in
      \<lparr>rl_pipeline = \<lambda>cs q. (fold (\<lambda>c. c) cs q, None), rl_RPush = \<lambda>k x q. (k, get q k @ [x]) # q,
       rl_LTrim = \<lambda>k a b q. (k, list_range a b (get q k)) # q, rl_Expire = \<lambda>k d q. q,
       rl_LRange = \<lambda>k a b q. (q, Inr (list_range a b (get q k))), rl_list = get\<rparr>)"

lemma mem_lists_laws: "list_laws mem_lists"
  by (auto simp: list_laws_def mem_lists_def Let_def fun_eq_iff)

lemma list_range_last:
  assumes "n \<noteq> 0"
  shows "list_range (- int n) (-1) xs = drop (length xs - n) xs"
proof -
  from assms have "list_index (- int n) xs = int (length xs) - int n" by (simp add: list_index_def)
  moreover have "list_index (-1) xs = int (length xs) - 1" by (simp add: list_index_def)
  ultimately have r: "list_range (- int n) (-1) xs =
      take (nat (int (length xs) - max 0 (int (length xs) - int n))) (drop (nat (max 0 (int (length xs) - int n))) xs)"
    by (simp add: list_range_def Let_def)
  have m: "nat (max 0 (int (length xs) - int n)) = length xs - n" by linarith
  have "length (drop (length xs - n) xs) \<le> nat (int (length xs) - max 0 (int (length xs) - int n))" by auto
  then show ?thesis unfolding r m by (rule take_all)
qed

lemma list_range_all: "list_range 0 (-1) xs = xs"
  by (simp add: list_range_def list_index_def Let_def)

locale list_server =
  fixes rl :: "('q, 'd) list_ops"
  assumes lists: "list_laws rl"
begin

lemma Append_list:
  assumes "Append rl enc s msg q = (q', None)"
  obtains data where "enc msg = Inr data"
    "rl_list rl q' (ss_Key s) = (let xs = rl_list rl q (ss_Key s) @ [data] in drop (length xs - 20) xs)"
    "\<And>k. k \<noteq> ss_Key s \<Longrightarrow> rl_list rl q' k = rl_list rl q k"
proof -
  from assms obtain data where d: "enc msg = Inr data" and p: "rl_pipeline rl
      [rl_RPush rl (ss_Key s) data, rl_LTrim rl (ss_Key s) (-20) (-1), rl_Expire rl (ss_Key s) (ss_TTL s)] q = (q', None)"
    by (auto simp: Append_def split: sum.splits)
  from lists p have "q' = fold (\<lambda>c. c)
      [rl_RPush rl (ss_Key s) data, rl_LTrim rl (ss_Key s) (-20) (-1), rl_Expire rl (ss_Key s) (ss_TTL s)] q"
    unfolding list_laws_def by metis
  then have q': "q' = rl_Expire rl (ss_Key s) (ss_TTL s) (rl_LTrim rl (ss_Key s) (-20) (-1) (rl_RPush rl (ss_Key s) data q))" by simp
  have laws: "rl_list rl (rl_RPush rl k x q) = (rl_list rl q)(k := rl_list rl q k @ [x])"
    "rl_list rl (rl_LTrim rl k a b q) = (rl_list rl q)(k := list_range a b (rl_list rl q k))"
    "rl_list rl (rl_Expire rl k e q) = rl_list rl q" for k x a b e q
    using lists unfolding list_laws_def by blast+
  have "rl_list rl q' (ss_Key s) = (let xs = rl_list rl q (ss_Key s) @ [data] in drop (length xs - 20) xs)"
    using list_range_last [of 20 "rl_list rl q (ss_Key s) @ [data]"] by (simp add: q' laws Let_def del: drop_append)
  moreover have "rl_list rl q' k = rl_list rl q k" if "k \<noteq> ss_Key s" for k using that by (simp add: q' laws)
  ultimately show thesis using d that by blast
qed

lemma GetMessages_list:
  "GetMessages rl dec s q = (q', Inr ms) \<Longrightarrow> ms = decoded dec (rl_list rl q (ss_Key s)) \<and> rl_list rl q' = rl_list rl q"
proof -
  assume "GetMessages rl dec s q = (q', Inr ms)"
  then obtain ds where ds: "rl_LRange rl (ss_Key s) 0 (-1) q = (q', Inr ds)" "ms = decoded dec ds"
    by (auto simp: GetMessages_def split: prod.splits sum.splits)
  from lists ds(1) have "rl_list rl q' = rl_list rl q" "ds = list_range 0 (-1) (rl_list rl q (ss_Key s))"
    unfolding list_laws_def by blast+
  with ds(2) show ?thesis by (simp add: list_range_all)
qed

end

interpretation mem_list_server: list_server mem_lists
  by unfold_locales (rule mem_lists_laws)

section \<open>Memory\<close>

text \<open>Appending a list of messages, all of which succeed.\<close>

fun append_all ::
    "('q, 'd) list_ops \<Rightarrow> (chat_msg \<Rightarrow> 'd result) \<Rightarrow> session \<Rightarrow> chat_msg list \<Rightarrow> 'q \<Rightarrow> 'q option" where
  "append_all rl enc s [] q = Some q"
| "append_all rl enc s (m # ms) q =
     (case Append rl enc s m q of (q', None) \<Rightarrow> append_all rl enc s ms q' | (q', Some e) \<Rightarrow> None)"

definition last_n :: "nat \<Rightarrow> 'a list \<Rightarrow> 'a list" where
  "last_n n xs = drop (length xs - n) xs"

lemma decoded_faithful: "\<forall>m d. enc m = Inr d \<longrightarrow> dec d = Inr m \<Longrightarrow> list_all2 (\<lambda>m d. enc m = Inr d) ms ds \<Longrightarrow> decoded dec ds = ms"
proof (induction ms arbitrary: ds)
  case Nil
  then show ?case by (simp add: decoded_def)
next
  case (Cons m ms)
  then obtain d ds' where "ds = d # ds'" "enc m = Inr d" "list_all2 (\<lambda>m d. enc m = Inr d) ms ds'"
    by (auto simp: list_all2_Cons1)
  with Cons show ?case by (simp add: decoded_def)
qed

lemma append_all_list:
  assumes "list_laws rl" and "append_all rl enc s ms q = Some q'"
    and "list_all2 (\<lambda>m d. enc m = Inr d) old (rl_list rl q (ss_Key s))" and "length old \<le> 20"
  shows "list_all2 (\<lambda>m d. enc m = Inr d) (last_n 20 (old @ ms)) (rl_list rl q' (ss_Key s))"
  using assms(2-4)
proof (induction ms arbitrary: q old)
  case Nil
  then show ?case by (simp add: last_n_def)
next
  case (Cons m ms)
  from Cons.prems(1) obtain q1 where a: "Append rl enc s m q = (q1, None)" and rest: "append_all rl enc s ms q1 = Some q'"
    by (auto split: prod.splits option.splits)
  from list_server.Append_list [OF list_server.intro [OF assms(1)] a] obtain d where d: "enc m = Inr d"
    "rl_list rl q1 (ss_Key s) = (let xs = rl_list rl q (ss_Key s) @ [d] in drop (length xs - 20) xs)" by metis
  have len: "length (rl_list rl q (ss_Key s)) = length old" using list_all2_lengthD [OF Cons.prems(2)] by simp
  have "list_all2 (\<lambda>m d. enc m = Inr d) (old @ [m]) (rl_list rl q (ss_Key s) @ [d])"
    using Cons.prems(2) d(1) by (simp add: list_all2_appendI)
  then have "list_all2 (\<lambda>m d. enc m = Inr d) (last_n 20 (old @ [m])) (rl_list rl q1 (ss_Key s))"
    by (simp add: d(2) Let_def len last_n_def list_all2_dropI del: drop_append)
  moreover have "length (last_n 20 (old @ [m])) \<le> 20" by (simp add: last_n_def)
  ultimately have "list_all2 (\<lambda>m d. enc m = Inr d) (last_n 20 (last_n 20 (old @ [m]) @ ms)) (rl_list rl q' (ss_Key s))"
    by (rule Cons.IH [OF rest])
  moreover have "last_n 20 (last_n 20 (old @ [m]) @ ms) = last_n 20 (old @ m # ms)"
    using Cons.prems(3) by (cases "length old = 20") (auto simp: last_n_def drop_Cons' not_less)
  ultimately show ?case by simp
qed

text \<open>
  The assistant remembers the last twenty messages. After any sequence of appended messages to
  a new session, reading the session gives exactly the last twenty of them, in order (all of
  them if there are fewer), whatever they contain.
\<close>

theorem memory_is_last_twenty:
  assumes "list_laws rl" and "\<forall>m d. enc m = Inr d \<longrightarrow> dec d = Inr m"
    and "rl_list rl q (ss_Key s) = []" and "append_all rl enc s ms q = Some q1"
    and "GetMessages rl dec s q1 = (q2, Inr history)"
  shows "history = drop (length ms - 20) ms"
proof -
  have "list_all2 (\<lambda>m d. enc m = Inr d) (last_n 20 ([] @ ms)) (rl_list rl q1 (ss_Key s))"
    by (rule append_all_list [OF assms(1,4)]) (simp_all add: assms(3))
  from decoded_faithful [OF assms(2) this] list_server.GetMessages_list [OF list_server.intro [OF assms(1)] assms(5)]
  show ?thesis by (simp add: last_n_def)
qed

lemma memory_is_last_twenty_witness:
  "\<exists>q1 q2. append_all mem_lists Inr (GetOrCreate 5 ''u'') (replicate 30 \<lparr>cm_role = UserRole, cm_content = ''x''\<rparr>) [] = Some q1
     \<and> GetMessages mem_lists Inr (GetOrCreate 5 ''u'') q1 = (q2, Inr (replicate 20 \<lparr>cm_role = UserRole, cm_content = ''x''\<rparr>))"
proof -
  let ?s = "GetOrCreate 5 ''u''"
  let ?m = "\<lparr>cm_role = UserRole, cm_content = ''x''\<rparr>"
  have "\<exists>q1. append_all mem_lists Inr s ms q = Some q1" for s ms q
    by (induction ms arbitrary: q) (auto simp: Append_def mem_lists_def Let_def)
  then obtain q1 where q1: "append_all mem_lists Inr ?s (replicate 30 ?m) [] = Some q1" by blast
  have e: "rl_list mem_lists [] (ss_Key ?s) = []" by (simp add: mem_lists_def)
  have f: "\<forall>m d. Inr m = Inr d \<longrightarrow> (Inr d :: chat_msg result) = Inr m" by simp
  obtain q2 h where g: "GetMessages mem_lists Inr ?s q1 = (q2, Inr h)" by (simp add: GetMessages_def mem_lists_def Let_def)
  from memory_is_last_twenty [OF mem_lists_laws f e q1 g] have "h = replicate 20 ?m" by (simp add: drop_replicate)
  with q1 g show ?thesis by blast
qed

section \<open>From the assistant to the user\<close>

lemma write_chunks_all: "write_chunks None cs = (concat (map sse_data cs), True)"
  by (induction cs) simp_all

lemma split_sse: "newline \<notin> set c \<Longrightarrow> split_on newline (sse_data c @ rest) = (''data: '' @ c) # [] # split_on newline rest"
proof -
  assume "newline \<notin> set c"
  then have "newline \<notin> set (''data: '' @ c)" by (simp add: newline_def char_of_eq_iff)
  then have "split_on newline ((''data: '' @ c) @ newline # newline # rest) = (''data: '' @ c) # split_on newline (newline # rest)"
    by (rule split_on_append)
  then show ?thesis by (simp add: sse_data_def)
qed

lemma split_sse_all:
  "\<forall>c \<in> set cs. newline \<notin> set c \<Longrightarrow>
   split_on newline (concat (map sse_data cs)) = concat (map (\<lambda>c. [''data: '' @ c, '''']) cs) @ ['''']"
  by (induction cs) (simp_all add: split_sse)

text \<open>A chunk that arrives as it was sent: on one line, not mistaken for the end, no carriage return at its end.\<close>

definition plain_chunk :: "gostring \<Rightarrow> bool" where
  "plain_chunk c \<longleftrightarrow> newline \<notin> set c \<and> c \<noteq> ''[DONE]'' \<and> \<not> (c \<noteq> '''' \<and> last c = char_of (13 :: nat))"

lemma eq_cr: "c = char_of (13 :: nat) \<longleftrightarrow> of_char c = (13 :: nat)"
proof
  assume "of_char c = (13 :: nat)"
  then have "char_of (of_char c :: nat) = (char_of (13 :: nat) :: char)" by (rule arg_cong)
  then show "c = char_of (13 :: nat)" by simp
qed simp

lemma drop_cr_data: "\<not> (c \<noteq> '''' \<and> last c = char_of (13 :: nat)) \<Longrightarrow> drop_cr (''data: '' @ c) = ''data: '' @ c"
  by (cases "c = ''''") (auto simp: drop_cr_def eq_cr)

lemma scan_sse:
  assumes "\<forall>c \<in> set cs. plain_chunk c"
  shows "scan_lines (concat (map sse_data (cs @ [''[DONE]'']))) =
    concat (map (\<lambda>c. [''data: '' @ c, '''']) cs) @ [''data: [DONE]'', '''']"
proof -
  have fin: "newline \<notin> set ''[DONE]''" "\<not> (''[DONE]'' \<noteq> '''' \<and> last ''[DONE]'' = char_of (13 :: nat))"
    by (auto simp: newline_def char_of_eq_iff eq_cr)
  have "\<forall>c \<in> set (cs @ [''[DONE]'']). newline \<notin> set c" using assms fin by (auto simp: plain_chunk_def)
  note split = split_sse_all [OF this]
  have cr: "map drop_cr (concat (map (\<lambda>c. [''data: '' @ c, '''']) xs)) = concat (map (\<lambda>c. [''data: '' @ c, '''']) xs)"
    if "\<forall>c \<in> set xs. \<not> (c \<noteq> '''' \<and> last c = char_of (13 :: nat))" for xs
    using that
  proof (induction xs)
    case (Cons c xs)
    then have "drop_cr (''data: '' @ c) = ''data: '' @ c" by (intro drop_cr_data) (simp only: list.set ball_simps simp_thms)
    moreover have "drop_cr [] = []" by (simp add: drop_cr_def)
    moreover have "map drop_cr (concat (map (\<lambda>c. [''data: '' @ c, '''']) xs)) = concat (map (\<lambda>c. [''data: '' @ c, '''']) xs)"
      using Cons.prems unfolding list.set ball_simps by (intro Cons.IH) (rule conjunct2)
    ultimately show ?case by (simp only: list.map concat.simps map_append)
  qed simp
  have "\<forall>c \<in> set (cs @ [''[DONE]'']). \<not> (c \<noteq> '''' \<and> last c = char_of (13 :: nat))"
    using assms fin(2) unfolding set_append list.set plain_chunk_def by blast
  from cr [OF this] have "scan_lines (concat (map sse_data (cs @ [''[DONE]'']))) = concat (map (\<lambda>c. [''data: '' @ c, '''']) (cs @ [''[DONE]'']))"
    by (simp only: scan_lines_def split Let_def last_snoc butlast_snoc if_True simp_thms)
  then show ?thesis by simp
qed



text \<open>
  A chunk with a line break in it loses what follows the break: the rest of the chunk is a line
  without the prefix, which the gateway skips.
\<close>

lemma broken_line_lost:
  assumes "newline \<notin> set a" "newline \<notin> set b" "last (''data: '' @ a) \<noteq> char_of (13 :: nat)" "b \<noteq> ''''" "last b \<noteq> char_of (13 :: nat)"
    and "b \<noteq> ''data: [DONE]''" "\<not> prefix ''data: '' b" "a \<noteq> ''[DONE]''"
  shows "relay i (scan_lines (sse_data (a @ newline # b))) h = on_ws i (SendMessage (ai_chunk a)) h"
proof -
  have "newline \<notin> set (''data: '' @ a)" using assms(1) by (simp add: newline_def char_of_eq_iff)
  then have "split_on newline ((''data: '' @ a) @ newline # (b @ [newline, newline])) = (''data: '' @ a) # split_on newline (b @ [newline, newline])"
    by (rule split_on_append)
  also have "split_on newline (b @ newline # [newline]) = b # split_on newline [newline]"
    by (rule split_on_append [OF assms(2)])
  finally have "split_on newline (sse_data (a @ newline # b)) = [''data: '' @ a, b, [], []]" by (simp add: sse_data_def)
  then have "scan_lines (sse_data (a @ newline # b)) = [''data: '' @ a, b, '''']"
    using assms(3,5) by (simp add: scan_lines_def Let_def drop_cr_def)
  with assms(6-8) show ?thesis by (auto simp: on_ws_def)
qed

end
