(* ===== verification/Agent_Stream.thy ===== *)
theory Agent_Stream
  imports Agent_Chat
begin

text \<open>
  The two goroutines behind an answer: the one \<open>GetAssistantFromEvents\<close> starts
  (\<open>apps/agent/engine/engine.go\<close>), which puts the chunks into a channel with room for 64 and closes
  it, and the loop of \<open>ChatSSE\<close> (\<open>apps/agent/handler/chat_sse.go\<close>), which ranges over the channel and
  returns when a write fails. Theory \<open>Agent_Chat\<close> has both as functions; here they run at the same
  time.
\<close>

section \<open>Producer and consumer\<close>

text \<open>
  \<open>sm_todo\<close> are the chunks the producer has still to send. \<open>WriteFailed\<close> is the early return of
  \<open>ChatSSE\<close>, \<open>StreamEnded\<close> the end of its loop.
\<close>

datatype reading = Looping | WriteFailed | StreamEnded

record sse_stream =
  sm_todo :: "gostring list"
  sm_chan :: "gostring list"
  sm_closed :: bool
  sm_written :: "gostring list"
  sm_reading :: reading

definition outChanCap :: nat where "outChanCap = 64"

definition start_stream :: "gostring list \<Rightarrow> sse_stream" where
  "start_stream chunks =
     \<lparr>sm_todo = chunks, sm_chan = [], sm_closed = False, sm_written = [], sm_reading = Looping\<rparr>"

inductive stream_step :: "sse_stream \<Rightarrow> sse_stream \<Rightarrow> bool" where
  put: "sm_todo s = c # cs \<Longrightarrow> length (sm_chan s) < outChanCap \<Longrightarrow>
    stream_step s (s\<lparr>sm_todo := cs, sm_chan := sm_chan s @ [c]\<rparr>)"
| close_chan: "sm_todo s = [] \<Longrightarrow> \<not> sm_closed s \<Longrightarrow> stream_step s (s\<lparr>sm_closed := True\<rparr>)"
| writes: "sm_reading s = Looping \<Longrightarrow> sm_chan s = c # cs \<Longrightarrow>
    stream_step s (s\<lparr>sm_chan := cs, sm_written := sm_written s @ [c]\<rparr>)"
| write_fails: "sm_reading s = Looping \<Longrightarrow> sm_chan s = c # cs \<Longrightarrow>
    stream_step s (s\<lparr>sm_chan := cs, sm_reading := WriteFailed\<rparr>)"
| ends: "sm_reading s = Looping \<Longrightarrow> sm_chan s = [] \<Longrightarrow> sm_closed s \<Longrightarrow>
    stream_step s (s\<lparr>sm_reading := StreamEnded\<rparr>)"

inductive stream_reachable :: "gostring list \<Rightarrow> sse_stream \<Rightarrow> bool" for chunks where
  stream_start: "stream_reachable chunks (start_stream chunks)"
| stream_next: "stream_reachable chunks s \<Longrightarrow> stream_step s s' \<Longrightarrow> stream_reachable chunks s'"

text \<open>What the client of the stream has been sent, and the text that is stored.\<close>

definition sent_text :: "sse_stream \<Rightarrow> gostring" where
  "sent_text s = concat (map sse_data (sm_written s)) @ (if sm_reading s = StreamEnded then sse_data ''[DONE]'' else '''')"

definition stored_text :: "sse_stream \<Rightarrow> gostring option" where
  "stored_text s =
     (if sm_reading s = StreamEnded \<and> concat (sm_written s) \<noteq> '''' then Some (concat (sm_written s)) else None)"

section \<open>Lemmas\<close>

text \<open>No chunk is lost between the goroutines, but the one whose write failed.\<close>

definition stream_inv :: "gostring list \<Rightarrow> sse_stream \<Rightarrow> bool" where
  [inv_defs]: "stream_inv chunks s \<longleftrightarrow>
     (\<exists>failed. chunks = sm_written s @ failed @ sm_chan s @ sm_todo s \<and> length failed = (if sm_reading s = WriteFailed then 1 else 0))
   \<and> (sm_closed s \<longrightarrow> sm_todo s = []) \<and> length (sm_chan s) \<le> outChanCap
   \<and> (sm_reading s = StreamEnded \<longrightarrow> sm_chan s = [] \<and> sm_closed s)"

lemma stream_inv_step: "stream_step s s' \<Longrightarrow> stream_inv chunks s \<Longrightarrow> stream_inv chunks s'"
  by (induction rule: stream_step.induct) (auto simp: stream_inv_def outChanCap_def)

lemma stream_inv_reachable: "stream_reachable chunks s \<Longrightarrow> stream_inv chunks s"
proof (induction rule: stream_reachable.induct)
  case stream_start
  show ?case by (simp add: stream_inv_def start_stream_def)
next
  case (stream_next s s')
  then show ?case by (blast intro: stream_inv_step)
qed

text \<open>The goroutines come to rest, the reading one at its end.\<close>

lemma stream_terminates: "wf {(s', s). stream_step s s'}"
proof (rule wf_subset)
  show "wf (measure (\<lambda>s. 2 * length (sm_todo s) + length (sm_chan s) + (if sm_closed s then 0 else 1)
      + (if sm_reading s = Looping then 1 else 0)))" by simp
  show "{(s', s). stream_step s s'} \<subseteq> measure (\<lambda>s. 2 * length (sm_todo s) + length (sm_chan s)
      + (if sm_closed s then 0 else 1) + (if sm_reading s = Looping then 1 else 0))"
    by (auto elim!: stream_step.cases)
qed

lemma producer_moves:
  assumes "\<nexists>s'. stream_step s s'"
  shows "sm_todo s = [] \<Longrightarrow> sm_closed s" and "sm_todo s \<noteq> [] \<Longrightarrow> outChanCap \<le> length (sm_chan s)"
  using assms by (blast intro: close_chan, metis put neq_Nil_conv not_less)

lemma reading_ends:
  assumes "\<nexists>s'. stream_step s s'"
  shows "sm_reading s \<noteq> Looping"
proof
  assume l: "sm_reading s = Looping"
  show False
  proof (cases "sm_chan s")
    case Nil
    with producer_moves [OF assms] have "sm_closed s" by (auto simp: outChanCap_def)
    with assms l Nil show False by (blast intro: ends)
  next
    case (Cons c cs)
    with assms l show False by (blast intro: writes)
  qed
qed

lemma write_all: "write_chunks None cs = (concat (map sse_data cs), True)"
  by (induction cs) simp_all

lemma write_some: "write_chunks (Some (length ws)) (ws @ c # cs) = (concat (map sse_data ws), False)"
  by (induction ws) simp_all

section \<open>Property\<close>

text \<open>
  C37. What becomes of a streamed answer, however producer and consumer interleave. Both come to rest: no
  run is infinite. At rest \<open>ChatSSE\<close> has returned, the client was sent and the
  table gets what the function \<open>ChatSSE\<close> says, with all chunks in their order if no write failed
  and those before the failed one otherwise. The producer has closed the channel unless a write
  failed with more than 64 chunks to come after it: then it is blocked on the full channel for
  ever.
\<close>

theorem stream_outcome:
  assumes "stream_reachable (GetAssistantFromEvents events) s"
  shows "wf {(s', s). stream_step s s'}
    \<and> ((\<nexists>s'. stream_step s s') \<longrightarrow>
        (\<exists>limit. ChatSSE limit (Inr x) (GetAssistantFromEvents events) = (sent_text s, stored_text s)
           \<and> (limit = None \<longleftrightarrow> sm_reading s = StreamEnded)
           \<and> (sm_closed s \<longleftrightarrow> (case limit of None \<Rightarrow> True
                | Some k \<Rightarrow> length (GetAssistantFromEvents events) \<le> k + 1 + outChanCap))))"
proof (intro conjI impI, rule stream_terminates)
  let ?cs = "GetAssistantFromEvents events"
  assume rest: "\<nexists>s'. stream_step s s'"
  from stream_inv_reachable [OF assms] have inv: "stream_inv ?cs s" .
  then obtain failed where cs: "?cs = sm_written s @ failed @ sm_chan s @ sm_todo s"
    and len: "length failed = (if sm_reading s = WriteFailed then 1 else 0)"
    and closed: "sm_closed s \<longrightarrow> sm_todo s = []" "length (sm_chan s) \<le> outChanCap"
    and ended: "sm_reading s = StreamEnded \<longrightarrow> sm_chan s = [] \<and> sm_closed s"
    unfolding stream_inv_def by blast
  have full: "sm_closed s \<longleftrightarrow> length (sm_chan s @ sm_todo s) \<le> outChanCap"
    using producer_moves [OF rest] closed by (cases "sm_todo s") auto
  show "\<exists>limit. ChatSSE limit (Inr x) ?cs = (sent_text s, stored_text s) \<and> (limit = None \<longleftrightarrow> sm_reading s = StreamEnded)
      \<and> (sm_closed s \<longleftrightarrow> (case limit of None \<Rightarrow> True | Some k \<Rightarrow> length ?cs \<le> k + 1 + outChanCap))"
  proof (cases "sm_reading s")
    case Looping
    with reading_ends [OF rest] show ?thesis by simp
  next
    case WriteFailed
    with len obtain c where "failed = [c]" by (auto simp: length_Suc_conv)
    with cs have c: "?cs = sm_written s @ c # sm_chan s @ sm_todo s" by simp
    with WriteFailed full show ?thesis
      by (intro exI [of _ "Some (length (sm_written s))"]) (simp add: ChatSSE_def write_some sent_text_def stored_text_def)
  next
    case StreamEnded
    with ended closed len cs have "?cs = sm_written s" "sm_closed s" by auto
    with StreamEnded show ?thesis
      by (intro exI [of _ None]) (simp add: ChatSSE_def write_all sent_text_def stored_text_def Let_def)
  qed
qed

text \<open>Sixty-six chunks, and a client that has gone when the first is written.\<close>

lemma puts_reachable:
  "stream_reachable chunks s \<Longrightarrow> sm_todo s = xs @ ys \<Longrightarrow> length (sm_chan s) + length xs \<le> outChanCap \<Longrightarrow>
   stream_reachable chunks (s\<lparr>sm_todo := ys, sm_chan := sm_chan s @ xs\<rparr>)"
proof (induction xs arbitrary: s)
  case Nil
  then have "s\<lparr>sm_todo := ys, sm_chan := sm_chan s @ []\<rparr> = s" by (cases s) simp
  with Nil show ?case by metis
next
  case (Cons x xs)
  let ?s = "s\<lparr>sm_todo := xs @ ys, sm_chan := sm_chan s @ [x]\<rparr>"
  have "stream_reachable chunks ?s" using Cons.prems by (intro stream_next [OF _ put]) auto
  from Cons.IH [OF this] Cons.prems(3) show ?case by simp
qed

definition long_answer :: "agent_event list" where
  "long_answer = [\<lparr>ev_Err = None, ev_Output = Some (AssistantRole, Frames (replicate 66 (Some ''x'')))\<rparr>]"

lemma long_answer_chunks: "GetAssistantFromEvents long_answer = replicate 66 ''x''"
  by (simp add: GetAssistantFromEvents_def long_answer_def event_chunks_def put_text_def concat_replicate_single)

lemma replicate_less: "k \<le> n \<Longrightarrow> replicate n x = replicate k x @ replicate (n - k) x"
  by (metis le_add_diff_inverse replicate_add)

lemma stream_outcome_witness:
  "\<exists>s. stream_reachable (GetAssistantFromEvents long_answer) s \<and> (\<nexists>s'. stream_step s s') \<and> \<not> sm_closed s
     \<and> (\<exists>k. ChatSSE (Some k) (Inr ()) (GetAssistantFromEvents long_answer) = (sent_text s, stored_text s) \<and> k = 0)"
proof -
  let ?cs = "GetAssistantFromEvents long_answer"
  let ?s1 = "(start_stream ?cs)\<lparr>sm_todo := replicate 65 ''x'', sm_chan := [''x'']\<rparr>"
  let ?s2 = "?s1\<lparr>sm_chan := [], sm_reading := WriteFailed\<rparr>"
  let ?s = "?s2\<lparr>sm_todo := [''x''], sm_chan := sm_chan ?s2 @ replicate 64 ''x''\<rparr>"
  have "stream_step (start_stream ?cs) ((start_stream ?cs)\<lparr>sm_todo := replicate 65 ''x'', sm_chan := sm_chan (start_stream ?cs) @ [''x'']\<rparr>)"
    by (rule put) (use replicate_less [of 1 66 "''x''"] in \<open>simp_all add: start_stream_def long_answer_chunks outChanCap_def\<close>)
  then have "stream_reachable ?cs ?s1" by (intro stream_next [OF stream_start]) (simp add: start_stream_def)
  then have "stream_reachable ?cs ?s2" by (rule stream_next) (rule write_fails, simp_all add: start_stream_def)
  then have r: "stream_reachable ?cs ?s"
    by (rule puts_reachable) (use replicate_less [of 64 65 "''x''"] in \<open>simp_all add: outChanCap_def\<close>)
  moreover have rest: "\<nexists>s'. stream_step ?s s'" by (auto simp: outChanCap_def elim: stream_step.cases)
  moreover have open_chan: "\<not> sm_closed ?s" by (simp add: start_stream_def)
  moreover from stream_outcome [OF r, of "()"] rest open_chan
  obtain k where "ChatSSE (Some k) (Inr ()) ?cs = (sent_text ?s, stored_text ?s)" "\<not> length ?cs \<le> k + 1 + outChanCap"
    by (auto split: option.splits)
  moreover from this have "k = 0" by (simp add: long_answer_chunks outChanCap_def)
  ultimately show ?thesis by blast
qed

end
