(* ===== verification/Agent_Guard.thy ===== *)
theory Agent_Guard
  imports Json
begin

text \<open>
  What stands between a user and the model: \<open>apps/agent/middleware/rate_limit.go\<close>, a sliding
  window of one minute in a Redis sorted set, and \<open>apps/agent/middleware/safe_agent.go\<close>, which
  turns errors of tools and models into text.
\<close>

section \<open>Rate limit\<close>

text \<open>
  A sorted set is a list of members with their scores. Redis keeps a score as a double: \<open>dbl\<close> is
  what becomes of an integer, which is monotone and not injective. The set also expires sixty
  seconds after the last admitted request, when every member it holds is due for removal anyway.
\<close>

type_synonym zset = "(int \<times> int) list"

definition zremrangebyscore :: "int \<Rightarrow> int \<Rightarrow> zset \<Rightarrow> zset" where
  "zremrangebyscore lo hi z = filter (\<lambda>e. \<not> (lo \<le> snd e \<and> snd e \<le> hi)) z"

definition zadd :: "int \<Rightarrow> int \<Rightarrow> zset \<Rightarrow> zset" where
  "zadd score member z = (member, score) # filter (\<lambda>e. fst e \<noteq> member) z"

text \<open>The script \<open>rateLimitLua\<close>: one atomic step.\<close>

definition rateLimitLua :: "(int \<Rightarrow> int) \<Rightarrow> int \<Rightarrow> int \<Rightarrow> nat \<Rightarrow> zset \<Rightarrow> zset \<times> int" where
  "rateLimitLua dbl now ago limit z =
     (let z1 = zremrangebyscore 0 (dbl ago) z in
      if limit \<le> length z1 then (z1, 0) else (zadd (dbl now) now z1, 1))"

definition rate_key :: "i64 \<Rightarrow> gostring" where
  "rate_key userID = ''rate_limit:ai:'' @ fmt_int64 userID"

text \<open>
  \<open>checkRateLimit\<close> on the sorted sets under their keys. \<open>broken\<close> is the error of the connection; a
  call that fails may have run the script, which is the second alternative of \<open>took\<close>.
\<close>

definition checkRateLimit ::
    "(int \<Rightarrow> int) \<Rightarrow> time \<Rightarrow> goerror option \<Rightarrow> bool \<Rightarrow> i64 \<Rightarrow> (gostring \<Rightarrow> zset) \<Rightarrow> (gostring \<Rightarrow> zset) \<times> goerror option" where
  "checkRateLimit dbl now broken took userID zs =
     (let k = rate_key userID;
          (z', result) = rateLimitLua dbl now (now - minute) 5 (zs k)
      in case broken of
           Some e \<Rightarrow> (if took then zs(k := z') else zs, Some (''[redis error] '' @ e))
         | None \<Rightarrow> (zs(k := z'), if result = 0 then Some ''too many requests, please try again in a minute'' else None))"

definition BeforeAgent ::
    "(int \<Rightarrow> int) \<Rightarrow> time \<Rightarrow> goerror option \<Rightarrow> bool \<Rightarrow> i64 option \<Rightarrow> (gostring \<Rightarrow> zset) \<Rightarrow> (gostring \<Rightarrow> zset) \<times> goerror option" where
  "BeforeAgent dbl now broken took current_user_id zs =
     checkRateLimit dbl now broken took (case current_user_id of None \<Rightarrow> 0 | Some u \<Rightarrow> u) zs"

text \<open>One user's requests at given times, on a working Redis: the times at which they were let through.\<close>

fun admitted :: "(int \<Rightarrow> int) \<Rightarrow> i64 \<Rightarrow> time list \<Rightarrow> (gostring \<Rightarrow> zset) \<Rightarrow> time list" where
  "admitted dbl u [] zs = []"
| "admitted dbl u (t # ts) zs =
     (case BeforeAgent dbl t None True (Some u) zs of
        (zs', None) \<Rightarrow> t # admitted dbl u ts zs'
      | (zs', Some e) \<Rightarrow> admitted dbl u ts zs')"

text \<open>
  What the set holds after requests were admitted at \<open>acc\<close> (newest first): at least every one that
  is younger than a minute, and they were never more than five.
\<close>

definition window_ok :: "(int \<Rightarrow> int) \<Rightarrow> time \<Rightarrow> time list \<Rightarrow> zset \<Rightarrow> bool" where
  "window_ok dbl now acc z \<longleftrightarrow>
     (\<forall>a \<in> set acc. dbl (now - minute) < dbl a \<longrightarrow> (a, dbl a) \<in> set z)
   \<and> distinct acc \<and> (\<forall>a \<in> set acc. a \<le> now)"

lemma window_admits_few:
  assumes "window_ok dbl now acc z" and "length z < n" and "mono dbl"
  shows "length (filter (\<lambda>a. dbl (now - minute) < dbl a) acc) < n"
proof -
  let ?recent = "filter (\<lambda>a. dbl (now - minute) < dbl a) acc"
  have "distinct ?recent" using assms(1) by (simp add: window_ok_def)
  then have "length ?recent = card (set ?recent)" by (rule distinct_card [symmetric])
  also have "(\<lambda>a. (a, dbl a)) ` set ?recent \<subseteq> set z" using assms(1) by (auto simp: window_ok_def)
  then have "card (set ?recent) \<le> card (set z)"
    by (rule card_inj_on_le [rotated]) (auto intro: inj_onI)
  also have "card (set z) \<le> length z" by (rule card_length)
  finally show ?thesis using assms(2) by simp
qed

lemma script_window:
  assumes ok: "window_ok dbl now0 acc z" and later: "now0 < now" and mono: "mono dbl" and "5 = limit"
    and run: "rateLimitLua dbl now (now - minute) limit z = (z', r)"
  shows "window_ok dbl now (if r = 0 then acc else now # acc) z'"
    and "r \<noteq> 0 \<Longrightarrow> length (filter (\<lambda>a. dbl (now - minute) < dbl a) acc) < limit"
proof -
  let ?z1 = "zremrangebyscore 0 (dbl (now - minute)) z"
  have le: "dbl (now0 - minute) \<le> dbl (now - minute)" using mono later by (simp add: monoD)
  have kept: "window_ok dbl now acc ?z1"
    using ok later le by (fastforce simp: window_ok_def zremrangebyscore_def)
  show "window_ok dbl now (if r = 0 then acc else now # acc) z'"
  proof (cases "limit \<le> length ?z1")
    case True
    with run have "z' = ?z1" "r = 0" by (auto simp: rateLimitLua_def Let_def)
    with kept show ?thesis by simp
  next
    case False
    with run have "z' = zadd (dbl now) now ?z1" "r = 1" by (auto simp: rateLimitLua_def Let_def)
    moreover have "now \<notin> set acc" using ok later by (auto simp: window_ok_def)
    ultimately show ?thesis using kept by (auto simp: window_ok_def zadd_def)
  qed
  assume "r \<noteq> 0"
  with run have "length ?z1 < limit" by (auto simp: rateLimitLua_def Let_def split: if_splits)
  with kept show "length (filter (\<lambda>a. dbl (now - minute) < dbl a) acc) < limit" by (rule window_admits_few [OF _ _ mono])
qed

lemma BeforeAgent_result:
  "BeforeAgent dbl now None True (Some u) zs =
     (case rateLimitLua dbl now (now - minute) 5 (zs (rate_key u)) of
        (z', r) \<Rightarrow> (zs(rate_key u := z'), if r = 0 then Some ''too many requests, please try again in a minute'' else None))"
  by (simp add: BeforeAgent_def checkRateLimit_def Let_def split: prod.split)

text \<open>Of a list of times, newest first, each has fewer than five younger than a minute behind it.\<close>

definition spread :: "(int \<Rightarrow> int) \<Rightarrow> time list \<Rightarrow> bool" where
  "spread dbl ts \<longleftrightarrow>
     (\<forall>k < length ts. length (filter (\<lambda>a. dbl (ts ! k - minute) < dbl a) (drop (Suc k) ts)) < 5)"

lemma spread_Cons:
  "spread dbl (t # ts) \<longleftrightarrow> length (filter (\<lambda>a. dbl (t - minute) < dbl a) ts) < 5 \<and> spread dbl ts"
  by (auto simp: spread_def All_less_Suc2)

lemma admitted_Cons:
  assumes "rateLimitLua dbl t (t - minute) 5 (zs (rate_key u)) = (z', r)"
  shows "admitted dbl u (t # ts) zs =
    (if r = 0 then admitted dbl u ts (zs(rate_key u := z')) else t # admitted dbl u ts (zs(rate_key u := z')))"
  using assms by (simp add: BeforeAgent_result)

lemma admitted_spread:
  assumes "mono dbl" and "sorted_wrt (<) (now0 # ts)" and "window_ok dbl now0 acc (zs (rate_key u))" and "spread dbl acc"
  shows "spread dbl (rev (admitted dbl u ts zs) @ acc)"
  using assms(2-4)
proof (induction ts arbitrary: now0 acc zs)
  case (Cons t ts)
  obtain z' r where run: "rateLimitLua dbl t (t - minute) 5 (zs (rate_key u)) = (z', r)" by fastforce
  have later: "now0 < t" and sorted: "sorted_wrt (<) (t # ts)" using Cons.prems(1) by auto
  note script = script_window [OF Cons.prems(2) later assms(1) refl run]
  define zs' where "zs' = zs(rate_key u := z')"
  have at: "zs' (rate_key u) = z'" by (simp add: zs'_def)
  show ?case
  proof (cases "r = 0")
    case True
    with script(1) have w: "window_ok dbl t acc (zs' (rate_key u))" by (simp add: at)
    from Cons.IH [of t acc zs', OF sorted w Cons.prems(3)] True show ?thesis
      by (simp only: admitted_Cons [of dbl t zs u, OF run] zs'_def simp_thms if_True)
  next
    case False
    with script(1) have w: "window_ok dbl t (t # acc) (zs' (rate_key u))" by (simp add: at)
    have "spread dbl (t # acc)" using script(2) [OF False] Cons.prems(3) by (simp only: spread_Cons simp_thms)
    from Cons.IH [of t "t # acc" zs', OF sorted w this] False show ?thesis
      by (simp only: admitted_Cons [of dbl t zs u, OF run] zs'_def simp_thms if_False rev.simps append_assoc append.simps)
  qed
qed simp

lemma admitted_sorted: "sorted_wrt (<) ts \<Longrightarrow> sorted_wrt (<) (admitted dbl u ts zs) \<and> set (admitted dbl u ts zs) \<subseteq> set ts"
proof (induction ts arbitrary: zs)
  case (Cons t ts)
  obtain zs' e where b: "BeforeAgent dbl t None True (Some u) zs = (zs', e)" by fastforce
  from Cons have "sorted_wrt (<) (admitted dbl u ts zs') \<and> set (admitted dbl u ts zs') \<subseteq> set ts" by simp
  with b Cons.prems show ?case by (cases e) auto
qed simp

text \<open>
  C35. No more than five requests a minute. Of one user's requests, made at increasing times on a
  new window, any six in a row that are let through span a minute, to within the precision of a
  Redis score: the first of them was already due for removal when the sixth came.
\<close>

theorem rate_limit_window:
  assumes "mono dbl" and "sorted_wrt (<) ts" and "zs (rate_key u) = []"
    and "k + 5 < length (admitted dbl u ts zs)"
  shows "dbl (admitted dbl u ts zs ! k) \<le> dbl (admitted dbl u ts zs ! (k + 5) - minute)"
proof (rule ccontr)
  define as where "as = admitted dbl u ts zs"
  let ?n = "length as"
  let ?x = "dbl (as ! (k + 5) - minute)"
  assume "\<not> dbl (admitted dbl u ts zs ! k) \<le> dbl (admitted dbl u ts zs ! (k + 5) - minute)"
  then have gt: "?x < dbl (as ! k)" by (simp add: as_def)
  have n: "k + 5 < ?n" using assms(4) by (simp add: as_def)
  have sorted: "sorted_wrt (<) as" unfolding as_def using admitted_sorted [OF assms(2)] by blast
  define t0 where "t0 = Min (insert 0 (set ts)) - 1"
  have "t0 < t" if "t \<in> set ts" for t
  proof -
    have "Min (insert 0 (set ts)) \<le> t" using that by (intro Min_le) simp_all
    then show ?thesis unfolding t0_def by linarith
  qed
  then have "sorted_wrt (<) (t0 # ts)" using assms(2) by simp
  moreover have "window_ok dbl t0 [] (zs (rate_key u))" by (simp add: window_ok_def)
  moreover have "spread dbl []" by (simp add: spread_def)
  ultimately have "spread dbl (rev as)" using admitted_spread [OF assms(1), of t0 ts "[]" zs u] by (simp add: as_def)
  then have few: "length (filter (\<lambda>a. dbl (rev as ! j - minute) < dbl a) (drop (Suc j) (rev as))) < 5" if "j < ?n" for j
    using that by (simp add: spread_def)
  let ?j = "?n - Suc (k + 5)"
  have j: "?j < ?n" "rev as ! ?j = as ! (k + 5)" using n by (simp_all add: rev_nth add.commute)
  have "drop (Suc ?j) (rev as) = rev (take (k + 5) as)" using n by (simp add: drop_rev add.commute)
  with few [OF j(1)] j(2) have lt5: "length (filter (\<lambda>a. ?x < dbl a) (rev (take (k + 5) as))) < 5" by force
  have "filter (\<lambda>a. ?x < dbl a) (take (k + 5) as) = filter (\<lambda>a. ?x < dbl a) (take k as) @ filter (\<lambda>a. ?x < dbl a) (take 5 (drop k as))"
    by (simp add: take_add)
  moreover have "filter (\<lambda>a. ?x < dbl a) (take 5 (drop k as)) = take 5 (drop k as)"
  proof (rule filter_True, rule ballI)
    fix a assume "a \<in> set (take 5 (drop k as))"
    then obtain i where "i < 5" "a = as ! (k + i)" using n by (auto simp: in_set_conv_nth)
    then have "as ! k \<le> a" using sorted n by (cases "i = 0") (auto simp: sorted_wrt_iff_nth_less less_imp_le)
    then have "dbl (as ! k) \<le> dbl a" using assms(1) by (simp add: monoD)
    with gt show "?x < dbl a" by simp
  qed
  ultimately have "5 \<le> length (filter (\<lambda>a. ?x < dbl a) (take (k + 5) as))" using n by simp
  with lt5 show False by (simp add: rev_filter [symmetric])
qed

lemma rate_limit_window_witness:
  "admitted id 1 [second, 2 * second, 3 * second, 4 * second, 5 * second, 6 * second, 61 * second] (\<lambda>k. [])
     = [second, 2 * second, 3 * second, 4 * second, 5 * second, 61 * second]
   \<and> id (1 * second) \<le> id (61 * second - minute)"
proof -
  let ?ts = "[second, 2 * second, 3 * second, 4 * second, 5 * second, 6 * second, 61 * second]"
  have a: "admitted id 1 ?ts (\<lambda>k. []) = [second, 2 * second, 3 * second, 4 * second, 5 * second, 61 * second]"
    by (simp add: BeforeAgent_result rateLimitLua_def zremrangebyscore_def zadd_def Let_def minute_def second_def)
  have s: "sorted_wrt (<) ?ts" by (simp add: second_def)
  have m: "mono (id :: int \<Rightarrow> int)" by (simp add: mono_def)
  from rate_limit_window [OF m s refl, of 0 1] a show ?thesis by simp
qed

section \<open>Errors of tools and models\<close>

text \<open>\<open>stops e\<close> is \<open>compose.IsInterruptRerunError\<close>: the error by which the library suspends a run.\<close>

definition wrap_model :: "(goerror \<Rightarrow> bool) \<Rightarrow> ('i \<Rightarrow> 'o result) \<Rightarrow> 'i \<Rightarrow> 'o result" where
  "wrap_model stops model inp =
     (case model inp of
        Inl e \<Rightarrow> if stops e then Inl e else Inl (''[model error] '' @ e)
      | Inr resp \<Rightarrow> Inr resp)"

definition WrapInvokableToolCall :: "(goerror \<Rightarrow> bool) \<Rightarrow> ('i \<Rightarrow> gostring result) \<Rightarrow> 'i \<Rightarrow> gostring result" where
  "WrapInvokableToolCall stops tool_call args =
     (case tool_call args of
        Inl e \<Rightarrow> if stops e then Inl e else Inr (''[tool error] '' @ e)
      | Inr res \<Rightarrow> Inr res)"

text \<open>A stream is what \<open>Recv\<close> returns before \<open>io.EOF\<close>. The wrapper's goroutine copies it up to an error.\<close>

fun safeWrapReader :: "gostring result list \<Rightarrow> gostring list" where
  "safeWrapReader [] = []"
| "safeWrapReader (Inl e # rest) = [char_of (10 :: nat) # ''[tool error] '' @ e]"
| "safeWrapReader (Inr chunk # rest) = chunk # safeWrapReader rest"

definition singleChunkReader :: "gostring \<Rightarrow> gostring list" where
  "singleChunkReader msg = [msg]"

definition WrapStreamableToolCall ::
    "(goerror \<Rightarrow> bool) \<Rightarrow> ('i \<Rightarrow> (gostring result list) result) \<Rightarrow> 'i \<Rightarrow> (gostring list) result" where
  "WrapStreamableToolCall stops tool_call args =
     (case tool_call args of
        Inl e \<Rightarrow> if stops e then Inl e else Inr (singleChunkReader (''[tool error] '' @ e))
      | Inr sr \<Rightarrow> Inr (safeWrapReader sr))"

text \<open>
  A failing tool does not end the conversation. The only errors that pass the wrappers are the
  library's own interruptions, unchanged; any other error of a tool becomes its text, and a
  tool that streams is relayed up to its first error, which becomes the last chunk.
\<close>

theorem tool_errors_become_text:
  "(WrapInvokableToolCall stops f x = Inl e \<longleftrightarrow> f x = Inl e \<and> stops e)
   \<and> (WrapStreamableToolCall stops g x = Inl e \<longleftrightarrow> g x = Inl e \<and> stops e)
   \<and> (WrapInvokableToolCall stops f x = Inr r \<longleftrightarrow> f x = Inr r \<or> (\<exists>e. f x = Inl e \<and> \<not> stops e \<and> r = ''[tool error] '' @ e))
   \<and> WrapStreamableToolCall stops (\<lambda>_. Inr (map Inr cs @ rest)) x =
       Inr (cs @ (case rest of [] \<Rightarrow> [] | Inl e # _ \<Rightarrow> [char_of (10 :: nat) # ''[tool error] '' @ e] | Inr c # more \<Rightarrow> c # safeWrapReader more))"
proof -
  have "safeWrapReader (map Inr cs @ rest) = cs @ safeWrapReader rest" by (induction cs) simp_all
  moreover have "safeWrapReader rest =
      (case rest of [] \<Rightarrow> [] | Inl e # _ \<Rightarrow> [char_of (10 :: nat) # ''[tool error] '' @ e] | Inr c # more \<Rightarrow> c # safeWrapReader more)"
    by (cases rest rule: safeWrapReader.cases) simp_all
  ultimately show ?thesis
    by (auto simp: WrapInvokableToolCall_def WrapStreamableToolCall_def split: sum.splits)
qed

end
