(* ===== verification/Agent_Schedule.thy ===== *)
theory Agent_Schedule
  imports Messages Users
begin

text \<open>
  Messages to be sent later: \<open>apps/agent/dao/scheduled_messages.go\<close>, \<open>apps/agent/task/schedule_msg.go\<close>
  and the tool that books them, \<open>apps/agent/tools/schedule_message.go\<close>. Every agent process polls the
  table of tasks once a minute; a task belongs to the process whose update moves its status from
  0 to 1.

  The table is reached through gorm: \<open>sched_ops\<close> is what the sources call, on a state \<open>'s\<close>, and
  \<open>sched_laws\<close> what they rely on. Texts are kept in translation, without the emoji.
\<close>

section \<open>The table of tasks\<close>

record sched_task =
  sc_SchMsgId :: i64
  sc_CreatorId :: i64
  sc_ReceiverId :: i64
  sc_Content :: gostring
  sc_ScheduledSendTime :: time
  sc_Status :: int
  sc_FailReason :: gostring

record 's sched_ops =
  sd_create :: "sched_task \<Rightarrow> 's \<Rightarrow> 's \<times> goerror option"
  sd_find :: "(sched_task \<Rightarrow> bool) \<Rightarrow> nat \<Rightarrow> 's \<Rightarrow> 's \<times> (sched_task list) result"
  sd_updates :: "(sched_task \<Rightarrow> bool) \<Rightarrow> (sched_task \<Rightarrow> sched_task) \<Rightarrow> 's \<Rightarrow> 's \<times> nat \<times> goerror option"
  sd_rows :: "'s \<Rightarrow> sched_task list"

text \<open>
  The key is assigned by the table. An update reports the number of rows it matched; one that
  fails may have taken effect.
\<close>

definition sched_laws :: "'s sched_ops \<Rightarrow> bool" where
  "sched_laws sd \<longleftrightarrow>
     (\<forall>x s s' e. sd_create sd x s = (s', e) \<longrightarrow>
        e \<noteq> None \<and> sd_rows sd s' = sd_rows sd s
        \<or> (\<exists>i. i \<notin> sc_SchMsgId ` set (sd_rows sd s) \<and> sd_rows sd s' = sd_rows sd s @ [x\<lparr>sc_SchMsgId := i\<rparr>]))
   \<and> (\<forall>P n s s' res. sd_find sd P n s = (s', res) \<longrightarrow>
        sd_rows sd s' = sd_rows sd s
        \<and> (\<forall>xs. res = Inr xs \<longrightarrow> length xs \<le> n
             \<and> (\<exists>others. mset (xs @ others) = mset (filter P (sd_rows sd s)) \<and> (length xs < n \<longrightarrow> others = []))))
   \<and> (\<forall>P f s s' n e. (\<forall>x. sc_SchMsgId (f x) = sc_SchMsgId x) \<longrightarrow> sd_updates sd P f s = (s', n, e) \<longrightarrow>
        (if e = None then sd_rows sd s' = update_rows P f (sd_rows sd s) \<and> n = length (filter P (sd_rows sd s))
         else sd_rows sd s' = sd_rows sd s \<or> sd_rows sd s' = update_rows P f (sd_rows sd s)))"

definition CreateScheduledMessage :: "'s sched_ops \<Rightarrow> sched_task \<Rightarrow> 's \<Rightarrow> 's \<times> i64 \<times> goerror option" where
  "CreateScheduledMessage sd x s = (case sd_create sd x s of (s', e) \<Rightarrow> (s', sc_CreatorId x, e))"

definition GetPendingScheduledTasks :: "'s sched_ops \<Rightarrow> time \<Rightarrow> nat \<Rightarrow> 's \<Rightarrow> 's \<times> (sched_task list) result" where
  "GetPendingScheduledTasks sd now limit s =
     sd_find sd (\<lambda>x. sc_Status x = 0 \<and> sc_ScheduledSendTime x \<le> now) limit s"

definition ClaimTask :: "'s sched_ops \<Rightarrow> i64 \<Rightarrow> 's \<Rightarrow> 's \<times> nat \<times> goerror option" where
  "ClaimTask sd schMsgId s =
     sd_updates sd (\<lambda>x. sc_SchMsgId x = schMsgId \<and> sc_Status x = 0) (\<lambda>x. x\<lparr>sc_Status := 1\<rparr>) s"

text \<open>
  \<open>ExecuteSchSend\<close>: the insert goes through the global connection, only the update through the
  transaction; what is rolled back is the update.
\<close>

definition ExecuteSchSend :: "'m msg_table \<Rightarrow> 's sched_ops \<Rightarrow> message \<Rightarrow> i64 \<Rightarrow> 'm \<times> 's \<Rightarrow> ('m \<times> 's) \<times> goerror option" where
  "ExecuteSchSend t sd msg schMsgId ms =
     (case ms of (m, s) \<Rightarrow>
        (case InsertMessage t msg m of
           (m', Some e) \<Rightarrow> ((m', s), Some e)
         | (m', None) \<Rightarrow>
             (case sd_updates sd (\<lambda>x. sc_SchMsgId x = schMsgId \<and> sc_Status x = 1) (\<lambda>x. x\<lparr>sc_Status := 2\<rparr>) s of
                (s', n, e) \<Rightarrow> ((m', s'), e))))"

text \<open>\<open>FailedTask\<close>; the flag says that the update failed, which ends the process.\<close>

definition FailedTask :: "'s sched_ops \<Rightarrow> i64 \<Rightarrow> gostring \<Rightarrow> 's \<Rightarrow> 's \<times> bool" where
  "FailedTask sd schMsgId failReason s =
     (case sd_updates sd (\<lambda>x. sc_SchMsgId x = schMsgId \<and> sc_Status x = 1)
         (\<lambda>x. x\<lparr>sc_Status := 3, sc_FailReason := failReason\<rparr>) s of
        (s', n, e) \<Rightarrow> (s', e \<noteq> None))"

section \<open>The job\<close>

definition batch :: nat where "batch = 100"

text \<open>The loop: tasks that were claimed, in order; an error of a claim leaves the loop.\<close>

fun claim_loop :: "'s sched_ops \<Rightarrow> sched_task list \<Rightarrow> 's \<Rightarrow> 's \<times> sched_task list" where
  "claim_loop sd [] s = (s, [])"
| "claim_loop sd (x # xs) s =
     (case ClaimTask sd (sc_SchMsgId x) s of
        (s', n, Some e) \<Rightarrow> (s', [])
      | (s', n, None) \<Rightarrow>
          if n = 0 then claim_loop sd xs s'
          else (case claim_loop sd xs s' of (s'', ys) \<Rightarrow> (s'', x # ys)))"

definition handleScheduledMessages :: "'s sched_ops \<Rightarrow> time \<Rightarrow> 's \<Rightarrow> 's \<times> sched_task list" where
  "handleScheduledMessages sd now s =
     (case GetPendingScheduledTasks sd now batch s of
        (s', Inl e) \<Rightarrow> (s', [])
      | (s', Inr tasks) \<Rightarrow> claim_loop sd tasks s')"

definition failure_text :: "i64 \<Rightarrow> goerror \<Rightarrow> gostring" where
  "failure_text receiver e =
     ''Sorry, the message you scheduled for ['' @ fmt_int64 receiver @ ''] could not be sent. Reason: '' @ e"

definition success_text :: "gostring \<Rightarrow> gostring" where
  "success_text content = ''Done! Your scheduled message has been sent:'' @ [char_of (10 :: nat)] @ content"

text \<open>
  \<open>SendSchMessages\<close>, with the ids its two \<open>NewMessages\<close> draw; the flag says that the process has ended.
\<close>

definition SendSchMessages ::
    "'m msg_table \<Rightarrow> 's sched_ops \<Rightarrow> i64 \<Rightarrow> i64 \<Rightarrow> sched_task \<Rightarrow> 'm \<times> 's \<Rightarrow> ('m \<times> 's) \<times> bool" where
  "SendSchMessages t sd snow1 snow2 x ms =
     (let schMessage = NewMessages snow1 (sc_CreatorId x) (sc_ReceiverId x) 0 (sc_Content x) False;
          feedback_of = (\<lambda>txt. NewMessages snow2 (-1) (sc_CreatorId x) 0 txt False)
      in case ExecuteSchSend t sd schMessage (sc_SchMsgId x) ms of
           ((m1, s1), Some e) \<Rightarrow>
             (case FailedTask sd (sc_SchMsgId x) e s1 of
                (s2, True) \<Rightarrow> ((m1, s2), True)
              | (s2, False) \<Rightarrow>
                  ((fst (InsertMessage t (feedback_of (failure_text (sc_ReceiverId x) e)) m1), s2), False))
         | ((m1, s1), None) \<Rightarrow>
             ((fst (InsertMessage t (feedback_of (success_text (sc_Content x))) m1), s1), False))"

section \<open>Booking\<close>

text \<open>
  \<open>schMessageInvoker\<close>. \<open>parse\<close> and \<open>format\<close> are \<open>time.Parse\<close> and \<open>Format\<close> with the layout RFC 3339;
  \<open>current_user_id\<close> is the context's value.
\<close>

record sch_request =
  sq_TargetUser :: gostring
  sq_SendTime :: gostring
  sq_MessageContent :: gostring

definition schMessageInvoker ::
    "'d user_ops \<Rightarrow> 's sched_ops \<Rightarrow> (gostring \<Rightarrow> time result) \<Rightarrow> (time \<Rightarrow> gostring) \<Rightarrow> time \<Rightarrow> i64 option \<Rightarrow> sch_request \<Rightarrow> 'd \<times> 's \<Rightarrow>
     ('d \<times> 's) \<times> gostring result" where
  "schMessageInvoker ut sd parse format now current_user_id req ds =
     (case ds of (d, s) \<Rightarrow>
        (case parse (sq_SendTime req) of
           Inl e \<Rightarrow> (ds, Inr (''cannot parse the time: '' @ e @ '', tell me the date and time to send it''))
         | Inr sendTime \<Rightarrow>
             if sendTime < now then (ds, Inr ''that time is past, choose a time in the future'')
             else
               (case current_user_id of
                  None \<Rightarrow> (ds, Inl ''internal error: missing user context'')
                | Some creator \<Rightarrow>
                    (case FindUserByName ut (sq_TargetUser req) d of
                       (d1, Inl e) \<Rightarrow> ((d1, s), Inr (''no user '' @ sq_TargetUser req @ '', check the name''))
                     | (d1, Inr target) \<Rightarrow>
                         (case CreateScheduledMessage sd
                                 \<lparr>sc_SchMsgId = 0, sc_CreatorId = creator, sc_ReceiverId = us_UserId target,
                                  sc_Content = sq_MessageContent req, sc_ScheduledSendTime = sendTime, sc_Status = 0,
                                  sc_FailReason = ''''\<rparr> s of
                            (s1, taskId, Some e) \<Rightarrow> ((d1, s1), Inl (''db error: '' @ e))
                          | (s1, taskId, None) \<Rightarrow>
                              ((d1, s1), Inr (''message scheduled'' @ [char_of (10 :: nat)] @ ''task id: '' @ fmt_int64 taskId
                                 @ [char_of (10 :: nat)] @ ''receiver: '' @ us_Username target @ [char_of (10 :: nat)]
                                 @ ''time: '' @ format sendTime @ [char_of (10 :: nat)] @ ''text: '' @ sq_MessageContent req)))))))"

section \<open>Several agents\<close>

text \<open>
  All runs of the job, of all agents' processes, on one table, one statement of the loop at a time:
  \<open>cr_todo k\<close> are the tasks run \<open>k\<close> has still to claim, \<open>cr_started\<close> those for which some run has started
  \<open>SendSchMessages\<close>, \<open>cr_running\<close> those of them that have not executed yet. New tasks are booked
  meanwhile, and a process may end at any point (\<open>FailedTask\<close> ends it when its update fails).
\<close>

record ('m, 's) cron =
  cr_msgs :: 'm
  cr_sched :: 's
  cr_todo :: "nat \<Rightarrow> sched_task list"
  cr_started :: "sched_task list"
  cr_running :: "sched_task list"

inductive cron_step :: "'m msg_table \<Rightarrow> 's sched_ops \<Rightarrow> ('m, 's) cron \<Rightarrow> ('m, 's) cron \<Rightarrow> bool" for t sd where
  book: "CreateScheduledMessage sd x (cr_sched c) = (s', i, e) \<Longrightarrow> sc_Status x = 0 \<Longrightarrow>
    cron_step t sd c (c\<lparr>cr_sched := s'\<rparr>)"
| poll: "cr_todo c k = [] \<Longrightarrow> GetPendingScheduledTasks sd now batch (cr_sched c) = (s', Inr xs) \<Longrightarrow>
    cron_step t sd c (c\<lparr>cr_sched := s', cr_todo := (cr_todo c)(k := xs)\<rparr>)"
| claim_error: "cr_todo c k = x # xs \<Longrightarrow> ClaimTask sd (sc_SchMsgId x) (cr_sched c) = (s', n, Some e) \<Longrightarrow>
    cron_step t sd c (c\<lparr>cr_sched := s', cr_todo := (cr_todo c)(k := [])\<rparr>)"
| claim_lost: "cr_todo c k = x # xs \<Longrightarrow> ClaimTask sd (sc_SchMsgId x) (cr_sched c) = (s', 0, None) \<Longrightarrow>
    cron_step t sd c (c\<lparr>cr_sched := s', cr_todo := (cr_todo c)(k := xs)\<rparr>)"
| claim_won: "cr_todo c k = x # xs \<Longrightarrow> ClaimTask sd (sc_SchMsgId x) (cr_sched c) = (s', Suc n, None) \<Longrightarrow>
    cron_step t sd c (c\<lparr>cr_sched := s', cr_todo := (cr_todo c)(k := xs),
      cr_started := cr_started c @ [x], cr_running := cr_running c @ [x]\<rparr>)"
| send: "cr_running c = xs @ x # ys \<Longrightarrow> SendSchMessages t sd i j x (cr_msgs c, cr_sched c) = ((m', s'), gone) \<Longrightarrow>
    cron_step t sd c (c\<lparr>cr_msgs := m', cr_sched := s', cr_running := xs @ ys\<rparr>)"
| crash: "cron_step t sd c (c\<lparr>cr_todo := (cr_todo c)(k := []), cr_running := filter alive (cr_running c)\<rparr>)"

inductive cron_reachable :: "'m msg_table \<Rightarrow> 's sched_ops \<Rightarrow> ('m, 's) cron \<Rightarrow> bool" for t sd where
  cron_init: "sd_rows sd s = [] \<Longrightarrow>
    cron_reachable t sd \<lparr>cr_msgs = m, cr_sched = s, cr_todo = (\<lambda>k. []), cr_started = [], cr_running = []\<rparr>"
| cron_next: "cron_reachable t sd c \<Longrightarrow> cron_step t sd c c' \<Longrightarrow> cron_reachable t sd c'"

section \<open>Every task is sent once\<close>

text \<open>A task and a later state of its row.\<close>

definition same_task :: "sched_task \<Rightarrow> sched_task \<Rightarrow> bool" where
  "same_task x r \<longleftrightarrow> r = x\<lparr>sc_Status := sc_Status r, sc_FailReason := sc_FailReason r\<rparr>"

lemma same_task_id: "same_task x r \<Longrightarrow> sc_SchMsgId r = sc_SchMsgId x"
  by (cases x; cases r) (simp add: same_task_def)

lemma same_task_refl [simp]: "same_task x x"
  by (simp add: same_task_def)

text \<open>An update that touches nothing but status and reason, and does not free a task again.\<close>

definition settles :: "(sched_task \<Rightarrow> sched_task) \<Rightarrow> bool" where
  "settles f \<longleftrightarrow> (\<forall>x r. same_task x r \<longrightarrow> same_task x (f r)) \<and> (\<forall>r. sc_Status (f r) \<noteq> 0)"

definition cron_inv :: "'s sched_ops \<Rightarrow> ('m, 's) cron \<Rightarrow> bool" where
  "cron_inv sd c \<longleftrightarrow>
     distinct (map sc_SchMsgId (sd_rows sd (cr_sched c)))
   \<and> (\<forall>k. \<forall>x \<in> set (cr_todo c k). \<exists>r \<in> set (sd_rows sd (cr_sched c)). same_task x r)
   \<and> (\<forall>x \<in> set (cr_started c). \<exists>r \<in> set (sd_rows sd (cr_sched c)). same_task x r \<and> sc_Status r \<noteq> 0)
   \<and> distinct (map sc_SchMsgId (cr_started c))"

declare cron_inv_def [inv_defs]

lemma settles_id: "settles f \<Longrightarrow> sc_SchMsgId (f r) = sc_SchMsgId r"
  unfolding settles_def using same_task_id same_task_refl by blast

lemma map_update_rows: "(\<And>r. g (f r) = g r) \<Longrightarrow> map g (update_rows P f rs) = map g rs"
  by (induction rs) (simp_all add: update_rows_def)

lemma update_rows_mem: "r \<in> set rs \<Longrightarrow> (if P r then f r else r) \<in> set (update_rows P f rs)"
  by (auto simp: update_rows_def)

text \<open>What any statement of the program may do to the rows.\<close>

definition rows_step :: "sched_task list \<Rightarrow> sched_task list \<Rightarrow> bool" where
  "rows_step rs rs' \<longleftrightarrow>
     rs' = rs
   \<or> (\<exists>P f. settles f \<and> rs' = update_rows P f rs)
   \<or> (\<exists>x. sc_SchMsgId x \<notin> sc_SchMsgId ` set rs \<and> rs' = rs @ [x])"

lemma rows_step_distinct:
  assumes "rows_step rs rs'" and "distinct (map sc_SchMsgId rs)"
  shows "distinct (map sc_SchMsgId rs')"
  using assms(1) unfolding rows_step_def
proof (elim disjE exE conjE)
  fix P f assume "settles f" "rs' = update_rows P f rs"
  with assms(2) show ?thesis by (simp add: map_update_rows settles_id)
qed (use assms(2) in auto)

lemma rows_step_keeps:
  assumes "rows_step rs rs'" and "r \<in> set rs" and "same_task x r"
  shows "\<exists>r' \<in> set rs'. same_task x r' \<and> (sc_Status r \<noteq> 0 \<longrightarrow> sc_Status r' \<noteq> 0)"
  using assms(1) unfolding rows_step_def
proof (elim disjE exE conjE)
  fix P f assume s: "settles f" "rs' = update_rows P f rs"
  let ?r = "if P r then f r else r"
  have "same_task x ?r \<and> (sc_Status r \<noteq> 0 \<longrightarrow> sc_Status ?r \<noteq> 0)" using s(1) assms(3) by (auto simp: settles_def)
  moreover have "?r \<in> set rs'" unfolding s(2) by (rule update_rows_mem [OF assms(2)])
  ultimately show ?thesis by blast
qed (use assms(2,3) in auto)

locale sched_table =
  fixes sd :: "'s sched_ops"
  assumes sched: "sched_laws sd"
begin

lemma create_step:
  assumes "CreateScheduledMessage sd x s = (s', i, e)"
  shows "rows_step (sd_rows sd s) (sd_rows sd s')"
proof -
  from assms have "sd_create sd x s = (s', e)" by (auto simp: CreateScheduledMessage_def split: prod.splits)
  with sched consider "sd_rows sd s' = sd_rows sd s"
    | i where "i \<notin> sc_SchMsgId ` set (sd_rows sd s)" "sd_rows sd s' = sd_rows sd s @ [x\<lparr>sc_SchMsgId := i\<rparr>]"
    unfolding sched_laws_def by blast
  then show ?thesis
  proof cases
    case 2
    then show ?thesis unfolding rows_step_def by (intro disjI2 exI [of _ "x\<lparr>sc_SchMsgId := i\<rparr>"]) simp
  qed (simp add: rows_step_def)
qed

lemma updates_cases:
  assumes "settles f" and "sd_updates sd P f s = (s', n, e)"
  shows "rows_step (sd_rows sd s) (sd_rows sd s')"
    and "e = None \<Longrightarrow> sd_rows sd s' = update_rows P f (sd_rows sd s) \<and> n = length (filter P (sd_rows sd s))"
proof -
  have id: "\<forall>x. sc_SchMsgId (f x) = sc_SchMsgId x" using settles_id [OF assms(1)] by blast
  have law: "if e = None then sd_rows sd s' = update_rows P f (sd_rows sd s) \<and> n = length (filter P (sd_rows sd s))
      else sd_rows sd s' = sd_rows sd s \<or> sd_rows sd s' = update_rows P f (sd_rows sd s)"
    using sched id assms(2) unfolding sched_laws_def by blast
  then show "e = None \<Longrightarrow> sd_rows sd s' = update_rows P f (sd_rows sd s) \<and> n = length (filter P (sd_rows sd s))" by simp
  from law have "sd_rows sd s' = sd_rows sd s \<or> sd_rows sd s' = update_rows P f (sd_rows sd s)" by (auto split: if_splits)
  with assms(1) show "rows_step (sd_rows sd s) (sd_rows sd s')" unfolding rows_step_def by blast
qed

lemma find_rows:
  assumes "sd_find sd P n s = (s', Inr xs)"
  shows "sd_rows sd s' = sd_rows sd s \<and> set xs \<subseteq> {r \<in> set (sd_rows sd s). P r}"
proof -
  have "\<forall>P n s s' res. sd_find sd P n s = (s', res) \<longrightarrow> sd_rows sd s' = sd_rows sd s
      \<and> (\<forall>xs. res = Inr xs \<longrightarrow> length xs \<le> n
           \<and> (\<exists>others. mset (xs @ others) = mset (filter P (sd_rows sd s)) \<and> (length xs < n \<longrightarrow> others = [])))"
    using sched unfolding sched_laws_def by (elim conjE)
  from this [rule_format, OF assms] obtain others
    where rows: "sd_rows sd s' = sd_rows sd s" and m: "mset (xs @ others) = mset (filter P (sd_rows sd s))" by blast
  from mset_eq_setD [OF m] have "set xs \<subseteq> set (filter P (sd_rows sd s))" unfolding set_append by blast
  with rows show ?thesis by (simp add: subset_iff)
qed

end

lemma settles_status: "v \<noteq> 0 \<Longrightarrow> settles (\<lambda>x. x\<lparr>sc_Status := v\<rparr>)"
  "v \<noteq> 0 \<Longrightarrow> settles (\<lambda>x. x\<lparr>sc_Status := v, sc_FailReason := w\<rparr>)"
proof -
  have "same_task x r \<Longrightarrow> same_task x (r\<lparr>sc_Status := v\<rparr>) \<and> same_task x (r\<lparr>sc_Status := v, sc_FailReason := w\<rparr>)" for x r
    by (cases x; cases r) (simp add: same_task_def)
  then show "v \<noteq> 0 \<Longrightarrow> settles (\<lambda>x. x\<lparr>sc_Status := v\<rparr>)"
    "v \<noteq> 0 \<Longrightarrow> settles (\<lambda>x. x\<lparr>sc_Status := v, sc_FailReason := w\<rparr>)" by (simp_all add: settles_def)
qed

lemma rows_step_inv:
  assumes inv: "cron_inv sd c" and "rows_step (sd_rows sd (cr_sched c)) (sd_rows sd s')"
  shows "cron_inv sd (c\<lparr>cr_msgs := m', cr_sched := s'\<rparr>)"
proof -
  let ?rs = "sd_rows sd (cr_sched c)" and ?rs' = "sd_rows sd s'"
  from inv have d: "distinct (map sc_SchMsgId ?rs)" "distinct (map sc_SchMsgId (cr_started c))"
    and todo: "\<forall>k. \<forall>x \<in> set (cr_todo c k). \<exists>r \<in> set ?rs. same_task x r"
    and started: "\<forall>x \<in> set (cr_started c). \<exists>r \<in> set ?rs. same_task x r \<and> sc_Status r \<noteq> 0"
    unfolding cron_inv_def by blast+
  note keeps = rows_step_keeps [OF assms(2)]
  have "\<forall>k. \<forall>x \<in> set (cr_todo c k). \<exists>r \<in> set ?rs'. same_task x r" using todo keeps by meson
  moreover have "\<forall>x \<in> set (cr_started c). \<exists>r \<in> set ?rs'. same_task x r \<and> sc_Status r \<noteq> 0" using started keeps by meson
  ultimately show ?thesis using rows_step_distinct [OF assms(2) d(1)] d(2) by (simp add: cron_inv_def)
qed

lemma cron_inv_todo:
  assumes "cron_inv sd c" and "\<forall>x \<in> set xs. \<exists>r \<in> set (sd_rows sd (cr_sched c)). same_task x r"
  shows "cron_inv sd (c\<lparr>cr_todo := (cr_todo c)(k := xs), cr_running := run\<rparr>)"
  using assms by (simp add: cron_inv_def)

text \<open>A task that is claimed had status 0, so no run has started it; from now on its row is settled.\<close>

lemma cron_inv_start:
  assumes inv: "cron_inv sd c" and todo: "cr_todo c k = x # xs"
    and rows: "sd_rows sd s' = update_rows (\<lambda>r. sc_SchMsgId r = sc_SchMsgId x \<and> sc_Status r = 0)
        (\<lambda>r. r\<lparr>sc_Status := 1\<rparr>) (sd_rows sd (cr_sched c))"
    and n: "filter (\<lambda>r. sc_SchMsgId r = sc_SchMsgId x \<and> sc_Status r = 0) (sd_rows sd (cr_sched c)) \<noteq> []"
  shows "cron_inv sd (c\<lparr>cr_sched := s', cr_todo := (cr_todo c)(k := xs),
      cr_started := cr_started c @ [x], cr_running := run\<rparr>)"
proof -
  let ?P = "\<lambda>r. sc_SchMsgId r = sc_SchMsgId x \<and> sc_Status r = 0" and ?f = "\<lambda>r. r\<lparr>sc_Status := 1\<rparr>"
  let ?rs = "sd_rows sd (cr_sched c)" and ?rs' = "sd_rows sd s'"
  have set: "settles ?f" by (rule settles_status) simp
  have step: "rows_step ?rs ?rs'" using set rows unfolding rows_step_def by blast
  have inv': "cron_inv sd (c\<lparr>cr_msgs := cr_msgs c, cr_sched := s'\<rparr>)" by (rule rows_step_inv [OF inv step])
  from inv have d: "distinct (map sc_SchMsgId ?rs)"
    and td: "\<exists>r \<in> set ?rs. same_task x r"
    and st: "\<forall>y \<in> set (cr_started c). \<exists>r \<in> set ?rs. same_task y r \<and> sc_Status r \<noteq> 0"
    using todo unfolding cron_inv_def by (blast, metis list.set_intros(1), blast)
  from n obtain r0 where r0: "r0 \<in> set ?rs" "sc_SchMsgId r0 = sc_SchMsgId x" "sc_Status r0 = 0"
    by (auto simp: filter_empty_conv)
  have one: "r = r0" if "r \<in> set ?rs" "sc_SchMsgId r = sc_SchMsgId x" for r
    using inj_onD [OF distinct_map [THEN iffD1, OF d, THEN conjunct2] _ that(1) r0(1)] that(2) r0(2) by simp
  have fresh: "sc_SchMsgId x \<notin> sc_SchMsgId ` set (cr_started c)"
  proof
    assume "sc_SchMsgId x \<in> sc_SchMsgId ` set (cr_started c)"
    then obtain y where y: "y \<in> set (cr_started c)" "sc_SchMsgId y = sc_SchMsgId x" by force
    from st y(1) obtain r where r: "r \<in> set ?rs" "same_task y r" "sc_Status r \<noteq> 0" by blast
    from one [OF r(1)] same_task_id [OF r(2)] y(2) r(3) r0(3) show False by simp
  qed
  from td obtain r where r: "r \<in> set ?rs" "same_task x r" by blast
  have "r = r0" by (rule one [OF r(1) same_task_id [OF r(2)]])
  have "?f r0 \<in> set ?rs'" using update_rows_mem [OF r0(1), of ?P ?f] r0 by (simp add: rows)
  moreover have "same_task x (?f r0)" using set r(2) \<open>r = r0\<close> unfolding settles_def by blast
  ultimately have "\<exists>r \<in> set ?rs'. same_task x r \<and> sc_Status r \<noteq> 0" by (intro bexI [of _ "?f r0"]) simp_all
  moreover have "set xs \<subseteq> set (cr_todo c k)" using todo by auto
  ultimately show ?thesis using inv' fresh by (auto simp: cron_inv_def)
qed

lemma rows_step_refl [simp]: "rows_step rs rs"
  by (simp add: rows_step_def)

context sched_table
begin

lemma claim_step:
  assumes "ClaimTask sd i s = (s', n, e)"
  shows "rows_step (sd_rows sd s) (sd_rows sd s')"
  using updates_cases(1) [OF settles_status(1) [OF one_neq_zero] assms [unfolded ClaimTask_def]] .

lemma claim_won_rows:
  assumes "ClaimTask sd i s = (s', Suc n, None)"
  shows "sd_rows sd s' = update_rows (\<lambda>r. sc_SchMsgId r = i \<and> sc_Status r = 0) (\<lambda>r. r\<lparr>sc_Status := 1\<rparr>) (sd_rows sd s)"
    and "filter (\<lambda>r. sc_SchMsgId r = i \<and> sc_Status r = 0) (sd_rows sd s) \<noteq> []"
proof -
  have "settles (\<lambda>r. r\<lparr>sc_Status := 1\<rparr>)" by (rule settles_status) simp
  from updates_cases(2) [OF this assms [unfolded ClaimTask_def] refl]
  show "sd_rows sd s' = update_rows (\<lambda>r. sc_SchMsgId r = i \<and> sc_Status r = 0) (\<lambda>r. r\<lparr>sc_Status := 1\<rparr>) (sd_rows sd s)"
    and "filter (\<lambda>r. sc_SchMsgId r = i \<and> sc_Status r = 0) (sd_rows sd s) \<noteq> []" by auto
qed

lemma execute_step:
  assumes "ExecuteSchSend t sd msg i (m, s) = ((m', s'), e)"
  shows "rows_step (sd_rows sd s) (sd_rows sd s')"
proof -
  have "settles (\<lambda>r. r\<lparr>sc_Status := 2\<rparr>)" by (rule settles_status) simp
  note up = updates_cases(1) [OF this]
  from assms up show ?thesis
    by (auto simp: ExecuteSchSend_def split: prod.splits option.splits)
qed

lemma failed_step:
  assumes "FailedTask sd i reason s = (s', gone)"
  shows "rows_step (sd_rows sd s) (sd_rows sd s')"
proof -
  have "settles (\<lambda>r. r\<lparr>sc_Status := 3, sc_FailReason := reason\<rparr>)" by (rule settles_status) simp
  note up = updates_cases(1) [OF this]
  from assms up show ?thesis by (auto simp: FailedTask_def split: prod.splits)
qed

lemma send_steps:
  assumes "SendSchMessages t sd i j x (m, s) = ((m', s'), gone)"
  obtains s1 where "rows_step (sd_rows sd s) (sd_rows sd s1)" "rows_step (sd_rows sd s1) (sd_rows sd s')"
proof -
  obtain m1 s1 e where ex: "ExecuteSchSend t sd (NewMessages i (sc_CreatorId x) (sc_ReceiverId x) 0 (sc_Content x) False)
      (sc_SchMsgId x) (m, s) = ((m1, s1), e)" by (metis surj_pair)
  have "rows_step (sd_rows sd s1) (sd_rows sd s')"
  proof (cases e)
    case None
    with assms ex show ?thesis by (auto simp: SendSchMessages_def Let_def)
  next
    case (Some why)
    obtain s2 g where f: "FailedTask sd (sc_SchMsgId x) why s1 = (s2, g)" by (metis surj_pair)
    with assms ex Some have "s' = s2" by (auto simp: SendSchMessages_def Let_def split: bool.splits)
    with failed_step [OF f] show ?thesis by simp
  qed
  with that execute_step [OF ex] show ?thesis by blast
qed

lemma cron_step_inv:
  assumes "cron_step t sd c c'" and "cron_inv sd c"
  shows "cron_inv sd c'"
  using assms
proof cases
  case (book x s' i e)
  have "cron_inv sd (c\<lparr>cr_msgs := cr_msgs c, cr_sched := s'\<rparr>)" by (rule rows_step_inv [OF assms(2) create_step [OF book(2)]])
  then show ?thesis by (simp add: book(1))
next
  case (poll k now s' xs)
  from find_rows [OF poll(3) [unfolded GetPendingScheduledTasks_def]]
  have "sd_rows sd s' = sd_rows sd (cr_sched c)" and "\<forall>x \<in> set xs. \<exists>r \<in> set (sd_rows sd (cr_sched c)). same_task x r"
    using same_task_refl by blast+
  with assms(2) show ?thesis by (simp add: poll(1) cron_inv_def)
next
  case (claim_error k x xs s' n e)
  have "cron_inv sd (c\<lparr>cr_msgs := cr_msgs c, cr_sched := s'\<rparr>)"
    by (rule rows_step_inv [OF assms(2) claim_step [OF claim_error(3)]])
  from cron_inv_todo [OF this, where xs = "[]" and k = k and run = "cr_running c"] show ?thesis by (simp add: claim_error(1))
next
  case (claim_lost k x xs s')
  have "cron_inv sd (c\<lparr>cr_msgs := cr_msgs c, cr_sched := s'\<rparr>)"
    by (rule rows_step_inv [OF assms(2) claim_step [OF claim_lost(3)]])
  moreover from this have "\<forall>x \<in> set (cr_todo c k). \<exists>r \<in> set (sd_rows sd s'). same_task x r"
    by (simp add: cron_inv_def)
  ultimately show ?thesis
    using cron_inv_todo [where c = "c\<lparr>cr_msgs := cr_msgs c, cr_sched := s'\<rparr>" and xs = xs and k = k and run = "cr_running c"]
    by (simp add: claim_lost(1,2))
next
  case (claim_won k x xs s' n)
  show ?thesis unfolding claim_won(1)
    by (rule cron_inv_start [OF assms(2) claim_won(2) claim_won_rows [OF claim_won(3)]])
next
  case (send xs x ys i j m' s' gone)
  from send_steps [OF send(3)] obtain s1
    where s: "rows_step (sd_rows sd (cr_sched c)) (sd_rows sd s1)" "rows_step (sd_rows sd s1) (sd_rows sd s')" .
  have one: "cron_inv sd (c\<lparr>cr_msgs := m', cr_sched := s1\<rparr>)" by (rule rows_step_inv [OF assms(2) s(1)])
  have "cron_inv sd (c\<lparr>cr_msgs := m', cr_sched := s1\<rparr>\<lparr>cr_msgs := m', cr_sched := s'\<rparr>)"
    by (rule rows_step_inv [OF one]) (simp add: s(2))
  then show ?thesis by (simp add: send(1) cron_inv_def)
next
  case (crash k alive)
  show ?thesis unfolding crash(1) by (rule cron_inv_todo [OF assms(2)]) simp
qed

lemma cron_reachable_inv: "cron_reachable t sd c \<Longrightarrow> cron_inv sd c"
proof (induction rule: cron_reachable.induct)
  case (cron_init s m)
  then show ?case by (simp add: cron_inv_def)
qed (rule cron_step_inv)

end

section \<open>The table in memory\<close>

text \<open>A table with the failure script of \<open>mem_db\<close>; the next key is the number of rows plus one.\<close>

definition mem_sched :: "sched_task mem_db sched_ops" where
  "mem_sched =
     \<lparr>sd_create = \<lambda>x db.
        (case next_fault db of
           (db1, Some e) \<Rightarrow> (db1, Some e)
         | (db1, None) \<Rightarrow>
             let i = of_nat (length (mem_rows db1) + 1) in
             if list_ex (\<lambda>r. sc_SchMsgId r = i) (mem_rows db1) then (db1, Some ''Duplicate entry'')
             else (db1\<lparr>mem_rows := mem_rows db1 @ [x\<lparr>sc_SchMsgId := i\<rparr>]\<rparr>, None)),
      sd_find = \<lambda>P n db.
        (case next_fault db of
           (db1, Some e) \<Rightarrow> (db1, Inl e)
         | (db1, None) \<Rightarrow> (db1, Inr (take n (filter P (mem_rows db1))))),
      sd_updates = \<lambda>P f db.
        (case next_fault db of
           (db1, Some e) \<Rightarrow> (db1, 0, Some e)
         | (db1, None) \<Rightarrow>
             (db1\<lparr>mem_rows := update_rows P f (mem_rows db1)\<rparr>, length (filter P (mem_rows db1)), None)),
      sd_rows = mem_rows\<rparr>"

lemma mem_sched_laws: "sched_laws mem_sched"
proof -
  have take_rest: "length (take n xs) \<le> n \<and> (\<exists>others. mset (take n xs @ others) = mset xs
      \<and> (length (take n xs) < n \<longrightarrow> others = []))" for n and xs :: "sched_task list"
    by (intro conjI exI [of _ "drop n xs"]) auto
  have "sd_create mem_sched x s = (s', e) \<Longrightarrow> e \<noteq> None \<and> sd_rows mem_sched s' = sd_rows mem_sched s
      \<or> (\<exists>i. i \<notin> sc_SchMsgId ` set (sd_rows mem_sched s) \<and> sd_rows mem_sched s' = sd_rows mem_sched s @ [x\<lparr>sc_SchMsgId := i\<rparr>])"
    for x s s' e
  proof -
    assume c: "sd_create mem_sched x s = (s', e)"
    obtain db1 f where nf: "next_fault s = (db1, f)" by (metis surj_pair)
    let ?i = "1 + word_of_nat (length (mem_rows s)) :: i64"
    note rows = next_fault_rows [OF nf]
    show ?thesis
    proof (cases "f = None \<and> \<not> list_ex (\<lambda>r. sc_SchMsgId r = ?i) (mem_rows s)")
      case True
      then have "\<forall>r \<in> set (mem_rows s). sc_SchMsgId r \<noteq> ?i" unfolding list_ex_iff by blast
      then have "?i \<notin> sc_SchMsgId ` set (mem_rows s)" by (metis (no_types, lifting) imageE)
      moreover have "mem_rows s' = mem_rows s @ [x\<lparr>sc_SchMsgId := ?i\<rparr>]"
        using c nf True rows by (auto simp: mem_sched_def Let_def)
      ultimately show ?thesis unfolding mem_sched_def by simp blast
    next
      case False
      then show ?thesis using c nf rows by (auto simp: mem_sched_def Let_def split: option.splits)
    qed
  qed
  moreover have "sd_find mem_sched P n s = (s', res) \<Longrightarrow> sd_rows mem_sched s' = sd_rows mem_sched s
      \<and> (\<forall>xs. res = Inr xs \<longrightarrow> length xs \<le> n \<and> (\<exists>others. mset (xs @ others) = mset (filter P (sd_rows mem_sched s))
           \<and> (length xs < n \<longrightarrow> others = [])))" for P n s s' res
    using take_rest [of n "filter P (mem_rows s)"]
    by (auto simp: mem_sched_def split: prod.splits option.splits simp del: length_take)
  moreover have "sd_updates mem_sched P f s = (s', n, e) \<Longrightarrow>
      (if e = None then sd_rows mem_sched s' = update_rows P f (sd_rows mem_sched s) \<and> n = length (filter P (sd_rows mem_sched s))
       else sd_rows mem_sched s' = sd_rows mem_sched s \<or> sd_rows mem_sched s' = update_rows P f (sd_rows mem_sched s))"
    for P f s s' n e
    by (auto simp: mem_sched_def split: prod.splits option.splits)
  ultimately show ?thesis unfolding sched_laws_def by blast
qed

interpretation mem_tasks: sched_table mem_sched
  by unfold_locales (rule mem_sched_laws)

section \<open>Properties\<close>

text \<open>
  C7. A scheduled task is sent at most once, however many agents poll the table, and whatever of their
  statements fail or processes end: among all the tasks for which a run has started
  \<open>SendSchMessages\<close> no two have the same id, each is a row of the table with the sender,
  receiver, text and time that were booked, and its row is no longer pending.
\<close>

theorem scheduled_sent_once:
  assumes "sched_laws sd" and "cron_reachable t sd c"
  shows "distinct (map sc_SchMsgId (cr_started c))
    \<and> (\<forall>x \<in> set (cr_started c). \<exists>r \<in> set (sd_rows sd (cr_sched c)). same_task x r \<and> sc_Status r \<noteq> 0)"
proof -
  have "cron_inv sd c"
    by (rule sched_table.cron_reachable_inv [OF _ assms(2)]) (unfold_locales, rule assms(1))
  then show ?thesis unfolding cron_inv_def by blast
qed

definition booked :: sched_task where
  "booked = \<lparr>sc_SchMsgId = 0, sc_CreatorId = 5, sc_ReceiverId = 6, sc_Content = ''hello'', sc_ScheduledSendTime = 10,
     sc_Status = 0, sc_FailReason = ''''\<rparr>"

text \<open>One task, two agents that both see it; the second finds it claimed.\<close>

lemma scheduled_sent_once_witness:
  "\<exists>c :: (message mem_db, sched_task mem_db) cron. cr_started c = [booked\<lparr>sc_SchMsgId := 1\<rparr>]
     \<and> (\<forall>x \<in> set (cr_started c). \<exists>r \<in> set (sd_rows mem_sched (cr_sched c)). same_task x r \<and> sc_Status r \<noteq> 0)"
proof -
  let ?t = "mem_table MsgId" and ?x = "booked\<lparr>sc_SchMsgId := 1\<rparr>"
  let ?db = "\<lambda>rs. \<lparr>mem_rows = rs, mem_faults = []\<rparr>"
  let ?c0 = "\<lparr>cr_msgs = \<lparr>mem_rows = [], mem_faults = []\<rparr> :: message mem_db, cr_sched = ?db [], cr_todo = (\<lambda>k. []), cr_started = [], cr_running = []\<rparr>"
  let ?c1 = "?c0\<lparr>cr_sched := ?db [?x]\<rparr>"
  let ?c2 = "?c1\<lparr>cr_sched := ?db [?x], cr_todo := (cr_todo ?c1)(1 := [?x])\<rparr>"
  let ?c3 = "?c2\<lparr>cr_sched := ?db [?x], cr_todo := (cr_todo ?c2)(2 := [?x])\<rparr>"
  let ?c4 = "?c3\<lparr>cr_sched := ?db [?x\<lparr>sc_Status := 1\<rparr>], cr_todo := (cr_todo ?c3)(1 := []),
      cr_started := cr_started ?c3 @ [?x], cr_running := cr_running ?c3 @ [?x]\<rparr>"
  let ?c5 = "?c4\<lparr>cr_sched := ?db [?x\<lparr>sc_Status := 1\<rparr>], cr_todo := (cr_todo ?c4)(2 := [])\<rparr>"
  have r0: "cron_reachable ?t mem_sched ?c0" by (rule cron_init) (simp add: mem_sched_def)
  have "cron_step ?t mem_sched ?c0 ?c1"
    by (rule book [where x = booked and i = 5 and e = None])
      (simp_all add: CreateScheduledMessage_def mem_sched_def next_fault_def booked_def Let_def)
  note r1 = cron_next [OF r0 this]
  have "cron_step ?t mem_sched ?c1 ?c2"
    by (rule poll [where now = 60]) (simp_all add: GetPendingScheduledTasks_def mem_sched_def next_fault_def booked_def batch_def)
  note r2 = cron_next [OF r1 this]
  have "cron_step ?t mem_sched ?c2 ?c3"
    by (rule poll [where now = 60]) (simp_all add: GetPendingScheduledTasks_def mem_sched_def next_fault_def booked_def batch_def)
  note r3 = cron_next [OF r2 this]
  have "cron_step ?t mem_sched ?c3 ?c4"
    by (rule claim_won [where n = 0]) (simp_all add: ClaimTask_def mem_sched_def next_fault_def booked_def update_rows_def)
  note r4 = cron_next [OF r3 this]
  have "cron_step ?t mem_sched ?c4 ?c5"
    by (rule claim_lost [where x = ?x]) (simp_all add: ClaimTask_def mem_sched_def next_fault_def booked_def update_rows_def)
  note r5 = cron_next [OF r4 this]
  from scheduled_sent_once [OF mem_sched_laws r5] show ?thesis by (intro exI [of _ ?c5]) simp
qed

text \<open>
  The outcome of sending a claimed task. When both statements succeed the text is stored as an
  unread message from the creator to the receiver, the task is marked sent, and the creator is told
  so. The insert is not part of the transaction: when it succeeds and the update fails, the message
  stays stored and will reach the receiver, while the task is marked failed and the creator is told
  that it could not be sent.
\<close>

theorem scheduled_send_outcome:
  assumes laws: "sched_laws sd" "table_laws MsgId t"
    and ins: "InsertMessage t (NewMessages snow1 (sc_CreatorId x) (sc_ReceiverId x) 0 (sc_Content x) False) m = (m1, None)"
    and upd: "sd_updates sd (\<lambda>r. sc_SchMsgId r = sc_SchMsgId x \<and> sc_Status r = 1) (\<lambda>r. r\<lparr>sc_Status := 2\<rparr>) s = (s1, n, e)"
    and run: "SendSchMessages t sd snow1 snow2 x (m, s) = ((m', s'), gone)"
  shows "NewMessages snow1 (sc_CreatorId x) (sc_ReceiverId x) 0 (sc_Content x) False \<in> set (tb_rows t m')
    \<and> (\<not> gone \<longrightarrow>
        (\<forall>r \<in> set (sd_rows sd s'). sc_SchMsgId r = sc_SchMsgId x \<longrightarrow> sc_Status r \<noteq> 1)
        \<and> m' = fst (InsertMessage t (NewMessages snow2 (-1) (sc_CreatorId x) 0
            (case e of None \<Rightarrow> success_text (sc_Content x) | Some why \<Rightarrow> failure_text (sc_ReceiverId x) why) False) m1))"
proof -
  let ?msg = "NewMessages snow1 (sc_CreatorId x) (sc_ReceiverId x) 0 (sc_Content x) False"
  have tab: "db_table MsgId t" by (rule db_table_of [OF laws(2)])
  have sch: "sched_table sd" by unfold_locales (rule laws(1))
  have stored: "?msg \<in> set (tb_rows t m1)"
    using db_table.create_ok [OF tab ins [unfolded InsertMessage_def]] by simp
  have keep: "?msg \<in> set (tb_rows t (fst (InsertMessage t y m1)))" for y
    using db_table.create_any [OF tab prod.collapse [symmetric], of y m1] stored by (auto simp: InsertMessage_def)
  have ex: "ExecuteSchSend t sd ?msg (sc_SchMsgId x) (m, s) = ((m1, s1), e)"
    by (simp add: ExecuteSchSend_def ins upd)
  show ?thesis
  proof (cases e)
    case None
    have "sd_rows sd s1 = update_rows (\<lambda>r. sc_SchMsgId r = sc_SchMsgId x \<and> sc_Status r = 1) (\<lambda>r. r\<lparr>sc_Status := 2\<rparr>) (sd_rows sd s)"
      using sched_table.updates_cases(2) [OF sch settles_status(1) upd None] by simp
    then have "\<forall>r \<in> set (sd_rows sd s1). sc_SchMsgId r = sc_SchMsgId x \<longrightarrow> sc_Status r \<noteq> 1"
      by (auto simp: update_rows_def)
    with run ex None keep show ?thesis by (auto simp: SendSchMessages_def Let_def)
  next
    case (Some why)
    obtain s2 g where f: "FailedTask sd (sc_SchMsgId x) why s1 = (s2, g)" by (metis surj_pair)
    have open_left: "\<not> g \<longrightarrow> (\<forall>r \<in> set (sd_rows sd s2). sc_SchMsgId r = sc_SchMsgId x \<longrightarrow> sc_Status r \<noteq> 1)"
    proof (intro impI)
      assume "\<not> g"
      with f obtain n2 where u: "sd_updates sd (\<lambda>r. sc_SchMsgId r = sc_SchMsgId x \<and> sc_Status r = 1)
          (\<lambda>r. r\<lparr>sc_Status := 3, sc_FailReason := why\<rparr>) s1 = (s2, n2, None)"
        by (auto simp: FailedTask_def split: prod.splits)
      have "sd_rows sd s2 = update_rows (\<lambda>r. sc_SchMsgId r = sc_SchMsgId x \<and> sc_Status r = 1)
          (\<lambda>r. r\<lparr>sc_Status := 3, sc_FailReason := why\<rparr>) (sd_rows sd s1)"
        using sched_table.updates_cases(2) [OF sch settles_status(2) u refl] by simp
      then show "\<forall>r \<in> set (sd_rows sd s2). sc_SchMsgId r = sc_SchMsgId x \<longrightarrow> sc_Status r \<noteq> 1"
        by (auto simp: update_rows_def)
    qed
    show ?thesis
    proof (cases g)
      case True
      with run ex Some f stored show ?thesis by (simp add: SendSchMessages_def Let_def)
    next
      case False
      with run ex Some f keep open_left show ?thesis by (auto simp: SendSchMessages_def Let_def)
    qed
  qed
qed

text \<open>The update fails: the receiver will get the text, the creator reads that it was not sent.\<close>

lemma scheduled_send_outcome_witness:
  "let x = booked\<lparr>sc_SchMsgId := 1, sc_Status := 1\<rparr>;
       r = SendSchMessages (mem_table MsgId) mem_sched 70 71 x
         (\<lparr>mem_rows = [], mem_faults = []\<rparr>, \<lparr>mem_rows = [x], mem_faults = [Some ''lost'']\<rparr>)
   in NewMessages 70 5 6 0 ''hello'' False \<in> set (mem_rows (fst (fst r)))
      \<and> NewMessages 71 (-1) 5 0 (failure_text 6 ''lost'') False \<in> set (mem_rows (fst (fst r)))
      \<and> map sc_Status (mem_rows (snd (fst r))) = [3]"
proof -
  let ?x = "booked\<lparr>sc_SchMsgId := 1, sc_Status := 1\<rparr>"
  let ?m = "\<lparr>mem_rows = [], mem_faults = []\<rparr> :: message mem_db" and ?s = "\<lparr>mem_rows = [?x], mem_faults = [Some ''lost'']\<rparr>"
  let ?m1 = "\<lparr>mem_rows = [NewMessages 70 5 6 0 ''hello'' False], mem_faults = []\<rparr>"
  have ins: "InsertMessage (mem_table MsgId) (NewMessages 70 (sc_CreatorId ?x) (sc_ReceiverId ?x) 0 (sc_Content ?x) False) ?m = (?m1, None)"
    by (simp add: InsertMessage_def mem_table_def next_fault_def booked_def)
  have upd: "sd_updates mem_sched (\<lambda>r. sc_SchMsgId r = sc_SchMsgId ?x \<and> sc_Status r = 1) (\<lambda>r. r\<lparr>sc_Status := 2\<rparr>) ?s
      = (\<lparr>mem_rows = [?x], mem_faults = []\<rparr>, 0, Some ''lost'')"
    by (simp add: mem_sched_def next_fault_def)
  have f: "FailedTask mem_sched (sc_SchMsgId ?x) ''lost'' \<lparr>mem_rows = [?x], mem_faults = []\<rparr>
      = (\<lparr>mem_rows = [?x\<lparr>sc_Status := 3, sc_FailReason := ''lost''\<rparr>], mem_faults = []\<rparr>, False)"
    by (simp add: FailedTask_def mem_sched_def next_fault_def update_rows_def booked_def)
  have ex: "ExecuteSchSend (mem_table MsgId) mem_sched (NewMessages 70 (sc_CreatorId ?x) (sc_ReceiverId ?x) 0 (sc_Content ?x) False)
      (sc_SchMsgId ?x) (?m, ?s) = ((?m1, \<lparr>mem_rows = [?x], mem_faults = []\<rparr>), Some ''lost'')"
    unfolding ExecuteSchSend_def prod.case ins option.case upd by (rule refl)
  have run: "SendSchMessages (mem_table MsgId) mem_sched 70 71 ?x (?m, ?s)
      = ((fst (InsertMessage (mem_table MsgId) (NewMessages 71 (-1) (sc_CreatorId ?x) 0 (failure_text (sc_ReceiverId ?x) ''lost'') False) ?m1),
          \<lparr>mem_rows = [?x\<lparr>sc_Status := 3, sc_FailReason := ''lost''\<rparr>], mem_faults = []\<rparr>), False)"
    by (simp only: SendSchMessages_def Let_def ex prod.case option.case f bool.case)

  show ?thesis
    using scheduled_send_outcome [OF mem_sched_laws mem_table_laws ins upd run]
    unfolding Let_def run by (simp add: InsertMessage_def mem_table_def mem_sched_def next_fault_def NewMessages_def booked_def)
qed

end
