(* ===== verification/Agent_Tools.thy ===== *)
theory Agent_Tools
  imports Users
begin

text \<open>
  The assistant's search in the user's history: \<open>apps/agent/tools/search_chat_history.go\<close>,
  \<open>apps/agent/dao/messages.go\<close>, \<open>apps/agent/models/messages.go\<close> and the window of time,
  \<open>apps/pkg/utils/resolveTime.go\<close>. (The users are looked up as in \<open>Users\<close>: \<open>apps/agent/dao/users.go\<close>
  has the text of \<open>apps/logic/dao/users.go\<close>.)

  The query itself runs in the database: \<open>history_ops\<close> is what the sources call, \<open>history_laws\<close> what
  SQL promises of its \<open>WHERE\<close>, \<open>ORDER BY\<close> and \<open>LIMIT\<close>. Texts are kept in translation.
\<close>

section \<open>Calendar dates\<close>

text \<open>
  \<open>Time.AddDate\<close>. Dates of the proleptic Gregorian calendar as days since 1970-01-01; \<open>time.Date\<close>
  carries months over into years, and days that the month does not have into the next month. The
  local zone is \<open>off\<close> nanoseconds ahead of UTC, throughout the window.
\<close>

definition day_length :: int where "day_length = 24 * hour"

definition days_of_date :: "int \<Rightarrow> int \<Rightarrow> int \<Rightarrow> int" where
  "days_of_date y m d =
     (let y1 = y + (m - 1) div 12;
          m1 = (m - 1) mod 12 + 1;
          y2 = (if m1 \<le> 2 then y1 - 1 else y1);
          doy = (153 * (if m1 > 2 then m1 - 3 else m1 + 9) + 2) div 5 + d - 1;
          yoe = y2 mod 400
      in (y2 div 400) * 146097 + yoe * 365 + yoe div 4 - yoe div 100 + doy - 719468)"

definition date_of_days :: "int \<Rightarrow> int \<times> int \<times> int" where
  "date_of_days z =
     (let z1 = z + 719468;
          era = z1 div 146097;
          doe = z1 mod 146097;
          yoe = (doe - doe div 1460 + doe div 36524 - doe div 146096) div 365;
          doy = doe - (365 * yoe + yoe div 4 - yoe div 100);
          mp = (5 * doy + 2) div 153;
          d = doy - (153 * mp + 2) div 5 + 1;
          m = (if mp < 10 then mp + 3 else mp - 9);
          y = yoe + era * 400
      in (if m \<le> 2 then y + 1 else y, m, d))"

definition AddDate :: "int \<Rightarrow> int \<Rightarrow> int \<Rightarrow> int \<Rightarrow> time \<Rightarrow> time" where
  "AddDate off years months days t =
     (case date_of_days ((t + off) div day_length) of
        (y, m, d) \<Rightarrow> days_of_date (y + years) (m + months) (d + days) * day_length + (t + off) mod day_length - off)"

section \<open>The window\<close>

text \<open>
  \<open>ResolveTime\<close>; \<open>parse\<close> is \<open>time.Parse\<close> with the layout RFC 3339. Moving an instant into the local
  zone (\<open>In\<close>) does not change the instant.
\<close>

definition ResolveTime :: "(gostring \<Rightarrow> time result) \<Rightarrow> int \<Rightarrow> time \<Rightarrow> gostring \<Rightarrow> gostring \<Rightarrow> time \<times> time" where
  "ResolveTime parse off now startStr endStr =
     (let endTime = (if endStr \<noteq> '''' then (case parse endStr of Inl e \<Rightarrow> now | Inr t \<Rightarrow> t) else now);
          startTime = (if startStr \<noteq> '''' then (case parse startStr of Inl e \<Rightarrow> AddDate off 0 (-1) 0 now | Inr t \<Rightarrow> t)
                       else AddDate off 0 0 (-7) now)
      in (startTime, endTime))"

section \<open>The query\<close>

record agent_message =
  am_MsgId :: i64
  am_SeqId :: i64
  am_SenderId :: i64
  am_ReceiverId :: i64
  am_GroupId :: i64
  am_IsRead :: bool
  am_Content :: gostring
  am_SendStatus :: "8 word"
  am_CreateTime :: time

text \<open>The agent's own \<open>NewMessages\<close>; the time is set by the insert.\<close>

definition AgentNewMessages :: "i64 \<Rightarrow> i64 \<Rightarrow> i64 \<Rightarrow> gostring \<Rightarrow> bool \<Rightarrow> agent_message" where
  "AgentNewMessages snow senderId receiverId content isRead =
     \<lparr>am_MsgId = snow, am_SeqId = 0, am_SenderId = senderId, am_ReceiverId = receiverId, am_GroupId = 0,
      am_IsRead = isRead, am_Content = content, am_SendStatus = 0, am_CreateTime = 0\<rparr>"

text \<open>The newest \<open>n\<close> messages that satisfy a condition, newest first.\<close>

record 's history_ops =
  hi_newest :: "(agent_message \<Rightarrow> bool) \<Rightarrow> nat \<Rightarrow> 's \<Rightarrow> 's \<times> (agent_message list) result"
  hi_rows :: "'s \<Rightarrow> agent_message list"

definition older :: "agent_message \<Rightarrow> agent_message \<Rightarrow> bool" where
  "older x y \<longleftrightarrow> am_CreateTime y \<le> am_CreateTime x"

definition newest_of :: "nat \<Rightarrow> agent_message list \<Rightarrow> agent_message list \<Rightarrow> bool" where
  "newest_of n rows ms \<longleftrightarrow>
     length ms \<le> n \<and> sorted_wrt older ms
   \<and> (\<exists>others. mset (ms @ others) = mset rows \<and> (\<forall>x \<in> set ms. \<forall>y \<in> set others. older x y)
        \<and> (others \<noteq> [] \<longrightarrow> length ms = n))"

definition history_laws :: "'s history_ops \<Rightarrow> bool" where
  "history_laws hi \<longleftrightarrow>
     (\<forall>P n s s' res. hi_newest hi P n s = (s', res) \<longrightarrow>
        hi_rows hi s' = hi_rows hi s \<and> (\<forall>ms. res = Inr ms \<longrightarrow> newest_of n (filter P (hi_rows hi s)) ms))"

definition history_limit :: "int \<Rightarrow> nat" where
  "history_limit limit = (if limit \<le> 0 \<or> limit > 200 then 50 else nat limit)"

definition in_history :: "i64 \<Rightarrow> i64 \<Rightarrow> time \<Rightarrow> time \<Rightarrow> agent_message \<Rightarrow> bool" where
  "in_history uid1 uid2 startTime endTime m \<longleftrightarrow>
     ((am_SenderId m = uid1 \<and> am_ReceiverId m = uid2) \<or> (am_SenderId m = uid2 \<and> am_ReceiverId m = uid1))
   \<and> startTime \<le> am_CreateTime m \<and> am_CreateTime m \<le> endTime"

definition GetHistoryBetweenUsers ::
    "'s history_ops \<Rightarrow> i64 \<Rightarrow> i64 \<Rightarrow> time \<Rightarrow> time \<Rightarrow> int \<Rightarrow> 's \<Rightarrow> 's \<times> (agent_message list) result" where
  "GetHistoryBetweenUsers hi uid1 uid2 startTime endTime limit s =
     hi_newest hi (in_history uid1 uid2 startTime endTime) (history_limit limit) s"

section \<open>The tool\<close>

record history_request =
  hq_TargetUser :: gostring
  hq_StartTime :: gostring
  hq_EndTime :: gostring
  hq_Keywords :: gostring
  hq_Limit :: int

definition history_line :: "user \<Rightarrow> agent_message \<Rightarrow> gostring" where
  "history_line target m =
     ''['' @ (if am_SenderId m = us_UserId target then us_Username target else ''you'') @ '']: '' @ am_Content m
     @ [char_of (10 :: nat)]"

definition history_text :: "user \<Rightarrow> agent_message list \<Rightarrow> gostring" where
  "history_text target ms =
     (if ms = [] then ''no messages found between you and '' @ us_Username target
      else ''the raw messages, to be summarised:'' @ [char_of (10 :: nat)] @ concat (map (history_line target) ms))"

definition searchHistoryInvoker ::
    "'d user_ops \<Rightarrow> 's history_ops \<Rightarrow> (gostring \<Rightarrow> time result) \<Rightarrow> int \<Rightarrow> time \<Rightarrow> i64 option \<Rightarrow> history_request \<Rightarrow>
     'd \<times> 's \<Rightarrow> ('d \<times> 's) \<times> gostring result" where
  "searchHistoryInvoker ut hi parse off now current_user_id req ds =
     (case ResolveTime parse off now (hq_StartTime req) (hq_EndTime req) of
        (queryStart, queryEnd) \<Rightarrow>
     (case ds of (d, s) \<Rightarrow>
     (case FindUserByName ut (hq_TargetUser req) d of
        (d1, Inl e) \<Rightarrow> ((d1, s), Inr (''no user '' @ hq_TargetUser req @ '', check the spelling''))
      | (d1, Inr target) \<Rightarrow>
          (case current_user_id of
             None \<Rightarrow> ((d1, s), Inl ''internal error: missing user context'')
           | Some me \<Rightarrow>
               (case GetHistoryBetweenUsers hi me (us_UserId target) queryStart queryEnd (hq_Limit req) s of
                  (s1, Inl e) \<Rightarrow> ((d1, s1), Inl (''query failed: '' @ e))
                | (s1, Inr ms) \<Rightarrow> ((d1, s1), Inr (history_text target ms)))))))"

section \<open>A table in memory\<close>

definition mem_history :: "agent_message list history_ops" where
  "mem_history =
     \<lparr>hi_newest = \<lambda>P n rows. (rows, Inr (take n (rev (sort_key am_CreateTime (filter P rows))))),
      hi_rows = \<lambda>rows. rows\<rparr>"

lemma sorted_older: "sorted_wrt older (rev (sort_key am_CreateTime ms))"
proof -
  have "sorted_wrt (\<lambda>x y. am_CreateTime x \<le> am_CreateTime y) (sort_key am_CreateTime ms)"
    using sorted_sort_key [of am_CreateTime ms] by (simp add: sorted_map)
  then show ?thesis by (simp add: sorted_wrt_rev older_def [abs_def])
qed

lemma newest_of_take: "newest_of n ms (take n (rev (sort_key am_CreateTime ms)))"
proof -
  let ?xs = "rev (sort_key am_CreateTime ms)"
  have "sorted_wrt older (take n ?xs @ drop n ?xs)" by (simp add: sorted_older)
  then have "sorted_wrt older (take n ?xs)" "\<forall>x \<in> set (take n ?xs). \<forall>y \<in> set (drop n ?xs). older x y"
    unfolding sorted_wrt_append by blast+
  moreover have "mset (take n ?xs @ drop n ?xs) = mset ms" by (simp add: append_take_drop_id)
  moreover have "drop n ?xs \<noteq> [] \<longrightarrow> length (take n ?xs) = n" by simp
  ultimately show ?thesis unfolding newest_of_def by (intro conjI exI [of _ "drop n ?xs"]) simp_all
qed

lemma mem_history_laws: "history_laws mem_history"
  by (auto simp: history_laws_def mem_history_def newest_of_take)

locale history_source =
  fixes hi :: "'s history_ops"
  assumes history: "history_laws hi"
begin

lemma history_rows: "GetHistoryBetweenUsers hi a b t1 t2 l s = (s', res) \<Longrightarrow> hi_rows hi s' = hi_rows hi s"
  using history unfolding history_laws_def GetHistoryBetweenUsers_def by blast

lemma history_newest:
  "GetHistoryBetweenUsers hi a b t1 t2 l s = (s', Inr ms) \<Longrightarrow>
     newest_of (history_limit l) (filter (in_history a b t1 t2) (hi_rows hi s)) ms"
  using history unfolding history_laws_def GetHistoryBetweenUsers_def by blast

end

interpretation mem_history: history_source mem_history
  by unfold_locales (rule mem_history_laws)

section \<open>Properties\<close>

text \<open>
  The assistant is shown the right part of the history. For a target that exists, what the tool
  returns lists messages of the table that went between the user it works for and the target, in
  either direction, in the window asked for: each once, newest first, no older one before a newer
  one was taken, and at most 200; when fewer than all are shown it is because the limit is reached
  (the one asked for, or 50 when that is not between 1 and 200). Nobody else's messages are shown,
  and the tables are left as they were.
\<close>

theorem search_history_exact:
  assumes "history_laws hi" and "user_laws ut"
    and target: "FindUserByName ut (hq_TargetUser req) d = (d1, Inr u)"
    and run: "searchHistoryInvoker ut hi parse off now (Some me) req (d, s) = ((d', s'), Inr txt)"
    and window: "ResolveTime parse off now (hq_StartTime req) (hq_EndTime req) = (t1, t2)"
  shows "hi_rows hi s' = hi_rows hi s \<and> ut_rows ut d' = ut_rows ut d
    \<and> (\<exists>ms. txt = history_text u ms
        \<and> newest_of (history_limit (hq_Limit req)) (filter (in_history me (us_UserId u) t1 t2) (hi_rows hi s)) ms
        \<and> length ms \<le> 200 \<and> (\<forall>m \<in> set ms. in_history me (us_UserId u) t1 t2 m))"
proof -
  have src: "history_source hi" by unfold_locales (rule assms(1))
  from run target window obtain ms
    where q: "GetHistoryBetweenUsers hi me (us_UserId u) t1 t2 (hq_Limit req) s = (s', Inr ms)"
      and shown: "txt = history_text u ms" and d': "d' = d1"
    by (auto simp: searchHistoryInvoker_def split: prod.splits sum.splits)
  have rows: "hi_rows hi s' = hi_rows hi s" by (rule history_source.history_rows [OF src q])
  have new: "newest_of (history_limit (hq_Limit req)) (filter (in_history me (us_UserId u) t1 t2) (hi_rows hi s)) ms"
    by (rule history_source.history_newest [OF src q])
  then have "length ms \<le> history_limit (hq_Limit req)" by (simp add: newest_of_def)
  also have "\<dots> \<le> 200" by (auto simp: history_limit_def nat_le_iff)
  finally have len: "length ms \<le> 200" .
  from new obtain others where m: "mset (ms @ others) = mset (filter (in_history me (us_UserId u) t1 t2) (hi_rows hi s))"
    unfolding newest_of_def by blast
  from mset_eq_setD [OF m] have inside: "\<forall>m \<in> set ms. in_history me (us_UserId u) t1 t2 m"
    unfolding set_append set_filter by blast
  have "ut_rows ut d1 = ut_rows ut d"
  proof -
    obtain d2 res where r: "ut_by_name ut (hq_TargetUser req) d = (d2, res)" by (metis surj_pair)
    with target have "d1 = d2" by (auto simp: FindUserByName_def split: sum.splits list.splits)
    with r assms(2) show ?thesis unfolding user_laws_def by blast
  qed
  with rows new shown len inside d' show ?thesis by blast
qed

definition alice_and_bob :: "user list" where
  "alice_and_bob =
     [\<lparr>us_UserId = 1, us_Username = ''alice'', us_Password = '''', us_Nickname = '''', us_Avatar = ''''\<rparr>,
      \<lparr>us_UserId = 2, us_Username = ''bob'', us_Password = '''', us_Nickname = '''', us_Avatar = ''''\<rparr>]"

definition three_said :: "agent_message list" where
  "three_said =
     [(AgentNewMessages 11 1 2 ''hello'' True)\<lparr>am_CreateTime := 10\<rparr>,
      (AgentNewMessages 12 2 1 ''hi'' True)\<lparr>am_CreateTime := 20\<rparr>,
      (AgentNewMessages 13 1 3 ''secret'' True)\<lparr>am_CreateTime := 30\<rparr>]"

definition about_bob :: history_request where
  "about_bob = \<lparr>hq_TargetUser = ''bob'', hq_StartTime = '''', hq_EndTime = '''', hq_Keywords = '''', hq_Limit = 0\<rparr>"

lemma history_window_week: "ResolveTime parse 0 100 '''' '''' = (100 - 7 * day_length, 100)"
proof -
  have "AddDate 0 0 0 (-7) 100 = 100 - 7 * day_length" by code_simp
  then show ?thesis by (simp add: ResolveTime_def)
qed

lemma search_history_exact_witness:
  "\<exists>ms txt. snd (searchHistoryInvoker mem_users mem_history (\<lambda>s. Inl ''no time'') 0 100 (Some 1) about_bob (alice_and_bob, three_said))
       = Inr txt \<and> txt = history_text (alice_and_bob ! 1) ms \<and> (\<forall>m \<in> set ms. in_history 1 2 (100 - 7 * day_length) 100 m)"
proof -
  let ?bob = "alice_and_bob ! 1"
  have target: "FindUserByName mem_users (hq_TargetUser about_bob) alice_and_bob = (alice_and_bob, Inr ?bob)"
    by (simp add: FindUserByName_def mem_users_def alice_and_bob_def about_bob_def)
  have window: "ResolveTime (\<lambda>s. Inl ''no time'') 0 100 (hq_StartTime about_bob) (hq_EndTime about_bob) = (100 - 7 * day_length, 100)"
    using history_window_week by (simp add: about_bob_def)
  have run: "searchHistoryInvoker mem_users mem_history (\<lambda>s. Inl ''no time'') 0 100 (Some 1) about_bob (alice_and_bob, three_said)
      = ((alice_and_bob, three_said), Inr (history_text ?bob (take 50
          (rev (sort_key am_CreateTime (filter (in_history 1 (us_UserId ?bob) (100 - 7 * day_length) 100) three_said))))))"
    unfolding searchHistoryInvoker_def window prod.case target sum.case option.case
    by (simp add: GetHistoryBetweenUsers_def mem_history_def history_limit_def about_bob_def)
  from search_history_exact [OF mem_history_laws mem_users_laws target run window] run
  show ?thesis by (auto simp: alice_and_bob_def)
qed

text \<open>
  What the window means in practice: a start time that cannot be read stands for a month earlier,
  which on 31 March 2026 is 3 March, 28 days.
\<close>

lemma month_before_march_31:
  "fst (ResolveTime (\<lambda>s. Inl e) 0 (days_of_date 2026 3 31 * day_length) ''yesterday'' '''') = days_of_date 2026 3 3 * day_length"
proof -
  have "AddDate 0 0 (-1) 0 (days_of_date 2026 3 31 * day_length) = days_of_date 2026 3 3 * day_length" by code_simp
  then show ?thesis by (simp add: ResolveTime_def)
qed

end
