(* ===== verification/Agent_Trace.thy ===== *)
theory Agent_Trace
  imports Prelude
begin

text \<open>
  The trace of the assistant's models and tools: \<open>apps/agent/callback/trace_logger.go\<close>. The
  callbacks carry the time a component started in the context and write log lines when it ends;
  for a streaming model a goroutine reads a copy of the stream to its end. The copy must be
  closed on every path, or the framework keeps it for ever.

  Times are clock readings; a receive from the copy is the chunk (with the token usage it carries,
  if any), the error, and the clock when it returned.
\<close>

datatype component = ComponentOfChatModel | ComponentOfTool | OtherComponent

record token_usage =
  PromptTokens :: int
  CompletionTokens :: int
  TotalTokens :: int

record trace_ctx =
  chat_model_start_time :: "time option"
  tool_start_time :: "time option"

datatype trace_line =
    FirstToken time
  | StreamDone time
  | StreamError goerror
  | Tokens token_usage
  | ToolDone gostring time
  | ModelDone time

record recv =
  rv_chunk :: "token_usage option option"
  rv_err :: "goerror option"
  rv_now :: time

section \<open>Callbacks\<close>

definition OnStart :: "component \<Rightarrow> time \<Rightarrow> trace_ctx \<Rightarrow> trace_ctx" where
  "OnStart cmp now ctx =
     (case cmp of
        ComponentOfChatModel \<Rightarrow> ctx\<lparr>chat_model_start_time := Some now\<rparr>
      | ComponentOfTool \<Rightarrow> ctx\<lparr>tool_start_time := Some now\<rparr>
      | OtherComponent \<Rightarrow> ctx)"

text \<open>The stream of a streaming input is closed in any case; only a model's start is noted.\<close>

definition OnStartWithStreamInput :: "component \<Rightarrow> time \<Rightarrow> trace_ctx \<Rightarrow> trace_ctx \<times> bool" where
  "OnStartWithStreamInput cmp now ctx =
     (if cmp = ComponentOfChatModel then (ctx\<lparr>chat_model_start_time := Some now\<rparr>, True) else (ctx, True))"

definition OnEnd :: "component \<Rightarrow> gostring \<Rightarrow> time \<Rightarrow> token_usage option option \<Rightarrow> trace_ctx \<Rightarrow> trace_ctx \<times> trace_line list" where
  "OnEnd cmp name now output ctx =
     (ctx,
      (if cmp = ComponentOfTool
       then (case tool_start_time ctx of Some start \<Rightarrow> [ToolDone name (now - start)] | None \<Rightarrow> []) else [])
      @ (if cmp = ComponentOfChatModel
         then (case chat_model_start_time ctx of Some start \<Rightarrow> [ModelDone (now - start)] | None \<Rightarrow> [])
              @ (case output of Some (Some usage) \<Rightarrow> [Tokens usage] | _ \<Rightarrow> [])
         else []))"

text \<open>
  The goroutine: the loop over \<open>Recv\<close>, on the receives that return. The result are the log lines
  and whether the copy has been closed; it is not while the stream goes on.
\<close>

definition after_first :: "bool \<Rightarrow> time \<Rightarrow> recv \<Rightarrow> trace_line list" where
  "after_first isFirstToken startTime r =
     (if isFirstToken \<and> rv_chunk r \<noteq> None then [FirstToken (rv_now r - startTime)] else [])"

definition final_tokens :: "token_usage option \<Rightarrow> trace_line list" where
  "final_tokens finalUsage = (case finalUsage of None \<Rightarrow> [] | Some u \<Rightarrow> [Tokens u])"

fun read_copy :: "time \<Rightarrow> bool \<Rightarrow> token_usage option \<Rightarrow> recv list \<Rightarrow> trace_line list \<times> bool" where
  "read_copy startTime isFirstToken finalUsage [] = ([], False)"
| "read_copy startTime isFirstToken finalUsage (r # rs) =
     (case rv_err r of
        Some e \<Rightarrow>
          (after_first isFirstToken startTime r
           @ [if e = ''EOF'' then StreamDone (rv_now r - startTime) else StreamError e]
           @ final_tokens finalUsage, True)
      | None \<Rightarrow>
          (case read_copy startTime (isFirstToken \<and> rv_chunk r = None)
                  (case rv_chunk r of Some (Some u) \<Rightarrow> Some u | _ \<Rightarrow> finalUsage) rs of
             (ls, done_reading) \<Rightarrow> (after_first isFirstToken startTime r @ ls, done_reading)))"

text \<open>\<open>None\<close> for a copy that is closed at once, without a goroutine.\<close>

definition OnEndWithStreamOutput :: "component \<Rightarrow> trace_ctx \<Rightarrow> trace_ctx \<times> (recv list \<Rightarrow> trace_line list \<times> bool) option" where
  "OnEndWithStreamOutput cmp ctx =
     (if cmp = ComponentOfChatModel
      then (case chat_model_start_time ctx of
              None \<Rightarrow> (ctx, None)
            | Some startTime \<Rightarrow> (ctx, Some (read_copy startTime True None)))
      else (ctx, None))"

section \<open>Lemmas\<close>

definition usages :: "recv list \<Rightarrow> token_usage list" where
  "usages rs = concat (map (\<lambda>r. case rv_chunk r of Some (Some u) \<Rightarrow> [u] | _ \<Rightarrow> []) rs)"

definition last_of :: "'a option \<Rightarrow> 'a list \<Rightarrow> 'a option" where
  "last_of x xs = (if xs = [] then x else Some (last xs))"

definition first_line :: "time \<Rightarrow> recv list \<Rightarrow> trace_line list" where
  "first_line start rs =
     (case find (\<lambda>r. rv_chunk r \<noteq> None) rs of None \<Rightarrow> [] | Some r \<Rightarrow> [FirstToken (rv_now r - start)])"

lemma read_copy_open:
  "\<forall>r \<in> set rs. rv_err r = None \<Longrightarrow>
   read_copy start f u rs = (if f then first_line start rs else [], False)"
  by (induction rs arbitrary: f u) (auto simp: first_line_def after_first_def)

lemma read_copy_ended:
  assumes "\<forall>r \<in> set rs. rv_err r = None" and "rv_err r = Some e"
  shows "read_copy start f u (rs @ r # later) =
    ((if f then first_line start (rs @ [r]) else [])
      @ [if e = ''EOF'' then StreamDone (rv_now r - start) else StreamError e]
      @ final_tokens (last_of u (usages rs)), True)"
  using assms(1)
proof (induction rs arbitrary: f u)
  case Nil
  then show ?case using assms(2) by (auto simp: first_line_def after_first_def last_of_def usages_def)
next
  case (Cons x xs)
  have u: "last_of (case rv_chunk x of Some (Some v) \<Rightarrow> Some v | _ \<Rightarrow> u) (usages xs) = last_of u (usages (x # xs))"
    by (auto simp: usages_def last_of_def split: option.split)
  from Cons show ?case
    by (auto simp: u first_line_def after_first_def)
qed

section \<open>Properties\<close>

text \<open>
  The trace of a streaming model says what happened. The copy of a model that was seen to start is
  read to the first error and then closed, not before and not never; the lines are, in this
  order: the time to the first chunk, if there was one; the total time at the end of the stream,
  or the error; and the token usage in the last chunk that carries one. Any other copy is closed
  at once, and the context is handed on unchanged.
\<close>

theorem stream_traced_and_closed:
  assumes "\<forall>r \<in> set rs. rv_err r = None" and "rv_err r = Some e"
  shows "fst (OnEndWithStreamOutput cmp ctx) = ctx
    \<and> (case snd (OnEndWithStreamOutput cmp ctx) of
         None \<Rightarrow> cmp \<noteq> ComponentOfChatModel \<or> chat_model_start_time ctx = None
       | Some reader \<Rightarrow> (\<exists>start. cmp = ComponentOfChatModel \<and> chat_model_start_time ctx = Some start
           \<and> reader rs = (first_line start rs, False)
           \<and> reader (rs @ r # later) =
               (first_line start (rs @ [r])
                @ [if e = ''EOF'' then StreamDone (rv_now r - start) else StreamError e]
                @ (if usages rs = [] then [] else [Tokens (last (usages rs))]), True)))"
  using read_copy_open [OF assms(1)] read_copy_ended [OF assms]
  by (auto simp: OnEndWithStreamOutput_def final_tokens_def last_of_def split: option.split)

lemma stream_traced_and_closed_witness:
  "let u = \<lparr>PromptTokens = 3, CompletionTokens = 2, TotalTokens = 5\<rparr>;
       rs = [\<lparr>rv_chunk = Some None, rv_err = None, rv_now = 12\<rparr>, \<lparr>rv_chunk = Some (Some u), rv_err = None, rv_now = 20\<rparr>];
       r = \<lparr>rv_chunk = None, rv_err = Some ''EOF'', rv_now = 21\<rparr>
   in map_option (\<lambda>f. f (rs @ [r]))
        (snd (OnEndWithStreamOutput ComponentOfChatModel (OnStart ComponentOfChatModel 10 \<lparr>chat_model_start_time = None, tool_start_time = None\<rparr>)))
      = Some ([FirstToken 2, StreamDone 11, Tokens u], True)"
proof -
  let ?u = "\<lparr>PromptTokens = 3, CompletionTokens = 2, TotalTokens = 5\<rparr>"
  let ?rs = "[\<lparr>rv_chunk = Some None, rv_err = None, rv_now = 12\<rparr>, \<lparr>rv_chunk = Some (Some ?u), rv_err = None, rv_now = 20\<rparr>]"
  let ?r = "\<lparr>rv_chunk = None, rv_err = Some ''EOF'', rv_now = 21\<rparr>"
  let ?ctx = "OnStart ComponentOfChatModel 10 \<lparr>chat_model_start_time = None, tool_start_time = None\<rparr>"
  have start: "chat_model_start_time ?ctx = Some 10" by (simp add: OnStart_def)
  from stream_traced_and_closed [of ?rs ?r "''EOF''" ComponentOfChatModel ?ctx "[]"] start show ?thesis
    by (auto simp: Let_def first_line_def usages_def split: option.splits)
qed

end
