(* ===== verification/Group_Dao.thy ===== *)
theory Group_Dao
  imports Logic_Upload "HOL-Library.Multiset"
begin

text \<open>
  Founding a group: \<open>apps/logic/dao/groups.go\<close>, \<open>apps/logic/models/groups.go\<close>. The group and its
  members are written in one transaction. The database is a parameter: \<open>group_db\<close> is what the
  code calls, \<open>group_laws\<close> what it relies on (an insert writes the generated key back into the
  struct, an empty batch is an error, a transaction is committed as a whole or rolled back).
\<close>

record group_row =
  gr_GroupID :: i64
  gr_GroupName :: gostring
  gr_OwnerID :: i64
  gr_CreatorID :: i64

record 'db group_db =
  gd_create :: "group_row \<Rightarrow> 'db \<Rightarrow> 'db \<times> group_row \<times> goerror option"
  gd_add :: "group_member list \<Rightarrow> 'db \<Rightarrow> 'db \<times> goerror option"
  gd_transaction :: "('db \<Rightarrow> 'db \<times> group_row \<times> goerror option) \<Rightarrow> 'db \<Rightarrow> 'db \<times> group_row \<times> goerror option"
  gd_groups :: "'db \<Rightarrow> group_row list"
  gd_members :: "'db \<Rightarrow> group_member list"
  gd_msgs :: "'db \<Rightarrow> message list"

definition memberships :: "i64 \<Rightarrow> i64 list \<Rightarrow> group_member list" where
  "memberships groupID memberIDs = map (\<lambda>uid. \<lparr>gm_GroupID = groupID, gm_UserID = uid\<rparr>) memberIDs"

text \<open>The group struct is shared with the caller: the second component is what it holds in the end.\<close>

definition CreateGroup :: "'db group_db \<Rightarrow> group_row \<Rightarrow> i64 list \<Rightarrow> 'db \<Rightarrow> 'db \<times> group_row \<times> goerror option" where
  "CreateGroup gd grp memberIDs =
     gd_transaction gd
       (\<lambda>tx. case gd_create gd grp tx of
           (tx', grp', Some e) \<Rightarrow> (tx', grp', Some e)
         | (tx', grp', None) \<Rightarrow>
             (case gd_add gd (memberships (gr_GroupID grp') memberIDs) tx' of (tx'', e) \<Rightarrow> (tx'', grp', e)))"

section \<open>The database\<close>

definition tables :: "'db group_db \<Rightarrow> 'db \<Rightarrow> group_row list \<times> group_member list \<times> message list" where
  "tables gd db = (gd_groups gd db, gd_members gd db, gd_msgs gd db)"

definition group_laws :: "'db group_db \<Rightarrow> bool" where
  "group_laws gd \<longleftrightarrow>
     (\<forall>g db db' g'. gd_create gd g db = (db', g', None) \<longrightarrow>
        g' = g\<lparr>gr_GroupID := gr_GroupID g'\<rparr> \<and> (gr_GroupID g \<noteq> 0 \<longrightarrow> g' = g)
        \<and> gr_GroupID g' \<notin> gr_GroupID ` set (gd_groups gd db)
        \<and> tables gd db' = (gd_groups gd db @ [g'], gd_members gd db, gd_msgs gd db))
   \<and> (\<forall>ms db db'. gd_add gd ms db = (db', None) \<longrightarrow>
        ms \<noteq> [] \<and> tables gd db' = (gd_groups gd db, gd_members gd db @ ms, gd_msgs gd db))
   \<and> (\<forall>f db. case f db of (db1, g1, e1) \<Rightarrow>
        (case gd_transaction gd f db of (db', g', e) \<Rightarrow>
           g' = g1 \<and> (e1 \<noteq> None \<longrightarrow> e = e1 \<and> tables gd db' = tables gd db)
           \<and> (e1 = None \<longrightarrow> (if e = None then tables gd db' = tables gd db1
                             else tables gd db' \<in> {tables gd db, tables gd db1}))))"

locale group_database =
  fixes gd :: "'db group_db"
  assumes laws: "group_laws gd"
begin

lemma create: "gd_create gd g db = (db', g', None) \<Longrightarrow>
    g' = g\<lparr>gr_GroupID := gr_GroupID g'\<rparr> \<and> (gr_GroupID g \<noteq> 0 \<longrightarrow> g' = g)
    \<and> gr_GroupID g' \<notin> gr_GroupID ` set (gd_groups gd db)
    \<and> tables gd db' = (gd_groups gd db @ [g'], gd_members gd db, gd_msgs gd db)"
  using laws unfolding group_laws_def by (elim conjE) blast

lemma add: "gd_add gd ms db = (db', None) \<Longrightarrow> ms \<noteq> [] \<and> tables gd db' = (gd_groups gd db, gd_members gd db @ ms, gd_msgs gd db)"
  using laws unfolding group_laws_def by (elim conjE) blast

lemma transaction:
  assumes "gd_transaction gd f db = (db', g', e)" and "f db = (db1, g1, e1)"
  shows "g' = g1 \<and> (e1 \<noteq> None \<longrightarrow> e = e1 \<and> tables gd db' = tables gd db)
    \<and> (e1 = None \<longrightarrow> (if e = None then tables gd db' = tables gd db1 else tables gd db' \<in> {tables gd db, tables gd db1}))"
proof -
  note all = conjunct2 [OF conjunct2 [OF laws [unfolded group_laws_def]]]
  show ?thesis using spec [OF spec [OF all, of f], of db] unfolding assms prod.case .
qed

text \<open>The two inserts, when neither failed.\<close>

lemma whole:
  assumes "CreateGroup gd grp memberIDs db = (db', grp', e)"
  defines "added \<equiv> (gd_groups gd db @ [grp'], gd_members gd db @ memberships (gr_GroupID grp') memberIDs, gd_msgs gd db)"
  shows "if e = None then tables gd db' = added \<and> memberIDs \<noteq> [] \<and> grp' = grp\<lparr>gr_GroupID := gr_GroupID grp'\<rparr>
      \<and> gr_GroupID grp' \<notin> gr_GroupID ` set (gd_groups gd db)
    else tables gd db' \<in> {tables gd db, added}"
proof -
  let ?f = "\<lambda>tx. case gd_create gd grp tx of
           (tx', grp', Some e) \<Rightarrow> (tx', grp', Some e)
         | (tx', grp', None) \<Rightarrow>
             (case gd_add gd (memberships (gr_GroupID grp') memberIDs) tx' of (tx'', e) \<Rightarrow> (tx'', grp', e))"
  from assms(1) have t: "gd_transaction gd ?f db = (db', grp', e)" by (simp add: CreateGroup_def)
  obtain db1 g1 e1 where f: "?f db = (db1, g1, e1)" by (rule prod_cases3)
  note tr = transaction [OF t f]
  show ?thesis
  proof (cases e1)
    case None
    with f tr obtain tx where c: "gd_create gd grp db = (tx, grp', None)"
      and a: "gd_add gd (memberships (gr_GroupID grp') memberIDs) tx = (db1, None)"
      by (auto split: prod.splits option.splits)
    from create [OF c] add [OF a] have "tables gd db1 = added" "memberIDs \<noteq> []"
      by (auto simp: added_def tables_def memberships_def)
    with tr None create [OF c] show ?thesis by auto
  next
    case (Some x)
    with tr show ?thesis by auto
  qed
qed

end

text \<open>A database in memory with the three tables and a script of failures.\<close>

record full_db =
  fd_msgs :: "message list"
  fd_members :: "group_member list"
  fd_groups :: "group_row list"
  fd_next :: i64
  fd_faults :: "goerror option list"

definition fd_fault :: "full_db \<Rightarrow> full_db \<times> goerror option" where
  "fd_fault db = (case fd_faults db of [] \<Rightarrow> (db, None) | f # fs \<Rightarrow> (db\<lparr>fd_faults := fs\<rparr>, f))"

definition mem_groups :: "full_db group_db" where
  "mem_groups =
     \<lparr>gd_create = \<lambda>g db.
        (case fd_fault db of
           (db1, Some e) \<Rightarrow> (db1, g, Some e)
         | (db1, None) \<Rightarrow>
             (let i = (if gr_GroupID g = 0 then fd_next db1 else gr_GroupID g); g' = g\<lparr>gr_GroupID := i\<rparr> in
              if i \<in> gr_GroupID ` set (fd_groups db1) then (db1, g, Some ''Duplicate entry'')
              else (db1\<lparr>fd_groups := fd_groups db1 @ [g'], fd_next := i + 1\<rparr>, g', None))),
      gd_add = \<lambda>ms db.
        (case fd_fault db of
           (db1, Some e) \<Rightarrow> (db1, Some e)
         | (db1, None) \<Rightarrow>
             if ms = [] then (db1, Some ''empty slice found'') else (db1\<lparr>fd_members := fd_members db1 @ ms\<rparr>, None)),
      gd_transaction = \<lambda>f db.
        (case f db of
           (db1, g, Some e) \<Rightarrow> (db\<lparr>fd_faults := fd_faults db1\<rparr>, g, Some e)
         | (db1, g, None) \<Rightarrow>
             (case fd_fault db1 of
                (db2, None) \<Rightarrow> (db2, g, None)
              | (db2, Some e) \<Rightarrow> (db\<lparr>fd_faults := fd_faults db2\<rparr>, g, Some e))),
      gd_groups = fd_groups, gd_members = fd_members, gd_msgs = fd_msgs\<rparr>"

lemma fd_fault_same:
  "fd_fault db = (db1, f) \<Longrightarrow> fd_groups db1 = fd_groups db \<and> fd_members db1 = fd_members db \<and> fd_msgs db1 = fd_msgs db"
  by (auto simp: fd_fault_def split: list.splits)

lemma mem_groups_laws: "group_laws mem_groups"
  unfolding group_laws_def
proof (intro conjI allI impI)
  fix g g' db db' assume "gd_create mem_groups g db = (db', g', None)"
  then obtain db1 where d: "fd_fault db = (db1, None)"
    and "let i = (if gr_GroupID g = 0 then fd_next db1 else gr_GroupID g) in i \<notin> gr_GroupID ` set (fd_groups db1)
      \<and> db' = db1\<lparr>fd_groups := fd_groups db1 @ [g\<lparr>gr_GroupID := i\<rparr>], fd_next := i + 1\<rparr> \<and> g' = g\<lparr>gr_GroupID := i\<rparr>"
    by (auto simp: mem_groups_def Let_def split: prod.splits option.splits if_splits)
  then show "g' = g\<lparr>gr_GroupID := gr_GroupID g'\<rparr>" "gr_GroupID g' \<notin> gr_GroupID ` set (gd_groups mem_groups db)"
    "tables mem_groups db' = (gd_groups mem_groups db @ [g'], gd_members mem_groups db, gd_msgs mem_groups db)"
    "gr_GroupID g \<noteq> 0 \<Longrightarrow> g' = g"
    using fd_fault_same [OF d] by (auto simp: Let_def tables_def mem_groups_def)
next
  fix ms db db' assume "gd_add mem_groups ms db = (db', None)"
  then show "ms \<noteq> []" "tables mem_groups db' = (gd_groups mem_groups db, gd_members mem_groups db @ ms, gd_msgs mem_groups db)"
    by (auto simp: mem_groups_def tables_def dest: fd_fault_same split: prod.splits option.splits if_splits)
next
  fix f db
  show "case f db of (db1, g1, e1) \<Rightarrow>
        (case gd_transaction mem_groups f db of (db', g', e) \<Rightarrow>
           g' = g1 \<and> (e1 \<noteq> None \<longrightarrow> e = e1 \<and> tables mem_groups db' = tables mem_groups db)
           \<and> (e1 = None \<longrightarrow> (if e = None then tables mem_groups db' = tables mem_groups db1
                             else tables mem_groups db' \<in> {tables mem_groups db, tables mem_groups db1})))"
    by (auto simp: mem_groups_def tables_def dest: fd_fault_same split: prod.splits option.splits)
qed

interpretation mem_group_db: group_database mem_groups
  by unfold_locales (rule mem_groups_laws)

section \<open>Properties\<close>

text \<open>
  A group is founded whole or not at all. When \<open>CreateGroup\<close> reports success, one group has
  been added, the caller's with an id no other group has, which the caller now holds, and exactly
  one membership for each id of the list, in its order; when it reports an error the tables are
  as before, or, if only the commit was reported as failed, as after. Nobody is a member who is
  not on the list, the owner neither, and with an empty list no group is founded.
\<close>

theorem group_founded_whole:
  assumes "group_laws gd" and "CreateGroup gd grp memberIDs db = (db', grp', e)"
  shows "if e = None then memberIDs \<noteq> [] \<and> grp' = grp\<lparr>gr_GroupID := gr_GroupID grp'\<rparr>
      \<and> gr_GroupID grp' \<notin> gr_GroupID ` set (gd_groups gd db)
      \<and> gd_groups gd db' = gd_groups gd db @ [grp']
      \<and> gd_members gd db' = gd_members gd db @ map (\<lambda>uid. \<lparr>gm_GroupID = gr_GroupID grp', gm_UserID = uid\<rparr>) memberIDs
      \<and> gd_msgs gd db' = gd_msgs gd db
    else tables gd db' \<in> {tables gd db,
      (gd_groups gd db @ [grp'], gd_members gd db @ memberships (gr_GroupID grp') memberIDs, gd_msgs gd db)}"
  using group_database.whole [OF group_database.intro [OF assms(1)] assms(2)]
  by (cases e) (auto simp: tables_def memberships_def)

definition empty_db :: "goerror option list \<Rightarrow> full_db" where
  "empty_db faults =
     \<lparr>fd_msgs = [], fd_members = [], fd_groups = [], fd_next = 9, fd_faults = faults\<rparr>"

definition ski_club :: group_row where
  "ski_club = \<lparr>gr_GroupID = 0, gr_GroupName = ''ski'', gr_OwnerID = 1, gr_CreatorID = 1\<rparr>"

lemma group_founded_whole_witness:
  "fd_members (fst (CreateGroup mem_groups ski_club [2, 3] (empty_db []))) = memberships 9 [2, 3]
   \<and> tables mem_groups (fst (CreateGroup mem_groups ski_club [2, 3] (empty_db [None, Some ''lost'']))) = ([], [], [])"
proof -
  have ok: "CreateGroup mem_groups ski_club [2, 3] (empty_db []) =
      (fst (CreateGroup mem_groups ski_club [2, 3] (empty_db [])), ski_club\<lparr>gr_GroupID := 9\<rparr>, None)"
    by (simp add: CreateGroup_def mem_groups_def fd_fault_def empty_db_def ski_club_def memberships_def Let_def)
  have "fst (snd (CreateGroup mem_groups ski_club [2, 3] (empty_db [None, Some ''lost'']))) = ski_club\<lparr>gr_GroupID := 9\<rparr>
      \<and> snd (snd (CreateGroup mem_groups ski_club [2, 3] (empty_db [None, Some ''lost'']))) = Some ''lost''
      \<and> tables mem_groups (fst (CreateGroup mem_groups ski_club [2, 3] (empty_db [None, Some ''lost'']))) = ([], [], [])"
    by (simp add: CreateGroup_def mem_groups_def fd_fault_def empty_db_def ski_club_def memberships_def tables_def Let_def)
  with group_founded_whole [OF mem_groups_laws ok] show ?thesis
    by (simp add: mem_groups_def empty_db_def memberships_def)
qed

lemma group_founded_rows:
  assumes "group_laws gd" and "CreateGroup gd grp memberIDs db = (db', grp', None)"
  shows "gd_members gd db' = gd_members gd db @ memberships (gr_GroupID grp') memberIDs \<and> gd_msgs gd db' = gd_msgs gd db"
  using group_database.whole [OF group_database.intro [OF assms(1)] assms(2)] by (auto simp: tables_def)

text \<open>A group message to members who were read, with fresh ids.\<close>

lemma group_fan_out:
  assumes "table_laws MsgId (lo_msgs ops)" and "up_ChatType p = ChatTypeGroup"
    and "GetGroupMembers (lo_members ops) (up_GroupID p) (lg_db s) = (db', Inr members)"
    and rows: "tb_rows (lo_msgs ops) db' = tb_rows (lo_msgs ops) (lg_db s)" and "accepts_fresh MsgId (lo_msgs ops)"
    and "distinct (map MsgId (tb_rows (lo_msgs ops) (lg_db s)) @ ids_from (lo_next ops) (lg_gen s) (2 * length members))"
  shows "\<exists>s' new. handleUploadDelivery ops (Some (marshal_upload p)) s = (s', Ack)
    \<and> tb_rows (lo_msgs ops) (lg_db s') = tb_rows (lo_msgs ops) (lg_db s) @ new \<and> group_rows_of p new
    \<and> map ReceiverId new = filter (\<lambda>u. u \<noteq> up_SenderID p) members"
proof -
  let ?s1 = "s\<lparr>lg_db := db'\<rparr>"
  have "distinct (map MsgId (tb_rows (lo_msgs ops) (lg_db ?s1)) @ ids_from (lo_next ops) (lg_gen ?s1) (2 * length members))"
    using assms(6) rows by simp
  from group_fold_complete [OF assms(1,5) this, of p] rows show ?thesis
    using assms(2,3) by (auto simp: handleUploadDelivery_def handleGroupChat_def chat_types)
qed

text \<open>The logic server on the same database.\<close>

definition on_same_db :: "'db group_db \<Rightarrow> ('db, 'r, 'b, 'g) logic_ops \<Rightarrow> bool" where
  "on_same_db gd ops \<longleftrightarrow> gd_members gd = tb_rows (lo_members ops) \<and> gd_msgs gd = tb_rows (lo_msgs ops)
     \<and> (\<forall>P db db' rs. tb_find (lo_members ops) P db = (db', Inr rs) \<longrightarrow>
          mset rs = mset (filter P (tb_rows (lo_members ops) db)) \<and> tb_rows (lo_msgs ops) db' = tb_rows (lo_msgs ops) db)"


text \<open>A logic server on the database in memory.\<close>

definition full_msgs :: "full_db msg_table" where
  "full_msgs =
     \<lparr>tb_create = \<lambda>r db.
        if MsgId r \<in> MsgId ` set (fd_msgs db) then (db, Some ''Duplicate entry'') else (db\<lparr>fd_msgs := fd_msgs db @ [r]\<rparr>, None),
      tb_find = \<lambda>P db. (db, Inr (filter P (fd_msgs db))),
      tb_updates = \<lambda>P f db. (db\<lparr>fd_msgs := update_rows P f (fd_msgs db)\<rparr>, None),
      tb_rows = fd_msgs\<rparr>"

lemma full_msgs_laws: "table_laws MsgId full_msgs" "accepts_fresh MsgId full_msgs"
  by (auto simp: table_laws_def full_msgs_def accepts_fresh_def)

definition full_logic :: "(full_db, mem_redis, mem_broker, i64) logic_ops" where
  "full_logic =
     \<lparr>lo_msgs = full_msgs,
      lo_members = \<lparr>tb_create = \<lambda>r db. (db\<lparr>fd_members := fd_members db @ [r]\<rparr>, None),
        tb_find = \<lambda>P db. (db, Inr (filter P (fd_members db))), tb_updates = \<lambda>P f db. (db, None), tb_rows = fd_members\<rparr>,
      lo_redis = mem_redis_ops, lo_amqp = mem_amqp, lo_next = \<lambda>g. (g, g + 1)\<rparr>"

definition full_state :: "(full_db, mem_redis, mem_broker, i64) logic" where
  "full_state =
     \<lparr>lg_db = empty_db [], lg_redis = \<lparr>mr_values = [], mr_counters = [], mr_faults = []\<rparr>,
      lg_mq = \<lparr>mq_broker = \<lparr>mb_queues = [], mb_bindings = [], mb_faults = []\<rparr>, publishIdx = 0\<rparr>, lg_gen = 100\<rparr>"


end
