(* ===== verification/Startup.thy ===== *)
theory Startup
  imports Snowflake Mq XClient
begin

text \<open>
  Configuration and start-up: \<open>apps/pkg/config/config.go\<close>, the connections to MySQL and Redis
  (\<open>apps/pkg/db/mysql_client.go\<close>, \<open>apps/pkg/cache/redis_client.go\<close>), the reliability manager's
  set-up (\<open>apps/gateway/ws/reliability.go\<close>), the consumers' start, the assistant's set-up
  (\<open>apps/agent/engine/graph.go\<close>), the logger (\<open>apps/pkg/logger/logger.go\<close>) and the \<open>main\<close> functions of
  gateway, logic and agent.

  What they reach outside, files, environment, viper, zap, gorm, Redis, RabbitMQ and the network, is the
  record \<open>world\<close>. A \<open>main\<close> is the list of its statements; one that fails ends it. The lines that are
  logged are left out, but not that the logger must be there.
\<close>

section \<open>Configuration\<close>

record server_config =
  sv_GatewayPort :: int
  sv_LogicPort :: int
  sv_AgentPort :: int
  sv_GatewaySnowflakeNode :: i64
  sv_LogicSnowflakeNode :: i64
  sv_AgentSnowflakeNode :: i64
  sv_AgentAddr :: gostring
  sv_GatewayAddr :: gostring

record mysql_config =
  my_DSN :: gostring
  my_MaxIdleConns :: int
  my_MaxOpenConns :: int

record redis_config =
  rd_Addr :: gostring
  rd_Password :: gostring
  rd_DB :: int

record rabbit_config =
  rq_URL :: gostring
  rq_Exchange :: gostring

record provider_config =
  pv_APIKey :: gostring
  pv_BaseURL :: gostring
  pv_ModelName :: gostring

record agent_config =
  ag_Default :: gostring
  ag_Providers :: "gostring \<rightharpoonup> provider_config"

record log_config =
  lc_Level :: gostring
  lc_Filename :: gostring
  lc_MaxSize :: int
  lc_MaxBackups :: int
  lc_MaxAge :: int
  lc_Compress :: bool

record config =
  cf_Server :: server_config
  cf_MySQL :: mysql_config
  cf_Redis :: redis_config
  cf_Agent :: agent_config
  cf_Log :: log_config
  cf_RabbitMQ :: rabbit_config

text \<open>
  \<open>'b\<close>, \<open>'d\<close>, \<open>'r\<close> are the states of the broker, a gorm handle and a Redis client. \<open>wd_is_file\<close> is
  \<open>os.Stat\<close> without error on something that is no directory; \<open>wd_pool\<close> tells whether \<open>db.DB()\<close> has a
  connection pool; \<open>wd_level\<close> is zap's reading of the name of a level; \<open>wd_infer\<close> the error of
  Eino's \<open>InferTool\<close> for a tool of that name; \<open>wd_redis\<close> gives the client and the error of its \<open>Ping\<close>.
\<close>

record ('b, 'd, 'r) world =
  wd_abs :: "gostring \<Rightarrow> gostring result"
  wd_is_file :: "gostring \<Rightarrow> bool"
  wd_env :: "gostring \<Rightarrow> gostring"
  wd_read :: "gostring \<Rightarrow> goerror option"
  wd_unmarshal :: "gostring \<Rightarrow> config \<times> goerror option"
  wd_open :: "gostring \<Rightarrow> 'd \<times> goerror option"
  wd_pool :: "'d \<Rightarrow> bool"
  wd_redis :: "redis_config \<Rightarrow> 'r \<times> goerror option"
  wd_am :: "'b amqp_ops"
  wd_dial :: "gostring \<Rightarrow> 'b \<Rightarrow> 'b \<times> goerror option"
  wd_cron :: "goerror option"
  wd_listen :: "int \<Rightarrow> goerror option"
  wd_model :: "gostring \<Rightarrow> provider_config \<Rightarrow> goerror option"
  wd_agent :: "goerror option"
  wd_infer :: "gostring \<Rightarrow> goerror option"
  wd_level :: "gostring \<Rightarrow> int option"

text \<open>A package-level singleton behind a \<open>sync.Once\<close>.\<close>

record 'a once =
  on_ran :: bool
  on_instance :: "'a option"
  on_error :: "goerror option"

record reliability_config =
  rc_InitialBackoff :: int
  rc_MaxBackoff :: int
  rc_MaxRetry :: int
  rc_DedupWindow :: int

record ('b, 'd, 'r) process =
  pr_config :: "config option"
  pr_log :: "(log_config \<times> int) option"
  pr_pool :: "(int \<times> int \<times> int) option"
  pr_mysql :: "'d once"
  pr_redis :: "'r once"
  pr_snow :: singleton
  pr_broker :: 'b
  pr_mq :: bool
  pr_consumers :: "gostring list"
  pr_rpc :: "(gostring list \<times> xclient) option"
  pr_reliability :: "('r \<times> reliability_config) option"
  pr_onDelivered :: bool
  pr_cron :: bool
  pr_interceptors :: "gostring list"
  pr_services :: "gostring list"
  pr_handlers :: nat
  pr_port :: "int option"

definition start_process :: "'b \<Rightarrow> ('b, 'd, 'r) process" where
  "start_process b =
     \<lparr>pr_config = None, pr_log = None, pr_pool = None, pr_mysql = \<lparr>on_ran = False, on_instance = None, on_error = None\<rparr>,
      pr_redis = \<lparr>on_ran = False, on_instance = None, on_error = None\<rparr>,
      pr_snow = \<lparr>once_done = False, snowflakeInstance = None\<rparr>, pr_broker = b, pr_mq = False, pr_consumers = [],
      pr_rpc = None, pr_reliability = None, pr_onDelivered = False, pr_cron = False,
      pr_interceptors = [], pr_services = [], pr_handlers = 0, pr_port = None\<rparr>"

definition default_paths :: "gostring list" where
  "default_paths =
     [''./apps/config.yaml'', ''./config.yaml'', ''../apps/config.yaml'', ''../config.yaml'',
      ''../../apps/config.yaml'', ''../../config.yaml'']"

definition candidates :: "('b, 'd, 'r) world \<Rightarrow> gostring \<Rightarrow> gostring list" where
  "candidates w configPath =
     (if configPath \<noteq> '''' then [configPath] else [])
     @ (let envPath = trim_space (wd_env w ''APP_CONFIG'') in if envPath \<noteq> '''' then [envPath] else [])
     @ default_paths"

fun first_file :: "('b, 'd, 'r) world \<Rightarrow> gostring list \<Rightarrow> gostring result" where
  "first_file w [] = Inl ''no configuration file: pass a path or set APP_CONFIG''"
| "first_file w (c # cs) =
     (case wd_abs w c of
        Inl e \<Rightarrow> first_file w cs
      | Inr absPath \<Rightarrow> if wd_is_file w absPath then Inr absPath else first_file w cs)"

definition resolveConfigPath :: "('b, 'd, 'r) world \<Rightarrow> gostring \<Rightarrow> gostring result" where
  "resolveConfigPath w configPath = first_file w (candidates w configPath)"

section \<open>Statements\<close>

text \<open>How a call ends: without an error, with one, or with a panic.\<close>

datatype call_end = Fine | Failed goerror | Panics gostring

definition of_error :: "goerror option \<Rightarrow> call_end" where
  "of_error e = (case e of None \<Rightarrow> Fine | Some x \<Rightarrow> Failed x)"

type_synonym ('b, 'd, 'r) stmt = "('b, 'd, 'r) process \<Rightarrow> ('b, 'd, 'r) process \<times> call_end"

definition InitConfig :: "('b, 'd, 'r) world \<Rightarrow> gostring \<Rightarrow> ('b, 'd, 'r) stmt" where
  "InitConfig w configPath p =
     (case resolveConfigPath w configPath of
        Inl e \<Rightarrow> (p, Failed e)
      | Inr path \<Rightarrow>
          (case wd_read w path of
             Some e \<Rightarrow> (p, Failed (''cannot read the configuration: '' @ e))
           | None \<Rightarrow>
               (case wd_unmarshal w path of
                  (c, Some e) \<Rightarrow> (p\<lparr>pr_config := Some c\<rparr>, Failed (''cannot parse the configuration: '' @ e))
                | (c, None) \<Rightarrow> (p\<lparr>pr_config := Some c\<rparr>, Fine))))"

text \<open>\<open>config.GlobalConfig\<close>, a nil pointer until it is initialised.\<close>

definition with_config :: "(config \<Rightarrow> ('b, 'd, 'r) stmt) \<Rightarrow> ('b, 'd, 'r) stmt" where
  "with_config f p = (case pr_config p of None \<Rightarrow> (p, Panics ''nil pointer dereference'') | Some c \<Rightarrow> f c p)"

text \<open>\<open>InitLogger\<close>; a level that zap cannot read is \<open>InfoLevel\<close>. Until then \<open>logger.Log\<close> is nil, and writing a line panics.\<close>

definition InfoLevel :: int where
  "InfoLevel = 0"

definition InitLogger :: "('b, 'd, 'r) world \<Rightarrow> log_config \<Rightarrow> ('b, 'd, 'r) stmt" where
  "InitLogger w logConf p =
     (p\<lparr>pr_log := Some (logConf, case wd_level w (lc_Level logConf) of Some level \<Rightarrow> level | None \<Rightarrow> InfoLevel)\<rparr>, Fine)"

definition logged :: "('b, 'd, 'r) process \<times> call_end \<Rightarrow> ('b, 'd, 'r) process \<times> call_end" where
  "logged res =
     (case res of (p, e) \<Rightarrow> (p, if e = Fine \<and> pr_log p = None then Panics ''nil pointer dereference'' else e))"

text \<open>
  The error of \<open>db.DB()\<close> is dropped: without a pool the next call dereferences nil. The line at the end is
  written whether or not there was an error.
\<close>

definition InitMySQL :: "('b, 'd, 'r) world \<Rightarrow> mysql_config \<Rightarrow> ('b, 'd, 'r) stmt" where
  "InitMySQL w sqlConfig p =
     (if on_ran (pr_mysql p) then (p, of_error (on_error (pr_mysql p)))
      else (case wd_open w (my_DSN sqlConfig) of
              (db, e) \<Rightarrow>
                (let p1 = p\<lparr>pr_mysql := \<lparr>on_ran = True, on_instance = Some db, on_error = e\<rparr>\<rparr> in
                 if \<not> wd_pool w db then (p1, Panics ''nil pointer dereference'')
                 else (p1\<lparr>pr_pool := Some (my_MaxIdleConns sqlConfig, my_MaxOpenConns sqlConfig, hour)\<rparr>,
                       if pr_log p = None then Panics ''nil pointer dereference'' else of_error e))))"

definition GetDB :: "('b, 'd, 'r) process \<Rightarrow> 'd result" where
  "GetDB p = (case on_instance (pr_mysql p) of None \<Rightarrow> Inl ''db not initialized'' | Some db \<Rightarrow> Inr db)"

definition InitRedis :: "('b, 'd, 'r) world \<Rightarrow> redis_config \<Rightarrow> ('b, 'd, 'r) stmt" where
  "InitRedis w redisConfig p =
     (if on_ran (pr_redis p) then (p, of_error (on_error (pr_redis p)))
      else (case wd_redis w redisConfig of
              (client, e) \<Rightarrow>
                logged (p\<lparr>pr_redis := \<lparr>on_ran = True, on_instance = Some client, on_error = e\<rparr>\<rparr>, of_error e)))"

definition GetCache :: "('b, 'd, 'r) process \<Rightarrow> 'r result" where
  "GetCache p =
     (case on_instance (pr_redis p) of None \<Rightarrow> Inl ''redis client not initialized'' | Some r \<Rightarrow> Inr r)"

definition init_snowflake :: "i64 \<Rightarrow> ('b, 'd, 'r) stmt" where
  "init_snowflake node p =
     (case InitSnowflake node (pr_snow p) of
        (g, e) \<Rightarrow> (if once_done (pr_snow p) then (\<lambda>r. r) else logged) (p\<lparr>pr_snow := g\<rparr>, of_error e))"

definition init_rabbit :: "('b, 'd, 'r) world \<Rightarrow> gostring \<Rightarrow> ('b, 'd, 'r) stmt" where
  "init_rabbit w url p =
     (case InitRabbitMQ (wd_am w) (wd_dial w url) (pr_broker p) of
        (b, e) \<Rightarrow> logged (p\<lparr>pr_broker := b, pr_mq := (e = None)\<rparr>, of_error e))"

definition StartMQConsumer :: "('b, 'd, 'r) world \<Rightarrow> gostring \<Rightarrow> ('b, 'd, 'r) stmt" where
  "StartMQConsumer w gatewayAddr p =
     (let queueName = ''gateway.queue.'' @ gatewayAddr in
      case ConsumeDownQueue (wd_am w) queueName gatewayAddr (pr_broker p) of
        (b, Some e) \<Rightarrow> (p\<lparr>pr_broker := b\<rparr>, Failed e)
      | (b, None) \<Rightarrow> logged (p\<lparr>pr_broker := b, pr_consumers := pr_consumers p @ replicate 8 queueName\<rparr>, Fine))"

definition StartUploadConsumer :: "('b, 'd, 'r) world \<Rightarrow> ('b, 'd, 'r) stmt" where
  "StartUploadConsumer w p =
     (case ConsumeUploadQueue (wd_am w) ''logic.upload.queue'' ''upload.all'' (pr_broker p) of
        (b, Some e) \<Rightarrow> (p\<lparr>pr_broker := b\<rparr>, Failed e)
      | (b, None) \<Rightarrow>
          logged (p\<lparr>pr_broker := b, pr_consumers := pr_consumers p @ replicate 50 ''logic.upload.queue''\<rparr>, Fine))"

definition default_reliability :: reliability_config where
  "default_reliability =
     \<lparr>rc_InitialBackoff = second, rc_MaxBackoff = 2 * minute, rc_MaxRetry = 8, rc_DedupWindow = 24 * hour\<rparr>"

definition InitGatewayReliability :: "reliability_config option \<Rightarrow> ('b, 'd, 'r) stmt" where
  "InitGatewayReliability cfg p =
     (case GetCache p of
        Inl e \<Rightarrow> (p, Panics e)
      | Inr rdb \<Rightarrow>
          (p\<lparr>pr_reliability := Some (rdb, case cfg of None \<Rightarrow> default_reliability | Some c \<Rightarrow> c)\<rparr>, Fine))"

definition SetOnTransportDelivered :: "('b, 'd, 'r) stmt" where
  "SetOnTransportDelivered p = (p\<lparr>pr_onDelivered := True\<rparr>, Fine)"

text \<open>The list of servers, written in the source, and the client with its options.\<close>

definition InitRPCClient :: "('b, 'd, 'r) stmt" where
  "InitRPCClient p =
     (let opt = \<lparr>opt_MagicNumber = MagicNumber, opt_CodecType = codec_type_text ProtobufType,
                 ConnectTimeout = 10 * second, HandleTimeout = 0\<rparr>
      in (p\<lparr>pr_rpc := Some ([''tcp@localhost:8001''], NewXClient ConsistentHash (Some opt))\<rparr>, Fine))"

definition StartCronJobs :: "('b, 'd, 'r) world \<Rightarrow> ('b, 'd, 'r) stmt" where
  "StartCronJobs w p = (case wd_cron w of Some e \<Rightarrow> (p, Failed e) | None \<Rightarrow> (p\<lparr>pr_cron := True\<rparr>, Fine))"

text \<open>\<open>GeeRPC.Use\<close> and \<open>GeeRPC.Register\<close> of the logic process, whose result is dropped.\<close>

definition register_service :: "('b, 'd, 'r) stmt" where
  "register_service p =
     (p\<lparr>pr_interceptors := pr_interceptors p @ [''LoggerInterceptor'', ''RecoveryInterceptor''],
        pr_services := pr_services p @ [''LogicService'']\<rparr>, Fine)"

text \<open>\<open>r.Run\<close> and \<open>net.Listen\<close> with \<open>Accept\<close>: serving, or the error of the listener.\<close>

definition serve_on :: "('b, 'd, 'r) world \<Rightarrow> int \<Rightarrow> ('b, 'd, 'r) stmt" where
  "serve_on w port p = (case wd_listen w port of Some e \<Rightarrow> (p, Failed e) | None \<Rightarrow> (p\<lparr>pr_port := Some port\<rparr>, Fine))"

fun run_main :: "('b, 'd, 'r) stmt list \<Rightarrow> ('b, 'd, 'r) stmt" where
  "run_main [] p = (p, Fine)"
| "run_main (f # fs) p = (case f p of (p', r) \<Rightarrow> if r = Fine then run_main fs p' else (p', r))"

section \<open>The processes\<close>

text \<open>What the three have in common; \<open>node\<close> selects the process's snowflake node.\<close>

definition common_start :: "('b, 'd, 'r) world \<Rightarrow> (server_config \<Rightarrow> i64) \<Rightarrow> ('b, 'd, 'r) stmt list" where
  "common_start w node =
     [InitConfig w '''', with_config (\<lambda>c. InitLogger w (cf_Log c)), with_config (\<lambda>c. InitMySQL w (cf_MySQL c)),
      with_config (\<lambda>c. InitRedis w (cf_Redis c)), with_config (\<lambda>c. init_snowflake (node (cf_Server c)))]"

definition gateway_main :: "('b, 'd, 'r) world \<Rightarrow> ('b, 'd, 'r) stmt list" where
  "gateway_main w =
     common_start w sv_GatewaySnowflakeNode
     @ [InitRPCClient, with_config (\<lambda>c. init_rabbit w (rq_URL (cf_RabbitMQ c))),
        with_config (\<lambda>c. StartMQConsumer w (sv_GatewayAddr (cf_Server c))),
        InitGatewayReliability (Some \<lparr>rc_InitialBackoff = second, rc_MaxBackoff = 2 * minute, rc_MaxRetry = 12,
          rc_DedupWindow = 24 * hour\<rparr>),
        SetOnTransportDelivered, with_config (\<lambda>c. serve_on w (sv_GatewayPort (cf_Server c)))]"

definition logic_main :: "('b, 'd, 'r) world \<Rightarrow> ('b, 'd, 'r) stmt list" where
  "logic_main w =
     common_start w sv_LogicSnowflakeNode
     @ [with_config (\<lambda>c. init_rabbit w (rq_URL (cf_RabbitMQ c))), StartUploadConsumer w, register_service,
        with_config (\<lambda>c. serve_on w (sv_LogicPort (cf_Server c)))]"

definition agent_main :: "('b, 'd, 'r) world \<Rightarrow> ('b, 'd, 'r) stmt list" where
  "agent_main w =
     common_start w sv_AgentSnowflakeNode
     @ [StartCronJobs w, with_config (\<lambda>c. serve_on w (sv_AgentPort (cf_Server c)))]"

section \<open>The assistant's set-up\<close>

text \<open>\<open>GetDefaultAgent\<close>; a name without a provider ends the process.\<close>

definition GetDefaultAgent :: "config \<Rightarrow> provider_config option" where
  "GetDefaultAgent c = ag_Providers (cf_Agent c) (ag_Default (cf_Agent c))"

text \<open>\<open>strings.ToUpper\<close> on ASCII.\<close>

definition upper_char :: "char \<Rightarrow> char" where
  "upper_char c = (let n = (of_char c :: nat) in if 97 \<le> n \<and> n \<le> 122 then char_of (n - 32) else c)"

definition resolveAgentAPIKey :: "('b, 'd, 'r) world \<Rightarrow> config \<Rightarrow> provider_config \<Rightarrow> gostring" where
  "resolveAgentAPIKey w c defaultAgent =
     (if trim_space (pv_APIKey defaultAgent) \<noteq> '''' then trim_space (pv_APIKey defaultAgent)
      else
        (let defaultName = map upper_char (trim_space (ag_Default (cf_Agent c)));
             key = trim_space (wd_env w (''AGENT_PROVIDERS_'' @ defaultName @ ''_API_KEY''))
         in if defaultName \<noteq> '''' \<and> key \<noteq> '''' then key else trim_space (wd_env w ''DEEPSEEK_API_KEY'')))"

record agent_setup =
  st_APIKey :: gostring
  st_Model :: gostring
  st_BaseURL :: gostring
  st_MaxIterations :: nat
  st_Handlers :: "gostring list"
  st_Tools :: "gostring list"
  st_MaxRetries :: nat
  st_Streaming :: bool

definition contains :: "gostring \<Rightarrow> gostring \<Rightarrow> bool" where
  "contains s part \<longleftrightarrow> list_ex (\<lambda>i. take (length part) (drop i s) = part) [0..<Suc (length s)]"

definition IsRetryAble :: "goerror \<Rightarrow> bool" where
  "IsRetryAble e \<longleftrightarrow> contains e ''429'' \<or> contains e ''Too Many Requests'' \<or> contains e ''qpm limit''"

text \<open>The two tools (\<open>apps/agent/tools\<close>), by their names; \<open>Inl\<close> of a \<open>Must\<close> function is its panic.\<close>

definition SearchHistoryTool :: "('b, 'd, 'r) world \<Rightarrow> gostring result" where
  "SearchHistoryTool w = (case wd_infer w ''search_chat_history'' of Some e \<Rightarrow> Inl e | None \<Rightarrow> Inr ''search_chat_history'')"

definition MustSearchHistoryTool :: "('b, 'd, 'r) world \<Rightarrow> gostring result" where
  "MustSearchHistoryTool w =
     (case SearchHistoryTool w of Inl e \<Rightarrow> Inl (''failed to init search history tool: '' @ e) | Inr t \<Rightarrow> Inr t)"

definition schMessageTool :: "('b, 'd, 'r) world \<Rightarrow> gostring result" where
  "schMessageTool w = (case wd_infer w ''schedule_message'' of Some e \<Rightarrow> Inl e | None \<Rightarrow> Inr ''schedule_message'')"

definition MustSchMessageTool :: "('b, 'd, 'r) world \<Rightarrow> gostring result" where
  "MustSchMessageTool w = (case schMessageTool w of Inl e \<Rightarrow> Inl (''MustSchMessageTool failed: '' @ e) | Inr t \<Rightarrow> Inr t)"

text \<open>
  \<open>GetAgentGraphRunner\<close>, called for every request: the set-up handed to the Eino library, an
  error, a panic, or the process's end in \<open>GetDefaultAgent\<close>. \<open>pr_handlers\<close> counts the handlers
  appended to the library's global list, which comes before the tools are made.
\<close>

datatype graph_end = Runner agent_setup | GraphError goerror | GraphPanics gostring | GraphExit

definition GetAgentGraphRunner ::
    "('b, 'd, 'r) world \<Rightarrow> config \<Rightarrow> ('b, 'd, 'r) process \<Rightarrow> ('b, 'd, 'r) process \<times> graph_end" where
  "GetAgentGraphRunner w c p =
     (case GetDefaultAgent c of
        None \<Rightarrow> (p, GraphExit)
      | Some defaultAgent \<Rightarrow>
          (let apiKey = resolveAgentAPIKey w c defaultAgent in
           if apiKey = '''' then (p, GraphError ''the API key is empty'')
           else
             (case wd_model w apiKey defaultAgent of
                Some e \<Rightarrow> (p, GraphError (''init model failed: '' @ e))
              | None \<Rightarrow>
                  (p\<lparr>pr_handlers := Suc (pr_handlers p)\<rparr>,
                   case MustSearchHistoryTool w of
                     Inl e \<Rightarrow> GraphPanics e
                   | Inr search \<Rightarrow>
                       (case MustSchMessageTool w of
                          Inl e \<Rightarrow> GraphPanics e
                        | Inr schedule \<Rightarrow>
                            (case wd_agent w of
                               Some e \<Rightarrow> GraphError e
                             | None \<Rightarrow>
                                 Runner
                                   \<lparr>st_APIKey = apiKey, st_Model = pv_ModelName defaultAgent, st_BaseURL = pv_BaseURL defaultAgent,
                                    st_MaxIterations = 5, st_Handlers = [''RateLimitMiddleware'', ''SafeAgentMiddleware''],
                                    st_Tools = [search, schedule], st_MaxRetries = 5, st_Streaming = True\<rparr>))))))"

section \<open>Lemmas\<close>

lemma run_main_append:
  "run_main (fs @ gs) p = (case run_main fs p of (p', r) \<Rightarrow> if r = Fine then run_main gs p' else (p', r))"
  by (induction fs arbitrary: p) (auto split: prod.split)

lemma of_error_Fine [simp]: "of_error e = Fine \<longleftrightarrow> e = None"
  by (simp add: of_error_def split: option.split)

lemma logged_Fine [simp]: "logged r = (p, Fine) \<longleftrightarrow> r = (p, Fine) \<and> pr_log p \<noteq> None"
  by (auto simp: logged_def split: prod.split)

lemma fst_logged [simp]: "fst (logged r) = fst r"
  by (simp add: logged_def split: prod.split)

text \<open>What a statement that went well has done.\<close>

lemma InitConfig_Fine:
  "InitConfig w a p = (p', Fine) \<Longrightarrow>
     \<exists>path c. resolveConfigPath w a = Inr path \<and> wd_unmarshal w path = (c, None) \<and> p' = p\<lparr>pr_config := Some c\<rparr>"
  by (auto simp: InitConfig_def split: sum.splits option.splits prod.splits)

lemma InitMySQL_Fine:
  "InitMySQL w m p = (p', Fine) \<Longrightarrow> \<not> on_ran (pr_mysql p) \<Longrightarrow>
     \<exists>db. wd_open w (my_DSN m) = (db, None) \<and> wd_pool w db
       \<and> p' = p\<lparr>pr_mysql := \<lparr>on_ran = True, on_instance = Some db, on_error = None\<rparr>,
           pr_pool := Some (my_MaxIdleConns m, my_MaxOpenConns m, hour)\<rparr>"
  by (auto simp: InitMySQL_def Let_def split: prod.splits if_splits)

lemma InitRedis_Fine:
  "InitRedis w m p = (p', Fine) \<Longrightarrow> \<not> on_ran (pr_redis p) \<Longrightarrow>
     \<exists>r. wd_redis w m = (r, None) \<and> p' = p\<lparr>pr_redis := \<lparr>on_ran = True, on_instance = Some r, on_error = None\<rparr>\<rparr>"
  by (auto simp: InitRedis_def split: prod.splits if_splits)

lemma init_snowflake_Fine:
  "init_snowflake node p = (p', Fine) \<Longrightarrow> \<not> once_done (pr_snow p) \<Longrightarrow>
     \<not> node <s 0 \<and> \<not> 1023 <s node
     \<and> p' = p\<lparr>pr_snow := \<lparr>once_done = True, snowflakeInstance = Some \<lparr>lastTimestamp = 0, seqno = 0, nodeID = node\<rparr>\<rparr>\<rparr>"
  by (auto simp: init_snowflake_def InitSnowflake_def split: prod.splits if_splits)

lemma serve_on_Fine: "serve_on w port p = (p', Fine) \<Longrightarrow> wd_listen w port = None \<and> p' = p\<lparr>pr_port := Some port\<rparr>"
  by (auto simp: serve_on_def split: option.splits)

lemma with_config_Some [simp]: "pr_config p = Some c \<Longrightarrow> with_config f p = f c p"
  by (simp add: with_config_def)

lemma run_main_Cons: "run_main (f # fs) p = (p', Fine) \<longleftrightarrow> (\<exists>p1. f p = (p1, Fine) \<and> run_main fs p1 = (p', Fine))"
  by (auto split: prod.split)

text \<open>All a process needs before it serves: configuration, database, cache and its own snowflake node.\<close>

definition process_ready :: "('b, 'd, 'r) world \<Rightarrow> (server_config \<Rightarrow> i64) \<Rightarrow> config \<Rightarrow> ('b, 'd, 'r) process \<Rightarrow> bool" where
  "process_ready w node c p \<longleftrightarrow>
     pr_config p = Some c \<and> (\<exists>path. resolveConfigPath w '''' = Inr path \<and> wd_unmarshal w path = (c, None))
   \<and> (\<exists>level. pr_log p = Some (cf_Log c, level))
   \<and> pr_pool p = Some (my_MaxIdleConns (cf_MySQL c), my_MaxOpenConns (cf_MySQL c), hour)
   \<and> (\<exists>db. GetDB p = Inr db \<and> wd_open w (my_DSN (cf_MySQL c)) = (db, None))
   \<and> (\<exists>r. GetCache p = Inr r \<and> wd_redis w (cf_Redis c) = (r, None))
   \<and> (\<exists>s. GetSnowflake (pr_snow p) = Inr s \<and> nodeID s = node (cf_Server c))
   \<and> \<not> node (cf_Server c) <s 0 \<and> \<not> 1023 <s node (cf_Server c)"

lemma common_ready:
  assumes "run_main (common_start w node @ fs) (start_process b) = (p', Fine)"
  obtains c p where "process_ready w node c p" "run_main fs p = (p', Fine)" "pr_broker p = b" "pr_consumers p = []"
proof -
  from assms obtain p where p: "run_main (common_start w node) (start_process b) = (p, Fine)" "run_main fs p = (p', Fine)"
    by (auto simp: run_main_append split: prod.splits if_splits)
  from p(1) obtain p1 p1' p2 p3
    where 1: "InitConfig w '''' (start_process b) = (p1, Fine)"
      and log: "with_config (\<lambda>c. InitLogger w (cf_Log c)) p1 = (p1', Fine)"
      and 2: "with_config (\<lambda>c. InitMySQL w (cf_MySQL c)) p1' = (p2, Fine)"
      and 3: "with_config (\<lambda>c. InitRedis w (cf_Redis c)) p2 = (p3, Fine)"
      and 4: "with_config (\<lambda>c. init_snowflake (node (cf_Server c))) p3 = (p, Fine)"
    unfolding common_start_def run_main_Cons by (auto simp: run_main_Cons simp del: run_main.simps(2))
  from InitConfig_Fine [OF 1] obtain path c where c: "resolveConfigPath w '''' = Inr path" "wd_unmarshal w path = (c, None)"
    and p1: "p1 = (start_process b)\<lparr>pr_config := Some c\<rparr>" by blast
  from log p1 obtain level where p1': "p1' = p1\<lparr>pr_log := Some (cf_Log c, level)\<rparr>" by (auto simp: InitLogger_def)
  from 2 p1' p1 have "InitMySQL w (cf_MySQL c) p1' = (p2, Fine)" by simp
  from InitMySQL_Fine [OF this] p1' p1 obtain db where db: "wd_open w (my_DSN (cf_MySQL c)) = (db, None)"
    and p2: "p2 = p1'\<lparr>pr_mysql := \<lparr>on_ran = True, on_instance = Some db, on_error = None\<rparr>,
      pr_pool := Some (my_MaxIdleConns (cf_MySQL c), my_MaxOpenConns (cf_MySQL c), hour)\<rparr>"
    by (auto simp: start_process_def)
  from 3 p2 p1' p1 have "InitRedis w (cf_Redis c) p2 = (p3, Fine)" by simp
  from InitRedis_Fine [OF this] p2 p1' p1 obtain r where r: "wd_redis w (cf_Redis c) = (r, None)"
    and p3: "p3 = p2\<lparr>pr_redis := \<lparr>on_ran = True, on_instance = Some r, on_error = None\<rparr>\<rparr>"
    by (auto simp: start_process_def)
  from 4 p3 p2 p1' p1 have "init_snowflake (node (cf_Server c)) p3 = (p, Fine)" by simp
  from init_snowflake_Fine [OF this] p3 p2 p1' p1
  have n: "\<not> node (cf_Server c) <s 0 \<and> \<not> 1023 <s node (cf_Server c)"
    and p4: "p = p3\<lparr>pr_snow := \<lparr>once_done = True,
      snowflakeInstance = Some \<lparr>lastTimestamp = 0, seqno = 0, nodeID = node (cf_Server c)\<rparr>\<rparr>\<rparr>"
    by (auto simp: start_process_def)
  have "process_ready w node c p"
    using c db r n by (auto simp: process_ready_def p4 p3 p2 p1' p1 GetDB_def GetCache_def GetSnowflake_def)
  moreover have "pr_broker p = b" "pr_consumers p = []" by (simp_all add: p4 p3 p2 p1' p1 start_process_def)
  ultimately show ?thesis using that p(2) by blast
qed

lemma process_ready_cong:
  assumes "process_ready w node c p" and "pr_config p' = pr_config p" and "pr_log p' = pr_log p" and "pr_pool p' = pr_pool p"
    and "pr_mysql p' = pr_mysql p"
    and "pr_redis p' = pr_redis p" and "pr_snow p' = pr_snow p"
  shows "process_ready w node c p'"
  using assms by (simp add: process_ready_def GetDB_def GetCache_def)

text \<open>Only the last statement of a \<open>main\<close> opens the port.\<close>

definition no_port :: "('b, 'd, 'r) stmt \<Rightarrow> bool" where
  "no_port f \<longleftrightarrow> (\<forall>p. pr_port (fst (f p)) = pr_port p)"

lemma no_port_stmts:
  "no_port (InitConfig w a)" "no_port (InitLogger w l)" "no_port (InitMySQL w m)" "no_port (InitRedis w d)" "no_port (init_snowflake n)"
  "no_port (init_rabbit w u)" "no_port (StartMQConsumer w g)" "no_port (StartUploadConsumer w)" "no_port InitRPCClient"
  "no_port (InitGatewayReliability cfg)" "no_port SetOnTransportDelivered" "no_port (StartCronJobs w)"
  "no_port register_service"
  by (auto simp: no_port_def InitConfig_def InitLogger_def logged_def InitMySQL_def InitRedis_def init_snowflake_def init_rabbit_def
      StartMQConsumer_def StartUploadConsumer_def InitRPCClient_def InitGatewayReliability_def
      SetOnTransportDelivered_def StartCronJobs_def register_service_def Let_def split: sum.split option.split prod.split)

lemma no_port_with_config: "(\<And>c. no_port (f c)) \<Longrightarrow> no_port (with_config f)"
  by (simp add: no_port_def with_config_def split: option.split)

lemma run_main_no_port: "list_all no_port fs \<Longrightarrow> pr_port (fst (run_main fs p)) = pr_port p"
proof (induction fs arbitrary: p)
  case (Cons f fs)
  then have "pr_port (fst (f p)) = pr_port p" by (simp add: no_port_def)
  with Cons show ?case by (auto split: prod.split)
qed simp

lemma port_only_last:
  assumes "run_main (fs @ [with_config (\<lambda>c. serve_on w (port c))]) (start_process b) = (p, r)" and "list_all no_port fs"
    and "pr_port p \<noteq> None"
  shows "r = Fine"
proof -
  obtain p1 r1 where p1: "run_main fs (start_process b) = (p1, r1)" by (metis surj_pair)
  with run_main_no_port [OF assms(2), of "start_process b"] have none: "pr_port p1 = None"
    by (simp add: start_process_def)
  show ?thesis
  proof (cases "r1 = Fine")
    case True
    with assms(1) p1 have "with_config (\<lambda>c. serve_on w (port c)) p1 = (p, r)"
      by (auto simp: run_main_append split: prod.splits if_splits)
    with none assms(3) show ?thesis
      by (auto simp: with_config_def serve_on_def split: option.splits)
  next
    case False
    with assms(1) p1 have "p = p1" by (auto simp: run_main_append)
    with none assms(3) show ?thesis by simp
  qed
qed

lemmas main_defs = gateway_main_def logic_main_def agent_main_def common_start_def

lemma gateway_ready:
  assumes "run_main (gateway_main w) (start_process b) = (p, r)" and port: "pr_port p = Some port"
  shows "\<exists>c. process_ready w sv_GatewaySnowflakeNode c p \<and> port = sv_GatewayPort (cf_Server c) \<and> pr_mq p
        \<and> pr_consumers p = replicate 8 (''gateway.queue.'' @ sv_GatewayAddr (cf_Server c))
        \<and> pr_rpc p \<noteq> None \<and> pr_reliability p \<noteq> None \<and> pr_onDelivered p"
proof -
  let ?rest = "[InitRPCClient, with_config (\<lambda>c. init_rabbit w (rq_URL (cf_RabbitMQ c))),
        with_config (\<lambda>c. StartMQConsumer w (sv_GatewayAddr (cf_Server c))),
        InitGatewayReliability (Some \<lparr>rc_InitialBackoff = second, rc_MaxBackoff = 2 * minute, rc_MaxRetry = 12,
          rc_DedupWindow = 24 * hour\<rparr>), SetOnTransportDelivered]"
  let ?last = "[with_config (\<lambda>c. serve_on w (sv_GatewayPort (cf_Server c)))]"
  have run: "run_main ((common_start w sv_GatewaySnowflakeNode @ ?rest) @ ?last) (start_process b) = (p, r)"
    using assms(1) by (simp add: gateway_main_def)
  have "r = Fine"
    by (rule port_only_last [OF run]) (simp_all add: common_start_def no_port_stmts no_port_with_config port)
  with run have "run_main (common_start w sv_GatewaySnowflakeNode @ (?rest @ ?last)) (start_process b) = (p, Fine)" by simp
  from common_ready [OF this] obtain c p0 where ready: "process_ready w sv_GatewaySnowflakeNode c p0"
    and rest: "run_main (?rest @ ?last) p0 = (p, Fine)" and c0: "pr_consumers p0 = []" .
  from ready have cfg: "pr_config p0 = Some c" by (simp add: process_ready_def)
  from rest cfg c0 port have all: "pr_config p = pr_config p0 \<and> pr_log p = pr_log p0 \<and> pr_pool p = pr_pool p0 \<and> pr_mysql p = pr_mysql p0 \<and> pr_redis p = pr_redis p0
      \<and> pr_snow p = pr_snow p0 \<and> port = sv_GatewayPort (cf_Server c) \<and> pr_mq p
      \<and> pr_consumers p = replicate 8 (''gateway.queue.'' @ sv_GatewayAddr (cf_Server c))
      \<and> pr_rpc p \<noteq> None \<and> pr_reliability p \<noteq> None \<and> pr_onDelivered p"
    by (auto simp: InitRPCClient_def init_rabbit_def StartMQConsumer_def InitGatewayReliability_def
        SetOnTransportDelivered_def serve_on_def Let_def split: prod.splits option.splits sum.splits if_splits)
  then have "process_ready w sv_GatewaySnowflakeNode c p" by (intro process_ready_cong [OF ready]) simp_all
  with all show ?thesis by blast
qed

lemma logic_ready:
  assumes "run_main (logic_main w) (start_process b) = (p, r)" and port: "pr_port p = Some port"
  shows "\<exists>c. process_ready w sv_LogicSnowflakeNode c p \<and> port = sv_LogicPort (cf_Server c) \<and> pr_mq p
        \<and> pr_consumers p = replicate 50 ''logic.upload.queue''"
proof -
  let ?rest = "[with_config (\<lambda>c. init_rabbit w (rq_URL (cf_RabbitMQ c))), StartUploadConsumer w, register_service]"
  let ?last = "[with_config (\<lambda>c. serve_on w (sv_LogicPort (cf_Server c)))]"
  have run: "run_main ((common_start w sv_LogicSnowflakeNode @ ?rest) @ ?last) (start_process b) = (p, r)"
    using assms(1) by (simp add: logic_main_def)
  have "r = Fine"
    by (rule port_only_last [OF run]) (simp_all add: common_start_def no_port_stmts no_port_with_config port)
  with run have "run_main (common_start w sv_LogicSnowflakeNode @ (?rest @ ?last)) (start_process b) = (p, Fine)" by simp
  from common_ready [OF this] obtain c p0 where ready: "process_ready w sv_LogicSnowflakeNode c p0"
    and rest: "run_main (?rest @ ?last) p0 = (p, Fine)" and c0: "pr_consumers p0 = []" .
  from ready have cfg: "pr_config p0 = Some c" by (simp add: process_ready_def)
  from rest cfg c0 port have all: "pr_config p = pr_config p0 \<and> pr_log p = pr_log p0 \<and> pr_pool p = pr_pool p0 \<and> pr_mysql p = pr_mysql p0 \<and> pr_redis p = pr_redis p0
      \<and> pr_snow p = pr_snow p0 \<and> port = sv_LogicPort (cf_Server c) \<and> pr_mq p
      \<and> pr_consumers p = replicate 50 ''logic.upload.queue''"
    by (auto simp: init_rabbit_def StartUploadConsumer_def register_service_def serve_on_def split: prod.splits option.splits if_splits)
  then have "process_ready w sv_LogicSnowflakeNode c p" by (intro process_ready_cong [OF ready]) simp_all
  with all show ?thesis by blast
qed

lemma agent_ready:
  assumes "run_main (agent_main w) (start_process b) = (p, r)" and port: "pr_port p = Some port"
  shows "\<exists>c. process_ready w sv_AgentSnowflakeNode c p \<and> port = sv_AgentPort (cf_Server c) \<and> pr_cron p"
proof -
  let ?rest = "[StartCronJobs w]" and ?last = "[with_config (\<lambda>c. serve_on w (sv_AgentPort (cf_Server c)))]"
  have run: "run_main ((common_start w sv_AgentSnowflakeNode @ ?rest) @ ?last) (start_process b) = (p, r)"
    using assms(1) by (simp add: agent_main_def)
  have "r = Fine"
    by (rule port_only_last [OF run]) (simp_all add: common_start_def no_port_stmts no_port_with_config port)
  with run have "run_main (common_start w sv_AgentSnowflakeNode @ (?rest @ ?last)) (start_process b) = (p, Fine)" by simp
  from common_ready [OF this] obtain c p0 where ready: "process_ready w sv_AgentSnowflakeNode c p0"
    and rest: "run_main (?rest @ ?last) p0 = (p, Fine)" .
  from ready have cfg: "pr_config p0 = Some c" by (simp add: process_ready_def)
  from rest cfg port have all: "pr_config p = pr_config p0 \<and> pr_log p = pr_log p0 \<and> pr_pool p = pr_pool p0 \<and> pr_mysql p = pr_mysql p0 \<and> pr_redis p = pr_redis p0
      \<and> pr_snow p = pr_snow p0 \<and> port = sv_AgentPort (cf_Server c) \<and> pr_cron p"
    by (auto simp: StartCronJobs_def serve_on_def split: option.splits prod.splits if_splits)
  then have "process_ready w sv_AgentSnowflakeNode c p" by (intro process_ready_cong [OF ready]) simp_all
  with all show ?thesis by blast
qed

section \<open>Properties\<close>

text \<open>
  C36. A process that serves is ready. When a gateway, a logic or an agent process has opened its port,
  it is the port of its configuration, which was read from the first file found; the logger has been set
  up from that configuration, so no line written on the way met a nil logger; the database, with the pool of the configuration, and
  the cache have been opened without an error, so neither \<open>GetDB\<close> nor \<open>GetCache\<close> panics; its
  snowflake generator has the configured node, which is in range; a gateway consumes its own queue
  with 8 workers and has its RPC client, its sequence numbers and the delivery callback; a logic
  process consumes the upload queue with 50 workers; an agent runs its job.
\<close>

theorem serves_only_ready:
  assumes "pr_port p = Some port"
  shows "(run_main (gateway_main w) (start_process b) = (p, r) \<longrightarrow>
      (\<exists>c. process_ready w sv_GatewaySnowflakeNode c p \<and> port = sv_GatewayPort (cf_Server c) \<and> pr_mq p
        \<and> pr_consumers p = replicate 8 (''gateway.queue.'' @ sv_GatewayAddr (cf_Server c))
        \<and> pr_rpc p \<noteq> None \<and> pr_reliability p \<noteq> None \<and> pr_onDelivered p))
    \<and> (run_main (logic_main w) (start_process b) = (p, r) \<longrightarrow>
      (\<exists>c. process_ready w sv_LogicSnowflakeNode c p \<and> port = sv_LogicPort (cf_Server c) \<and> pr_mq p
        \<and> pr_consumers p = replicate 50 ''logic.upload.queue''))
    \<and> (run_main (agent_main w) (start_process b) = (p, r) \<longrightarrow>
      (\<exists>c. process_ready w sv_AgentSnowflakeNode c p \<and> port = sv_AgentPort (cf_Server c) \<and> pr_cron p))"
  using gateway_ready [OF _ assms] logic_ready [OF _ assms] agent_ready [OF _ assms] by (intro conjI impI)

definition some_config :: config where
  "some_config =
     \<lparr>cf_Server = \<lparr>sv_GatewayPort = 8080, sv_LogicPort = 8001, sv_AgentPort = 8090, sv_GatewaySnowflakeNode = 1,
        sv_LogicSnowflakeNode = 2, sv_AgentSnowflakeNode = 3, sv_AgentAddr = ''agent:8090'', sv_GatewayAddr = ''gateway:8080''\<rparr>,
      cf_MySQL = \<lparr>my_DSN = ''im'', my_MaxIdleConns = 10, my_MaxOpenConns = 100\<rparr>,
      cf_Redis = \<lparr>rd_Addr = ''redis:6379'', rd_Password = '''', rd_DB = 0\<rparr>,
      cf_Agent = \<lparr>ag_Default = ''deepseek'', ag_Providers = [''deepseek'' \<mapsto> \<lparr>pv_APIKey = '''', pv_BaseURL = ''url'', pv_ModelName = ''chat''\<rparr>]\<rparr>,
      cf_Log = \<lparr>lc_Level = ''info'', lc_Filename = ''im.log'', lc_MaxSize = 1, lc_MaxBackups = 1, lc_MaxAge = 1, lc_Compress = False\<rparr>,
      cf_RabbitMQ = \<lparr>rq_URL = ''amqp'', rq_Exchange = ''''\<rparr>\<rparr>"

text \<open>A world in which everything answers and the configuration is in the parent directory.\<close>

definition calm_world :: "(mem_broker, unit, unit) world" where
  "calm_world =
     \<lparr>wd_abs = (\<lambda>c. Inr (''/srv/im/'' @ c)), wd_is_file = (\<lambda>p. p = ''/srv/im/../config.yaml''),
      wd_env = (\<lambda>v. if v = ''AGENT_PROVIDERS_DEEPSEEK_API_KEY'' then ''sk-1'' else ''''),
      wd_read = (\<lambda>p. None), wd_unmarshal = (\<lambda>p. (some_config, None)), wd_open = (\<lambda>d. ((), None)), wd_pool = (\<lambda>d. True),
      wd_redis = (\<lambda>c. ((), None)), wd_am = mem_amqp, wd_dial = (\<lambda>u b. (b, None)), wd_cron = None,
      wd_listen = (\<lambda>p. None), wd_model = (\<lambda>k pv. None), wd_agent = None, wd_infer = (\<lambda>t. None), wd_level = (\<lambda>l. if l = ''info'' then Some 0 else None)\<rparr>"

definition no_broker :: mem_broker where
  "no_broker = \<lparr>mb_queues = [], mb_bindings = [], mb_faults = []\<rparr>"

lemma calm_gateway_port: "pr_port (fst (run_main (gateway_main calm_world) (start_process no_broker))) = Some 8080"
  by code_simp

lemma serves_only_ready_witness:
  "let p = fst (run_main (gateway_main calm_world) (start_process no_broker)) in
     (\<exists>c :: config. pr_consumers p = replicate 8 (''gateway.queue.'' @ sv_GatewayAddr (cf_Server c)) \<and> 8080 = sv_GatewayPort (cf_Server c)
        \<and> GetDB p = Inr () \<and> GetCache p = Inr ())"
proof -
  let ?run = "run_main (gateway_main calm_world) (start_process no_broker)"
  have run: "?run = (fst ?run, snd ?run)" by simp
  from mp [OF conjunct1 [OF serves_only_ready [OF calm_gateway_port, where w = calm_world and b = no_broker and r = "snd ?run"]] run]
  obtain c where ready: "process_ready calm_world sv_GatewaySnowflakeNode c (fst ?run)" and port: "8080 = sv_GatewayPort (cf_Server c)"
    and cons: "pr_consumers (fst ?run) = replicate 8 (''gateway.queue.'' @ sv_GatewayAddr (cf_Server c))" by blast
  from ready have "GetDB (fst ?run) = Inr ()" "GetCache (fst ?run) = Inr ()" unfolding process_ready_def by auto
  with port cons show ?thesis unfolding Let_def by blast
qed

text \<open>
  The configuration read is the first one there is: the path passed to the process, then that of
  the environment, then six places around the working directory; a candidate counts when it can
  be made absolute and is a file.
\<close>

theorem config_first_found:
  "resolveConfigPath w configPath = Inr path \<longleftrightarrow>
     (\<exists>pre c post. candidates w configPath = pre @ c # post \<and> wd_abs w c = Inr path \<and> wd_is_file w path
        \<and> (\<forall>d \<in> set pre. \<forall>q. wd_abs w d = Inr q \<longrightarrow> \<not> wd_is_file w q))"
proof -
  have "first_file w cs = Inr path \<longleftrightarrow>
     (\<exists>pre c post. cs = pre @ c # post \<and> wd_abs w c = Inr path \<and> wd_is_file w path
        \<and> (\<forall>d \<in> set pre. \<forall>q. wd_abs w d = Inr q \<longrightarrow> \<not> wd_is_file w q))" for cs
  proof (induction cs)
    case (Cons d cs)
    show ?case (is "?l \<longleftrightarrow> (\<exists>pre c post. ?P pre c post)")
    proof (cases "\<exists>q. wd_abs w d = Inr q \<and> wd_is_file w q")
      case True
      then obtain q where q: "wd_abs w d = Inr q" "wd_is_file w q" by blast
      have "(\<exists>pre c post. ?P pre c post) \<longleftrightarrow> q = path"
      proof
        assume "\<exists>pre c post. ?P pre c post"
        then obtain pre c post where p: "?P pre c post" by blast
        with q have "pre = []" by (cases pre) auto
        with p q show "q = path" by simp
      next
        assume "q = path"
        with q show "\<exists>pre c post. ?P pre c post" by (intro exI [of _ "[]"] exI [of _ d] exI [of _ cs]) simp
      qed
      with q show ?thesis by simp
    next
      case False
      have "?l \<longleftrightarrow> first_file w cs = Inr path" using False by (auto split: sum.splits)
      also have "\<dots> \<longleftrightarrow> (\<exists>pre c post. ?P pre c post)"
        unfolding Cons.IH
      proof
        assume "\<exists>pre c post. cs = pre @ c # post \<and> wd_abs w c = Inr path \<and> wd_is_file w path
            \<and> (\<forall>d \<in> set pre. \<forall>q. wd_abs w d = Inr q \<longrightarrow> \<not> wd_is_file w q)"
        then obtain pre c post where "cs = pre @ c # post \<and> wd_abs w c = Inr path \<and> wd_is_file w path
            \<and> (\<forall>d \<in> set pre. \<forall>q. wd_abs w d = Inr q \<longrightarrow> \<not> wd_is_file w q)" by blast
        with False show "\<exists>pre c post. ?P pre c post"
          by (intro exI [of _ "d # pre"] exI [of _ c] exI [of _ post]) auto
      next
        assume "\<exists>pre c post. ?P pre c post"
        then obtain pre c post where p: "?P pre c post" by blast
        with False obtain pre' where "pre = d # pre'" by (cases pre) auto
        with p show "\<exists>pre c post. cs = pre @ c # post \<and> wd_abs w c = Inr path \<and> wd_is_file w path
            \<and> (\<forall>d \<in> set pre. \<forall>q. wd_abs w d = Inr q \<longrightarrow> \<not> wd_is_file w q)"
          by (intro exI [of _ pre'] exI [of _ c] exI [of _ post]) auto
      qed
      finally show ?thesis .
    qed
  qed simp
  then show ?thesis by (simp add: resolveConfigPath_def)
qed

text \<open>
  Every request for the assistant that gets as far as the model appends another trace handler to
  the library's global list, and none is ever removed.
\<close>

theorem trace_handlers_accumulate:
  assumes "GetDefaultAgent c = Some pv" and "resolveAgentAPIKey w c pv \<noteq> ''''" and "wd_model w (resolveAgentAPIKey w c pv) pv = None"
  shows "pr_handlers (((\<lambda>p. fst (GetAgentGraphRunner w c p)) ^^ n) p) = pr_handlers p + n"
proof -
  have "pr_handlers (fst (GetAgentGraphRunner w c p)) = Suc (pr_handlers p)" for p
    using assms by (simp add: GetAgentGraphRunner_def Let_def split: option.split)
  then show ?thesis by (induction n) simp_all
qed

lemma trace_handlers_accumulate_witness:
  "pr_handlers (((\<lambda>p. fst (GetAgentGraphRunner calm_world some_config p)) ^^ 3) (start_process no_broker)) = 3"
proof -
  let ?pv = "\<lparr>pv_APIKey = '''', pv_BaseURL = ''url'', pv_ModelName = ''chat''\<rparr>"
  have a: "GetDefaultAgent some_config = Some ?pv" by (simp add: GetDefaultAgent_def some_config_def)
  have k: "resolveAgentAPIKey calm_world some_config ?pv = ''sk-1''" by code_simp
  have "resolveAgentAPIKey calm_world some_config ?pv \<noteq> ''''" unfolding k by simp
  moreover have "wd_model calm_world (resolveAgentAPIKey calm_world some_config ?pv) ?pv = None" by (simp add: calm_world_def)
  ultimately show ?thesis
    using trace_handlers_accumulate [OF a, of calm_world 3 "start_process no_broker"] by (simp add: start_process_def)
qed

end
