(* ===== verification/Simulation.thy ===== *)
theory Simulation
  imports Prelude
begin

text \<open>
  Machines that implement others: the interface between a step relation of the model and the
  abstract machine it is measured by. Each step of the one is a step of the other, or leaves what is
  seen of the state alone, as long as the invariant holds, which the steps keep. Theories \<open>Mailbox\<close> and
  \<open>Rpc_System\<close> interpret it.
\<close>

locale refinement =
  fixes inv :: "'c \<Rightarrow> bool" and step :: "'c \<Rightarrow> 'c \<Rightarrow> bool" and view :: "'c \<Rightarrow> 'a" and spec :: "'a \<Rightarrow> 'a \<Rightarrow> bool"
  assumes inv_kept: "inv c \<Longrightarrow> step c c' \<Longrightarrow> inv c'"
    and follows: "inv c \<Longrightarrow> step c c' \<Longrightarrow> view c' = view c \<or> spec (view c) (view c')"
begin

lemma run:
  assumes "step\<^sup>*\<^sup>* c c'" and "inv c"
  shows "inv c' \<and> spec\<^sup>*\<^sup>* (view c) (view c')"
  using assms
proof (induction rule: rtranclp_induct)
  case (step d e)
  then have d: "inv d" "spec\<^sup>*\<^sup>* (view c) (view d)" by simp_all
  from follows [OF d(1) step.hyps(2)] d(2) have "spec\<^sup>*\<^sup>* (view c) (view e)"
    by (auto intro: rtranclp.rtrancl_into_rtrancl)
  with inv_kept [OF d(1) step.hyps(2)] show ?case by simp
qed simp

text \<open>What the abstract machine keeps, the implementation keeps of what is seen.\<close>

lemma carried_over:
  assumes "step\<^sup>*\<^sup>* c c'" and "inv c" and "P (view c)" and "\<And>a a'. P a \<Longrightarrow> spec a a' \<Longrightarrow> P a'"
  shows "P (view c')"
proof -
  from run [OF assms(1,2)] have "spec\<^sup>*\<^sup>* (view c) (view c')" ..
  then show ?thesis by (induction rule: rtranclp_induct) (use assms(3,4) in blast)+
qed

end

end
