(* ===== verification/Rpc_System.thy ===== *)
theory Rpc_System
  imports Simulation Rpc_Client Serving
begin

text \<open>
  One connection of geeRPC with both ends: the goroutines of the client
  (\<open>apps/pkg/geeRPC/client.go\<close>, theory \<open>Rpc_Client\<close>), those of the server
  (\<open>apps/pkg/geeRPC/server.go\<close>, theory \<open>Serving\<close>), and what is in flight between them. The abstract
  specification is a machine of local calls; the connection refines it.
\<close>

section \<open>The two ends\<close>

text \<open>
  \<open>rs_wire\<close> are the calls whose request has reached the server, in order; \<open>rs_heard\<close> counts the parts
  of responses the receiver has read; \<open>rs_got\<close> is the response a call was completed with.
\<close>

record rpc =
  rs_client :: client
  rs_server :: serving
  rs_wire :: "nat list"
  rs_heard :: nat
  rs_got :: "nat \<rightharpoonup> response"

definition start_rpc :: rpc where
  "start_rpc =
     \<lparr>rs_client = new_client, rs_server = start_serving [], rs_wire = [], rs_heard = 0, rs_got = Map.empty\<rparr>"

text \<open>
  What \<open>readRequest\<close> makes of a request. When the service is not found the body stays on the
  connection and is read as headers: \<open>junk\<close>.
\<close>

definition arrives :: "'w server \<Rightarrow> header \<Rightarrow> item list \<Rightarrow> item list" where
  "arrives srv h junk =
     (case findService srv (ServiceMethod h) of Inl e \<Rightarrow> Bad h e # junk | Inr sm \<Rightarrow> [Good h])"

text \<open>A step of the client that reads nothing from the connection.\<close>

definition deaf :: "client \<Rightarrow> client \<Rightarrow> bool" where
  "deaf c c' \<longleftrightarrow> receiver c' = receiver c
     \<or> (receiver c = RHeader \<and> (case receiver c' of RTerminate e \<Rightarrow> True | _ \<Rightarrow> False)) \<or> receiver c' = REnded"

text \<open>
  \<open>decoded\<close> is what the client's codec makes of a response's body. Requests are written by the
  holder of the client's mutex, each at most once; whether the write is then reported as done or
  as failed is a step of the client. The connection may break in a body (\<open>cut\<close>).
\<close>

inductive rpc_step :: "'w server \<Rightarrow> (response \<Rightarrow> gostring result) \<Rightarrow> int \<Rightarrow> rpc \<Rightarrow> rpc \<Rightarrow> bool" for srv decoded tmo where
  local: "client_step (rs_client x) c' \<Longrightarrow> deaf (rs_client x) c' \<Longrightarrow> rpc_step srv decoded tmo x (x\<lparr>rs_client := c'\<rparr>)"
| wire: "calls (rs_client x) n = Some k \<Longrightarrow> k_phase k = SWriting \<Longrightarrow> n \<notin> set (rs_wire x) \<Longrightarrow>
    reader (rs_server x) \<in> {RRead, RSend} \<Longrightarrow>
    rpc_step srv decoded tmo x (x\<lparr>rs_wire := rs_wire x @ [n],
      rs_server := (rs_server x)\<lparr>items := items (rs_server x) @ arrives srv (request_header k) junk\<rparr>\<rparr>)"
| serve: "serve_step tmo (rs_server x) s' \<Longrightarrow> rpc_step srv decoded tmo x (x\<lparr>rs_server := s'\<rparr>)"
| hear_header: "receiver (rs_client x) = RHeader \<Longrightarrow> rs_heard x < length (out (rs_server x)) \<Longrightarrow>
    out (rs_server x) ! rs_heard x = HeaderPart r \<Longrightarrow> removeCall (Seq (r_header r)) (rs_client x) = (c', found) \<Longrightarrow>
    rpc_step srv decoded tmo x
      (x\<lparr>rs_client := c'\<lparr>receiver := RBody (r_header r) found\<rparr>, rs_heard := Suc (rs_heard x)\<rparr>)"
| hear_body: "receiver (rs_client x) = RBody h found \<Longrightarrow> rs_heard x < length (out (rs_server x)) \<Longrightarrow>
    out (rs_server x) ! rs_heard x = BodyPart r \<Longrightarrow>
    rpc_step srv decoded tmo x
      (x\<lparr>rs_client := (deliver h found (decoded r) (rs_client x))\<lparr>receiver := next_recv (decoded r)\<rparr>,
         rs_heard := Suc (rs_heard x),
         rs_got := (case found of None \<Rightarrow> rs_got x | Some n \<Rightarrow> (rs_got x)(n \<mapsto> r))\<rparr>)"
| cut: "receiver (rs_client x) = RBody h found \<Longrightarrow>
    rpc_step srv decoded tmo x
      (x\<lparr>rs_client := (deliver h found (Inl e) (rs_client x))\<lparr>receiver := RTerminate e\<rparr>\<rparr>)"

inductive rpc_reachable :: "'w server \<Rightarrow> (response \<Rightarrow> gostring result) \<Rightarrow> int \<Rightarrow> rpc \<Rightarrow> bool" for srv decoded tmo where
  rpc_init: "rpc_reachable srv decoded tmo start_rpc"
| rpc_next: "rpc_reachable srv decoded tmo x \<Longrightarrow> rpc_step srv decoded tmo x x' \<Longrightarrow> rpc_reachable srv decoded tmo x'"

section \<open>The specification: local calls\<close>

text \<open>
  A call is issued, run, and returns what its run gave. Each call is run at most once, and a run
  belongs to one call.
\<close>

record lpc =
  lp_issued :: "nat \<rightharpoonup> gostring"
  lp_run :: "nat \<rightharpoonup> nat"
  lp_result :: "nat \<rightharpoonup> response"

inductive lpc_step :: "lpc \<Rightarrow> lpc \<Rightarrow> bool" where
  issue: "lp_issued a n = None \<Longrightarrow> lpc_step a (a\<lparr>lp_issued := (lp_issued a)(n \<mapsto> m)\<rparr>)"
| run: "lp_issued a n = Some m \<Longrightarrow> lp_run a n = None \<Longrightarrow> i \<notin> ran (lp_run a) \<Longrightarrow>
    lpc_step a (a\<lparr>lp_run := (lp_run a)(n \<mapsto> i)\<rparr>)"
| give: "lp_run a n = Some (r_origin r) \<Longrightarrow> lp_result a n = None \<Longrightarrow>
    lpc_step a (a\<lparr>lp_result := (lp_result a)(n \<mapsto> r)\<rparr>)"

text \<open>The run of a call is the place of its request among those the server has read.\<close>

definition run_of :: "nat list \<Rightarrow> nat \<Rightarrow> nat \<rightharpoonup> nat" where
  "run_of w p = map_of (zip (take p w) [0..<p])"

definition local_view :: "rpc \<Rightarrow> lpc" where
  "local_view x =
     \<lparr>lp_issued = (\<lambda>n. map_option k_ServiceMethod (calls (rs_client x) n)),
      lp_run = run_of (rs_wire x) (pos (rs_server x)), lp_result = rs_got x\<rparr>"

section \<open>Invariant\<close>

definition served :: "'w server \<Rightarrow> client \<Rightarrow> bool" where
  "served srv c \<longleftrightarrow> (\<forall>n k. calls c n = Some k \<longrightarrow> (\<exists>sm. findService srv (k_ServiceMethod k) = Inr sm))"

text \<open>A call and a later state of it.\<close>

definition grown :: "call \<Rightarrow> call \<Rightarrow> bool" where
  "grown k k' \<longleftrightarrow> k_ServiceMethod k' = k_ServiceMethod k \<and> (k_Seq k \<noteq> 0 \<longrightarrow> k_Seq k' = k_Seq k) \<and> k_Done k \<le> k_Done k'
     \<and> (k_Done k' = k_Done k \<longrightarrow> k_Error k' = k_Error k \<and> k_Reply k' = k_Reply k)"

definition wire_ok :: "client \<Rightarrow> nat list \<Rightarrow> item list \<Rightarrow> bool" where
  "wire_ok c w its \<longleftrightarrow> distinct w \<and> length its = length w
     \<and> (\<forall>i < length w. \<exists>k. calls c (w ! i) = Some k \<and> k_Seq k \<noteq> 0 \<and> its ! i = Good (request_header k))"

definition heard_ok :: "client \<Rightarrow> nat \<Rightarrow> chunk list \<Rightarrow> bool" where
  "heard_ok c p os \<longleftrightarrow>
     (case receiver c of
        RHeader \<Rightarrow> even p
      | RBody h found \<Rightarrow> odd p \<and> p \<le> length os \<and> (\<exists>r. os ! (p - 1) = HeaderPart r \<and> r_header r = h)
      | _ \<Rightarrow> True)"

text \<open>What a call looks like after it has been completed with a response.\<close>

definition outcome :: "(response \<Rightarrow> gostring result) \<Rightarrow> response \<Rightarrow> call \<Rightarrow> bool" where
  "outcome decoded r k \<longleftrightarrow>
     (if ErrorText (r_header r) \<noteq> '''' then k_Error k = Some (ErrorText (r_header r)) \<and> k_Reply k = None
      else (case decoded r of Inl e \<Rightarrow> k_Error k = Some (''reading body '' @ e) \<and> k_Reply k = None
            | Inr v \<Rightarrow> k_Reply k = Some v \<and> k_Error k = None))"

definition got_ok :: "(response \<Rightarrow> gostring result) \<Rightarrow> rpc \<Rightarrow> bool" where
  "got_ok decoded x \<longleftrightarrow>
     (\<forall>n r. rs_got x n = Some r \<longrightarrow>
        r_origin r < pos (rs_server x) \<and> rs_wire x ! r_origin r = n \<and> answers (items (rs_server x)) r
        \<and> (\<exists>k. calls (rs_client x) n = Some k \<and> k_Done k = 1 \<and> outcome decoded r k))
   \<and> (\<forall>n k. calls (rs_client x) n = Some k \<longrightarrow> k_Reply k \<noteq> None \<longrightarrow> rs_got x n \<noteq> None)
   \<and> (\<forall>n k. calls (rs_client x) n = Some k \<longrightarrow> k_Done k = 0 \<longrightarrow> k_Error k = None)"

definition rpc_inv :: "(response \<Rightarrow> gostring result) \<Rightarrow> rpc \<Rightarrow> bool" where
  "rpc_inv decoded x \<longleftrightarrow>
     client_inv (rs_client x) \<and> serving_inv (rs_server x)
   \<and> wire_ok (rs_client x) (rs_wire x) (items (rs_server x))
   \<and> heard_ok (rs_client x) (rs_heard x) (out (rs_server x)) \<and> got_ok decoded x"

section \<open>The client's steps\<close>

lemma grown_refl [simp]: "grown k k"
  by (simp add: grown_def)

lemma done_once: "client_inv c \<Longrightarrow> calls c n = Some k \<Longrightarrow> k_Done k \<le> 1"
  using client_invD(3) [of c n k] by (auto simp: call_ok_def token_ok_def split: if_splits)

definition quiet_growth :: "call \<Rightarrow> call \<Rightarrow> bool" where
  "quiet_growth k k' \<longleftrightarrow> grown k k' \<and> k_Reply k' = k_Reply k"

lemma quiet_refl [simp]: "quiet_growth k k" "rel_option quiet_growth v v"
  by (simp_all add: quiet_growth_def option.rel_refl)

lemma quiet_changes [simp]:
  "quiet_growth k (k\<lparr>k_phase := p\<rparr>)" "quiet_growth k (finish (Some e) k)" "quiet_growth k (k\<lparr>k_dropped := True\<rparr>)"
  "quiet_growth k (finish (Some e) k\<lparr>k_phase := p\<rparr>)"
  "k_Seq k = 0 \<Longrightarrow> quiet_growth k (k\<lparr>k_Seq := q, k_phase := p\<rparr>)"
  by (simp_all add: quiet_growth_def grown_def finish_def)

lemma deaf_client_step:
  assumes "client_step c c'" and inv: "client_inv c" and "deaf c c'"
  shows "(\<exists>n m. calls c n = None \<and> calls c' = (calls c)(n \<mapsto> new_call m))
    \<or> (\<forall>n. rel_option quiet_growth (calls c n) (calls c' n))"
  using assms(1)
proof (cases rule: client_step.cases)
  case (go n m)
  then show ?thesis by auto
next
  case (send_register n c1 q)
  then obtain k where k: "calls c n = Some k" "k_phase k = SLocked" by (auto simp: phase_Some)
  with client_invD(3) [OF inv k(1)] have "k_Seq k = 0" by (simp add: call_ok_def phase_ok_def)
  with k send_register have "rel_option quiet_growth (calls c j) (calls c' j)" for j
    by (auto simp: registerCall_def Let_def split: if_splits)
  then show ?thesis by blast
next
  case (send_refused n c1 e)
  then have "rel_option quiet_growth (calls c j) (calls c' j)" for j
    by (auto simp: registerCall_def Let_def option.rel_map option.rel_refl split: if_splits)
  then show ?thesis by blast
next
  case (send_cleanup n k e c1 found)
  have own: "m = n" if "found = Some m" for m
    using pending_own [OF client_invD(1) [OF inv] send_cleanup(2)] send_cleanup(4) that
      client_invD(3) [OF inv send_cleanup(2)] send_cleanup(3)
    by (auto simp: removeCall_def call_ok_def phase_ok_def)
  have "c1 = c\<lparr>c_pending := (c_pending c)(k_Seq k := None)\<rparr>" using send_cleanup(4) by (simp add: removeCall_def)
  then have "rel_option quiet_growth (calls c j) (calls c' j)" for j
    using own send_cleanup(1,2) by (auto split: option.split)
  then show ?thesis by blast
next
  case (recv_header h c1 found)
  with assms(3) show ?thesis by (simp add: deaf_def)
next
  case (recv_body h found body)
  with assms(3) show ?thesis by (auto simp: deaf_def next_recv_def split: sum.splits)
next
  case (recv_terminate e)
  then have "rel_option quiet_growth (calls c j) (calls c' j)" for j
    by (auto simp: terminateCalls_def option.rel_map option.rel_refl)
  then show ?thesis by blast
next
  case (cancel n k c1 found)
  then have "rel_option quiet_growth (calls c j) (calls c' j)" for j
    by (auto simp: removeCall_def option.rel_map option.rel_refl)
  then show ?thesis by blast
qed (auto simp: option.rel_map option.rel_refl Close_def)

lemma client_grows:
  assumes "deaf c c' \<or> calls c' = calls c
     \<or> (\<exists>h found body. receiver c = RBody h found \<and> calls c' = calls (deliver h found body c))"
    and "client_step c c'" and "client_inv c" and "calls c n = Some k"
  shows "\<exists>k'. calls c' n = Some k' \<and> grown k k'"
  using assms(1)
proof (elim disjE exE conjE)
  assume "deaf c c'"
  from deaf_client_step [OF assms(2,3) this] show ?thesis
  proof
    assume "\<exists>n m. calls c n = None \<and> calls c' = (calls c)(n \<mapsto> new_call m)"
    with assms(4) show ?thesis by auto
  next
    assume "\<forall>n. rel_option quiet_growth (calls c n) (calls c' n)"
    then have "rel_option quiet_growth (calls c n) (calls c' n)" by blast
    with assms(4) show ?thesis by (cases "calls c' n") (auto simp: quiet_growth_def)
  qed
next
  fix h found body assume "receiver c = RBody h found" "calls c' = calls (deliver h found body c)"
  with assms(4) show ?thesis
    by (cases found) (auto simp: deliver_def grown_def finish_def split: sum.split)
qed (use assms(4) in auto)

section \<open>The server's steps\<close>

lemma serving_inv_more:
  assumes inv: "serving_inv s" and rd: "reader s \<in> {RRead, RSend}"
  shows "serving_inv (s\<lparr>items := items s @ xs\<rparr>)" (is "serving_inv ?s")
proof -
  from inv have tok: "tasks_ok s" and sok: "sends_ok s" and lok: "lock_ok s" and ook: "out_ok s"
    by (simp_all add: serving_inv_def)
  have ans: "answers (items s @ xs) r" if "answers (items s) r" for r
    using that by (auto simp: answers_def nth_append)
  have "tasks_ok ?s"
    using tok by (auto simp: tasks_ok_def nth_append; (meson order_less_le_trans)?)
  moreover have "sends_ok ?s"
  proof -
    have "sender_ok ?s y = sender_ok s y" for y by (cases y; simp)
    with sok ans show ?thesis by (simp add: sends_ok_def)
  qed
  moreover have "lock_ok ?s" using lok by (simp add: lock_ok_def)
  moreover have "reader_ok ?s" using rd by (auto simp: reader_ok_def)
  moreover have "out_ok ?s"
  proof -
    from ook obtain rs where rs: "out s = frames rs @ partial_frame s" "distinct (map r_origin rs)"
      "\<forall>i. i \<in> set (map r_origin rs) \<longleftrightarrow> answered s i" "\<forall>r \<in> set rs. answers (items s) r"
      unfolding out_ok_def by blast
    have "partial_frame ?s = partial_frame s" "answered ?s i = answered s i" for i
      by (simp_all add: partial_frame_def answered_def cong: option.case_cong)
    with rs ans show ?thesis unfolding out_ok_def by (intro exI [of _ rs]) simp
  qed
  ultimately show ?thesis by (simp add: serving_inv_def)
qed

lemma frames_nth:
  "length (frames rs) = 2 * length rs"
  "j < length rs \<Longrightarrow> frames rs ! (2 * j) = HeaderPart (rs ! j) \<and> frames rs ! Suc (2 * j) = BodyPart (rs ! j)"
proof (induction rs arbitrary: j)
  case (Cons r rs)
  {
    case 1
    with Cons show ?case by (simp add: frames_def)
  next
    case 2
    with Cons.IH(2) [of "j - 1"] show ?case by (cases j) (simp_all add: frames_def)
  }
qed (simp_all add: frames_def)

text \<open>A response that can be read: which request it answers, and where its parts are.\<close>

lemma response_read:
  assumes inv: "serving_inv s" and p: "odd p" "p < length (out s)" and parts: "out s ! (p - 1) = HeaderPart r0" "out s ! p = BodyPart r"
  shows "r = r0 \<and> r_origin r < pos s \<and> answers (items s) r"
proof -
  from inv obtain rs where rs: "out s = frames rs @ partial_frame s"
      "\<forall>i. i \<in> set (map r_origin rs) \<longleftrightarrow> answered s i" "\<forall>r \<in> set rs. answers (items s) r"
    unfolding serving_inv_def out_ok_def by blast
  from p(1) obtain j where j: "p = Suc (2 * j)" by (elim oddE) simp
  have "length (partial_frame s) \<le> 1" by (simp add: partial_frame_def split: option.split stage.split)
  with p(2) rs(1) j have "j < length rs" by (simp add: frames_nth)
  with frames_nth(1) [of rs] frames_nth(2) [OF this] rs(1) parts j have "r0 = rs ! j" "r = rs ! j" by (auto simp: nth_append)
  moreover from this \<open>j < length rs\<close> have "r \<in> set rs" by simp
  ultimately show ?thesis using rs(2,3) by (auto simp: answered_def)
qed

lemma serve_out_grows: "serve_step tmo s s' \<Longrightarrow> \<exists>xs. out s' = out s @ xs"
  by (induction rule: serve_step.induct) auto

lemma serve_pos: "serve_step tmo s s' \<Longrightarrow> pos s' = pos s \<or> (pos s' = Suc (pos s) \<and> pos s < length (items s))"
proof (induction rule: serve_step.induct)
  case (write_body s x r)
  then show ?case by simp
qed auto

section \<open>Preservation\<close>

lemma served_mono:
  assumes "served srv c'" and "\<And>n k. calls c n = Some k \<Longrightarrow> \<exists>k'. calls c' n = Some k' \<and> grown k k'"
  shows "served srv c"
  using assms unfolding served_def grown_def by metis

lemma rpc_client_step:
  assumes "rpc_step srv decoded tmo x x'"
  shows "(client_step (rs_client x) (rs_client x') \<or> rs_client x' = rs_client x)
    \<and> (deaf (rs_client x) (rs_client x') \<or> calls (rs_client x') = calls (rs_client x)
       \<or> (\<exists>h found body. receiver (rs_client x) = RBody h found \<and> calls (rs_client x') = calls (deliver h found body (rs_client x))))"
  using assms
proof cases
  case (hear_header r c' found)
  then show ?thesis using recv_header [of "rs_client x" "r_header r" c' found] by (auto simp: removeCall_def)
next
  case (hear_body h found r)
  then show ?thesis using recv_body [of "rs_client x" h found "decoded r"] by auto
next
  case (cut h found e)
  then show ?thesis using recv_body [of "rs_client x" h found "Inl e"] by (auto simp: next_recv_def)
qed auto

lemma rpc_client_grows:
  assumes "rpc_step srv decoded tmo x x'" and "client_inv (rs_client x)" and "calls (rs_client x) n = Some k"
  shows "\<exists>k'. calls (rs_client x') n = Some k' \<and> grown k k'"
  using rpc_client_step [OF assms(1)] client_grows [OF _ _ assms(2,3), of "rs_client x'"] assms(3) by auto

lemma wire_ok_grows:
  assumes "wire_ok c w its" and "\<And>n k. calls c n = Some k \<Longrightarrow> \<exists>k'. calls c' n = Some k' \<and> grown k k'"
  shows "wire_ok c' w its"
proof -
  have "\<exists>k'. calls c' (w ! i) = Some k' \<and> k_Seq k' \<noteq> 0 \<and> its ! i = Good (request_header k')" if i: "i < length w" for i
  proof -
    from assms(1) i obtain k where k: "calls c (w ! i) = Some k" "k_Seq k \<noteq> 0" "its ! i = Good (request_header k)"
      unfolding wire_ok_def by blast
    with assms(2) [OF k(1)] show ?thesis by (auto simp: grown_def request_header_def)
  qed
  with assms(1) show ?thesis unfolding wire_ok_def by blast
qed

lemma wire_ok_push:
  assumes w: "wire_ok c w its" and n: "n \<notin> set w" "calls c n = Some k" "k_Seq k \<noteq> 0"
  shows "wire_ok c (w @ [n]) (its @ [Good (request_header k)])"
proof -
  from w have len: "length its = length w" "distinct w" by (simp_all add: wire_ok_def)
  have "\<exists>k'. calls c ((w @ [n]) ! i) = Some k' \<and> k_Seq k' \<noteq> 0 \<and> (its @ [Good (request_header k)]) ! i = Good (request_header k')"
    if "i < length (w @ [n])" for i
  proof (cases "i < length w")
    case True
    with w len show ?thesis by (simp add: wire_ok_def nth_append)
  next
    case False
    with that have "i = length w" by simp
    with n len show ?thesis by (simp add: nth_append)
  qed
  with n(1) len show ?thesis by (simp add: wire_ok_def)
qed

lemma heard_ok_out:
  "heard_ok c p os \<Longrightarrow> heard_ok c p (os @ xs)"
proof -
  assume h: "heard_ok c p os"
  have "(os @ xs) ! (p - 1) = os ! (p - 1)" if "odd p" "p \<le> length os"
    using that by (intro nth_append_left) (auto elim: oddE)
  with h show ?thesis by (auto simp: heard_ok_def split: recv_phase.splits)
qed

lemma heard_ok_deaf:
  assumes "heard_ok c p os" and "deaf c c'"
  shows "heard_ok c' p os"
  using assms by (auto simp: heard_ok_def deaf_def split: recv_phase.splits)

lemma got_ok_grows:
  assumes got: "got_ok decoded x" and inv: "client_inv (rs_client x')"
    and calls: "\<And>n k. calls (rs_client x) n = Some k \<Longrightarrow> \<exists>k'. calls (rs_client x') n = Some k' \<and> quiet_growth k k'"
    and new: "\<And>n k'. calls (rs_client x') n = Some k' \<Longrightarrow> calls (rs_client x) n = None \<Longrightarrow> k_Reply k' = None \<and> k_Error k' = None"
    and same: "rs_got x' = rs_got x" and "pos (rs_server x) \<le> pos (rs_server x')"
    and "\<And>i. i < pos (rs_server x) \<Longrightarrow> rs_wire x' ! i = rs_wire x ! i"
    and "\<And>r. answers (items (rs_server x)) r \<Longrightarrow> answers (items (rs_server x')) r"
  shows "got_ok decoded x'"
  unfolding got_ok_def
proof (intro conjI allI impI)
  fix n r assume r: "rs_got x' n = Some r"
  with got same obtain k where k: "calls (rs_client x) n = Some k" "k_Done k = 1" "outcome decoded r k"
    and o: "r_origin r < pos (rs_server x)" "rs_wire x ! r_origin r = n" "answers (items (rs_server x)) r"
    unfolding got_ok_def by metis
  show "r_origin r < pos (rs_server x')" using o(1) assms(6) by simp
  show "rs_wire x' ! r_origin r = n" using assms(7) [OF o(1)] o(2) by simp
  show "answers (items (rs_server x')) r" by (rule assms(8) [OF o(3)])
  from calls [OF k(1)] obtain k' where k': "calls (rs_client x') n = Some k'" "quiet_growth k k'" by blast
  with done_once [OF inv k'(1)] k(2) have "k_Done k' = 1" by (auto simp: quiet_growth_def grown_def)
  with k' k have "outcome decoded r k'" by (auto simp: quiet_growth_def grown_def outcome_def split: sum.splits)
  with k'(1) \<open>k_Done k' = 1\<close> show "\<exists>k. calls (rs_client x') n = Some k \<and> k_Done k = 1 \<and> outcome decoded r k" by blast
next
  fix n k' assume k': "calls (rs_client x') n = Some k'" "k_Reply k' \<noteq> None"
  with new obtain k where "calls (rs_client x) n = Some k" by fastforce
  moreover from calls [OF this] k' have "k_Reply k \<noteq> None" by (auto simp: quiet_growth_def)
  ultimately show "rs_got x' n \<noteq> None" using got same unfolding got_ok_def by metis
next
  fix n k' assume k': "calls (rs_client x') n = Some k'" "k_Done k' = 0"
  show "k_Error k' = None"
  proof (cases "calls (rs_client x) n")
    case None
    with new k'(1) show ?thesis by blast
  next
    case (Some k)
    with calls [OF this] k' have "k_Done k = 0" "k_Error k' = k_Error k" by (auto simp: quiet_growth_def grown_def)
    with Some got show ?thesis unfolding got_ok_def by metis
  qed
qed

text \<open>The response the receiver reads for call \<open>n\<close> answers the request of call \<open>n\<close>, which is not completed.\<close>

lemma hear_own:
  assumes inv: "rpc_inv decoded x" and rc: "receiver (rs_client x) = RBody h (Some n)"
    and p: "rs_heard x < length (out (rs_server x))" "out (rs_server x) ! rs_heard x = BodyPart r"
  obtains k where "calls (rs_client x) n = Some k" "k_Done k = 0" "k_Reply k = None" "k_Error k = None"
    "r_header r = h" "r_origin r < pos (rs_server x)" "rs_wire x ! r_origin r = n" "answers (items (rs_server x)) r"
    "rs_got x n = None" "r_origin r < length (rs_wire x)"
proof -
  let ?c = "rs_client x" and ?s = "rs_server x"
  from inv have cinv: "client_inv ?c" and sinv: "serving_inv ?s" and w: "wire_ok ?c (rs_wire x) (items ?s)"
    and hd: "heard_ok ?c (rs_heard x) (out ?s)" and got: "got_ok decoded x" by (simp_all add: rpc_inv_def)
  from hd rc obtain r0 where "odd (rs_heard x)" "out ?s ! (rs_heard x - 1) = HeaderPart r0" "r_header r0 = h"
    by (auto simp: heard_ok_def)
  with response_read [OF sinv _ p(1) _ p(2)] have r: "r_header r = h" "r_origin r < pos ?s" "answers (items ?s) r"
    by auto
  from client_invD(2) [OF cinv] rc obtain k where k: "calls ?c n = Some k" "k_Seq k = Seq h" "Seq h \<noteq> 0"
    by (auto simp: threads_ok_def)
  have "held ?c n" using rc by (simp add: held_def)
  with client_invD(3) [OF cinv k(1)] k(2,3) have done0: "k_Done k = 0" by (simp add: call_ok_def token_ok_def)
  have none: "rs_got x n = None"
  proof (cases "rs_got x n")
    case (Some r')
    with got k(1) done0 show ?thesis unfolding got_ok_def by fastforce
  qed
  with got k(1) done0 have "k_Reply k = None" "k_Error k = None" unfolding got_ok_def by blast+
  have len: "r_origin r < length (rs_wire x)"
    using r(3) w by (simp add: answers_def wire_ok_def)
  with w obtain k1 where k1: "calls ?c (rs_wire x ! r_origin r) = Some k1" "k_Seq k1 \<noteq> 0"
      "items ?s ! r_origin r = Good (request_header k1)" unfolding wire_ok_def by blast
  from r(3) k1(3) have "Seq (r_header r) = Seq (request_header k1)" by (auto simp: answers_def)
  then have "k_Seq k1 = k_Seq k" using r(1) k(2) by (simp add: request_header_def)
  with seqs_okD(2) [OF client_invD(1) [OF cinv] k1(1) k(1)] k1(2) have "rs_wire x ! r_origin r = n" by simp
  with that k(1) done0 \<open>k_Reply k = None\<close> \<open>k_Error k = None\<close> r none len show ?thesis by blast
qed

lemma got_ok_body:
  assumes inv: "rpc_inv decoded x" and rc: "receiver (rs_client x) = RBody h (Some n)"
    and p: "rs_heard x < length (out (rs_server x))" "out (rs_server x) ! rs_heard x = BodyPart r"
    and x': "rs_server x' = rs_server x" "rs_wire x' = rs_wire x" "rs_got x' = (rs_got x)(n \<mapsto> r)"
      "calls (rs_client x') = calls (deliver h (Some n) (decoded r) (rs_client x))"
  shows "got_ok decoded x'"
proof -
  from hear_own [OF inv rc p] obtain k where k: "calls (rs_client x) n = Some k" "k_Done k = 0" "k_Reply k = None"
      "k_Error k = None" "r_header r = h" and r: "r_origin r < pos (rs_server x)" "rs_wire x ! r_origin r = n"
      "answers (items (rs_server x)) r" .
  have out: "outcome decoded r (completed h (decoded r) k)" and done1: "k_Done (completed h (decoded r) k) = 1"
    using k by (auto simp: outcome_def completed_def finish_def split: sum.split)
  have calls: "calls (rs_client x') = (calls (rs_client x))(n \<mapsto> completed h (decoded r) k)"
    using x'(4) k(1) by (simp add: deliver_completed)
  have got: "got_ok decoded x" using inv by (simp add: rpc_inv_def)
  show ?thesis
    unfolding got_ok_def x'(1,2,3) calls
  proof (intro conjI allI impI)
    fix m r' assume m: "((rs_got x)(n \<mapsto> r)) m = Some r'"
    show "r_origin r' < pos (rs_server x)" "rs_wire x ! r_origin r' = m" "answers (items (rs_server x)) r'"
      using m r got unfolding got_ok_def by (auto split: if_splits)
    show "\<exists>k'. ((calls (rs_client x))(n \<mapsto> completed h (decoded r) k)) m = Some k' \<and> k_Done k' = 1 \<and> outcome decoded r' k'"
    proof (cases "m = n")
      case True
      with m out done1 show ?thesis by simp
    next
      case False
      with m got show ?thesis unfolding got_ok_def by simp
    qed
  next
    fix m k' assume "((calls (rs_client x))(n \<mapsto> completed h (decoded r) k)) m = Some k'" "k_Reply k' \<noteq> None"
    with got show "((rs_got x)(n \<mapsto> r)) m \<noteq> None" unfolding got_ok_def by (simp split: if_splits)
  next
    fix m k' assume "((calls (rs_client x))(n \<mapsto> completed h (decoded r) k)) m = Some k'" "k_Done k' = 0"
    with got done1 show "k_Error k' = None" unfolding got_ok_def by (auto split: if_splits)
  qed
qed

lemma rpc_client_inv:
  assumes "rpc_step srv decoded tmo x x'" and "client_inv (rs_client x)" and "nregistered (rs_client x') < 2 ^ 64"
  shows "client_inv (rs_client x')"
  using rpc_client_step [OF assms(1)] client_inv_step [OF _ assms(2,3)] assms(2) by auto

lemma got_ok_still:
  assumes "got_ok decoded x" and "client_inv (rs_client x)" and "calls (rs_client x') = calls (rs_client x)"
    and "client_inv (rs_client x')" and "rs_got x' = rs_got x" and "pos (rs_server x) \<le> pos (rs_server x')"
    and "\<And>i. i < pos (rs_server x) \<Longrightarrow> rs_wire x' ! i = rs_wire x ! i"
    and "\<And>r. answers (items (rs_server x)) r \<Longrightarrow> answers (items (rs_server x')) r"
  shows "got_ok decoded x'"
  by (rule got_ok_grows [OF assms(1,4)]) (use assms in \<open>auto simp: assms(3)\<close>)

lemma got_ok_quiet:
  assumes got: "got_ok decoded x" and inv: "client_inv c'"
    and growth: "(\<exists>n m. calls (rs_client x) n = None \<and> calls c' = (calls (rs_client x))(n \<mapsto> new_call m))
      \<or> (\<forall>n. rel_option quiet_growth (calls (rs_client x) n) (calls c' n))"
  shows "got_ok decoded (x\<lparr>rs_client := c'\<rparr>)"
proof (rule got_ok_grows [OF got])
  show "client_inv (rs_client (x\<lparr>rs_client := c'\<rparr>))" using inv by simp
  show "\<exists>k'. calls (rs_client (x\<lparr>rs_client := c'\<rparr>)) n = Some k' \<and> quiet_growth k k'" if "calls (rs_client x) n = Some k" for n k
    using growth
  proof
    assume "\<forall>n. rel_option quiet_growth (calls (rs_client x) n) (calls c' n)"
    then have "rel_option quiet_growth (calls (rs_client x) n) (calls c' n)" by blast
    with that show ?thesis by (cases "calls c' n") auto
  qed (use that in auto)
  show "k_Reply k' = None \<and> k_Error k' = None"
    if "calls (rs_client (x\<lparr>rs_client := c'\<rparr>)) n = Some k'" "calls (rs_client x) n = None" for n k'
    using growth
  proof
    assume "\<forall>n. rel_option quiet_growth (calls (rs_client x) n) (calls c' n)"
    then have "rel_option quiet_growth (calls (rs_client x) n) (calls c' n)" by blast
    with that show ?thesis by (cases "calls c' n") auto
  qed (use that in \<open>auto simp: new_call_def split: if_splits\<close>)
qed auto

lemma rpc_inv_step:
  assumes st: "rpc_step srv decoded tmo x x'" and inv: "rpc_inv decoded x"
    and bound: "nregistered (rs_client x') < 2 ^ 64" and known: "served srv (rs_client x)"
  shows "rpc_inv decoded x'"
proof -
  from inv have cinv: "client_inv (rs_client x)" and sinv: "serving_inv (rs_server x)"
    and w: "wire_ok (rs_client x) (rs_wire x) (items (rs_server x))"
    and hd: "heard_ok (rs_client x) (rs_heard x) (out (rs_server x))" and got: "got_ok decoded x"
    by (simp_all add: rpc_inv_def)
  note cinv' = rpc_client_inv [OF st cinv bound]
  note w' = wire_ok_grows [OF w rpc_client_grows [OF st cinv]]
  from st show ?thesis
  proof cases
    case (local c')
    from heard_ok_deaf [OF hd local(3)] got_ok_quiet [OF got _ deaf_client_step [OF local(2) cinv local(3)]]
      cinv' w' sinv show ?thesis by (simp add: local(1) rpc_inv_def)
  next
    case (wire n k junk)
    from known wire(2) obtain sm where "findService srv (k_ServiceMethod k) = Inr sm" unfolding served_def by blast
    then have arr: "arrives srv (request_header k) junk = [Good (request_header k)]"
      by (simp add: arrives_def request_header_def)
    from client_invD(3) [OF cinv wire(2)] wire(3) have seq: "k_Seq k \<noteq> 0" by (simp add: call_ok_def phase_ok_def)
    have pos: "pos (rs_server x) \<le> length (rs_wire x)"
      using sinv w by (simp add: serving_inv_def tasks_ok_def wire_ok_def)
    have "got_ok decoded x'"
      by (rule got_ok_still [OF got cinv])
        (use cinv pos in \<open>auto simp: wire(1) nth_append answers_def\<close>)
    with serving_inv_more [OF sinv wire(5)] wire_ok_push [OF w wire(4,2) seq] hd cinv
    show ?thesis by (simp add: wire(1) rpc_inv_def arr)
  next
    case (serve s')
    from serve_out_grows [OF serve(2)] obtain xs where "out s' = out (rs_server x) @ xs" by blast
    moreover have "got_ok decoded x'"
      by (rule got_ok_still [OF got cinv])
        (use cinv serve_pos [OF serve(2)] serve_step_items [OF serve(2)] in \<open>auto simp: serve(1)\<close>)
    ultimately show ?thesis
      using serving_inv_step [OF serve(2) sinv] cinv w heard_ok_out [OF hd] serve_step_items [OF serve(2)]
      by (simp add: serve(1) rpc_inv_def)
  next
    case (hear_header r c' found)
    have same: "calls c' = calls (rs_client x)" using hear_header(5) by (auto simp: removeCall_def)
    have "got_ok decoded x'"
      by (rule got_ok_still [OF got cinv _ cinv']) (simp_all add: hear_header(1) same)
    moreover have "heard_ok (rs_client x') (rs_heard x') (out (rs_server x'))"
      using hd hear_header(2-4) by (auto simp: hear_header(1) heard_ok_def)
    ultimately show ?thesis using cinv' w' sinv by (simp add: hear_header(1) rpc_inv_def)
  next
    case (hear_body h found r)
    have "got_ok decoded x'"
    proof (cases found)
      case None
      show ?thesis
        by (rule got_ok_still [OF got cinv _ cinv']) (simp_all add: hear_body(1) None deliver_def)
    next
      case (Some n)
      show ?thesis
        by (rule got_ok_body [OF inv hear_body(2) [unfolded Some] hear_body(3,4)]) (simp_all add: hear_body(1) Some)
    qed
    moreover have "heard_ok (rs_client x') (rs_heard x') (out (rs_server x'))"
      using hd hear_body(2) by (auto simp: hear_body(1) heard_ok_def next_recv_def split: sum.split)
    ultimately show ?thesis using cinv' w' sinv by (simp add: hear_body(1) rpc_inv_def)
  next
    case (cut h found e)
    have "rel_option quiet_growth (calls (rs_client x) j) (calls (deliver h found (Inl e) (rs_client x)) j)" for j
      by (auto simp: deliver_completed completed_def option.rel_map option.rel_refl split: option.split)
    then have "got_ok decoded x'"
      using got_ok_quiet [OF got, of "rs_client x'"] cinv' by (simp add: cut(1))
    moreover have "heard_ok (rs_client x') (rs_heard x') (out (rs_server x'))" by (simp add: cut(1) heard_ok_def)
    ultimately show ?thesis using cinv' w' sinv by (simp add: cut(1) rpc_inv_def)
  qed
qed

lemma rpc_inv_start: "rpc_inv decoded start_rpc"
proof -
  have "calls new_client = Map.empty" "receiver new_client = RHeader" by (simp_all add: new_client_def)
  moreover have "items (start_serving []) = []" "rs_server start_rpc = start_serving []" "rs_client start_rpc = new_client"
    "rs_wire start_rpc = []" "rs_heard start_rpc = 0" "rs_got start_rpc = Map.empty" by (simp_all add: start_rpc_def)
  ultimately show ?thesis
    using serving_inv_start [of "[]"] client_inv_init by (simp add: rpc_inv_def wire_ok_def heard_ok_def got_ok_def)
qed

lemma rpc_nregistered: "rpc_step srv decoded tmo x x' \<Longrightarrow> nregistered (rs_client x) \<le> nregistered (rs_client x')"
  using rpc_client_step nregistered_step by fastforce

lemma rpc_reachable_client_inv:
  "rpc_reachable srv decoded tmo x \<Longrightarrow> nregistered (rs_client x) < 2 ^ 64 \<Longrightarrow> client_inv (rs_client x)"
proof (induction rule: rpc_reachable.induct)
  case rpc_init
  then show ?case by (simp add: start_rpc_def client_inv_init)
next
  case (rpc_next x x')
  with rpc_nregistered [OF rpc_next.hyps(2)] have "client_inv (rs_client x)" by simp
  from rpc_client_inv [OF rpc_next.hyps(2) this rpc_next.prems] show ?case .
qed

lemma rpc_reachable_inv:
  "rpc_reachable srv decoded tmo x \<Longrightarrow> nregistered (rs_client x) < 2 ^ 64 \<Longrightarrow> served srv (rs_client x) \<Longrightarrow> rpc_inv decoded x"
proof (induction rule: rpc_reachable.induct)
  case rpc_init
  then show ?case by (simp add: rpc_inv_start)
next
  case (rpc_next x x')
  from rpc_nregistered [OF rpc_next.hyps(2)] rpc_next.prems(1) have b: "nregistered (rs_client x) < 2 ^ 64" by simp
  note cinv = rpc_reachable_client_inv [OF rpc_next.hyps(1) b]
  have "served srv (rs_client x)" by (rule served_mono [OF rpc_next.prems(2) rpc_client_grows [OF rpc_next.hyps(2) cinv]])
  with rpc_inv_step [OF rpc_next.hyps(2) rpc_next.IH [OF b] rpc_next.prems(1)] show ?case by simp
qed

section \<open>Refinement\<close>

lemma run_of_Some:
  assumes "distinct w" and "p \<le> length w"
  shows "run_of w p n = Some i \<longleftrightarrow> i < p \<and> w ! i = n"
proof -
  have "distinct (map fst (zip (take p w) [0..<p]))" using assms by simp
  then have "run_of w p n = Some i \<longleftrightarrow> (n, i) \<in> set (zip (take p w) [0..<p])"
    unfolding run_of_def by (rule map_of_eq_Some_iff)
  also have "\<dots> \<longleftrightarrow> i < p \<and> w ! i = n" using assms(2) by (auto simp: in_set_zip intro!: exI [of _ i])
  finally show ?thesis .
qed

lemma run_of_next:
  assumes "distinct w" and "p < length w"
  shows "run_of w (Suc p) = (run_of w p)(w ! p \<mapsto> p)" "run_of w p (w ! p) = None" "p \<notin> ran (run_of w p)"
proof -
  note some = run_of_Some [OF assms(1)]
  have none: "run_of w p (w ! p) \<noteq> Some i" for i
    using some [of p "w ! p" i] assms by (auto simp: nth_eq_iff_index_eq)
  then show "run_of w p (w ! p) = None" by (cases "run_of w p (w ! p)") auto
  show "p \<notin> ran (run_of w p)" using some [of p] assms(2) by (auto simp: ran_def)
  show "run_of w (Suc p) = (run_of w p)(w ! p \<mapsto> p)"
  proof
    fix n
    have "run_of w (Suc p) n = Some i \<longleftrightarrow> ((run_of w p)(w ! p \<mapsto> p)) n = Some i" for i
      using some [of "Suc p" n i] some [of p n i] none [of i] assms
      by (auto simp: less_Suc_eq nth_eq_iff_index_eq)
    then show "run_of w (Suc p) n = ((run_of w p)(w ! p \<mapsto> p)) n" by (metis option.exhaust)
  qed
qed

lemma issued_same:
  assumes "\<And>n. rel_option quiet_growth (calls c n) (calls c' n)"
  shows "(\<lambda>n. map_option k_ServiceMethod (calls c' n)) = (\<lambda>n. map_option k_ServiceMethod (calls c n))"
proof
  fix n show "map_option k_ServiceMethod (calls c' n) = map_option k_ServiceMethod (calls c n)"
    using assms [of n] by (cases "calls c n"; cases "calls c' n") (auto simp: quiet_growth_def grown_def)
qed

lemma issued_deliver:
  "(\<lambda>n. map_option k_ServiceMethod (calls (deliver h found body c) n)) = (\<lambda>n. map_option k_ServiceMethod (calls c n))"
proof
  fix n
  have "k_ServiceMethod (completed h body k) = k_ServiceMethod k" for k
    by (simp add: completed_def split: sum.split)
  then show "map_option k_ServiceMethod (calls (deliver h found body c) n) = map_option k_ServiceMethod (calls c n)"
    by (cases found; cases "calls c n") (auto simp: deliver_completed)
qed

text \<open>The steps of the machine of local calls that the connection takes.\<close>

lemma refines_local:
  assumes "client_step (rs_client x) c'" and "client_inv (rs_client x)" and "deaf (rs_client x) c'"
  shows "local_view (x\<lparr>rs_client := c'\<rparr>) = local_view x \<or> lpc_step (local_view x) (local_view (x\<lparr>rs_client := c'\<rparr>))"
  using deaf_client_step [OF assms]
proof (elim disjE exE conjE)
  fix n m assume n: "calls (rs_client x) n = None" "calls c' = (calls (rs_client x))(n \<mapsto> new_call m)"
  have "local_view (x\<lparr>rs_client := c'\<rparr>) = (local_view x)\<lparr>lp_issued := (lp_issued (local_view x))(n \<mapsto> m)\<rparr>"
    using n by (auto simp: local_view_def new_call_def)
  moreover have "lp_issued (local_view x) n = None" using n by (simp add: local_view_def)
  ultimately show ?thesis using issue by metis
next
  assume "\<forall>n. rel_option quiet_growth (calls (rs_client x) n) (calls c' n)"
  then show ?thesis using issued_same [of "rs_client x" c'] by (simp add: local_view_def)
qed

lemma refines_serve:
  assumes "serve_step tmo (rs_server x) s'" and w: "wire_ok (rs_client x) (rs_wire x) (items (rs_server x))"
  shows "local_view (x\<lparr>rs_server := s'\<rparr>) = local_view x \<or> lpc_step (local_view x) (local_view (x\<lparr>rs_server := s'\<rparr>))"
  using serve_pos [OF assms(1)]
proof
  assume "pos s' = pos (rs_server x)"
  then show ?thesis by (simp add: local_view_def)
next
  assume p: "pos s' = Suc (pos (rs_server x)) \<and> pos (rs_server x) < length (items (rs_server x))"
  let ?p = "pos (rs_server x)" and ?n = "rs_wire x ! pos (rs_server x)"
  have dist: "distinct (rs_wire x)" and len: "length (items (rs_server x)) = length (rs_wire x)"
    using w by (simp_all add: wire_ok_def)
  note nxt = run_of_next [OF dist, of ?p]
  from w p len obtain k where "calls (rs_client x) ?n = Some k" unfolding wire_ok_def by metis
  then have "lp_issued (local_view x) ?n = Some (k_ServiceMethod k)" by (simp add: local_view_def)
  moreover have "local_view (x\<lparr>rs_server := s'\<rparr>) = (local_view x)\<lparr>lp_run := (lp_run (local_view x))(?n \<mapsto> ?p)\<rparr>"
    using nxt(1) p len by (simp add: local_view_def)
  moreover have "lp_run (local_view x) ?n = None" "?p \<notin> ran (lp_run (local_view x))"
    using nxt(2,3) p len by (simp_all add: local_view_def)
  ultimately show ?thesis using run by metis
qed

lemma refines_hear:
  assumes inv: "rpc_inv decoded x" and step: "receiver (rs_client x) = RBody h found" "rs_heard x < length (out (rs_server x))"
      "out (rs_server x) ! rs_heard x = BodyPart r"
    and x': "x' = x\<lparr>rs_client := (deliver h found (decoded r) (rs_client x))\<lparr>receiver := next_recv (decoded r)\<rparr>,
         rs_heard := Suc (rs_heard x), rs_got := (case found of None \<Rightarrow> rs_got x | Some n \<Rightarrow> (rs_got x)(n \<mapsto> r))\<rparr>"
  shows "local_view x' = local_view x \<or> lpc_step (local_view x) (local_view x')"
proof (cases found)
  case None
  then show ?thesis by (simp add: x' local_view_def deliver_def)
next
  case (Some n)
  have dist: "distinct (rs_wire x)" and pos: "pos (rs_server x) \<le> length (rs_wire x)"
    using inv by (simp_all add: rpc_inv_def wire_ok_def serving_inv_def tasks_ok_def)
  from hear_own [OF inv step(1) [unfolded Some] step(2,3)]
  have r: "r_origin r < pos (rs_server x)" "rs_wire x ! r_origin r = n" "rs_got x n = None" by blast+
  have "local_view x' = (local_view x)\<lparr>lp_result := (lp_result (local_view x))(n \<mapsto> r)\<rparr>"
    using issued_deliver [of h found "decoded r" "rs_client x"] by (simp add: x' Some local_view_def)
  moreover have "lp_run (local_view x) n = Some (r_origin r)" "lp_result (local_view x) n = None"
    using r run_of_Some [OF dist pos] by (simp_all add: local_view_def)
  ultimately show ?thesis using give by metis
qed

text \<open>The steps the refinement covers: fewer than \<open>2 ^ 64\<close> calls, each of a method the server has.\<close>

definition known_step :: "'w server \<Rightarrow> (response \<Rightarrow> gostring result) \<Rightarrow> int \<Rightarrow> rpc \<Rightarrow> rpc \<Rightarrow> bool" where
  "known_step srv decoded tmo x x' \<longleftrightarrow>
     rpc_step srv decoded tmo x x' \<and> nregistered (rs_client x') < 2 ^ 64 \<and> served srv (rs_client x')"

lemma known_stepD:
  assumes "known_step srv decoded tmo x x'" and "client_inv (rs_client x)"
  shows "rpc_step srv decoded tmo x x'" and "nregistered (rs_client x') < 2 ^ 64" and "served srv (rs_client x)"
  using assms served_mono [OF _ rpc_client_grows [OF _ assms(2)]] by (auto simp: known_step_def)

lemma rpc_follows:
  assumes st: "rpc_step srv decoded tmo x x'" and inv: "rpc_inv decoded x"
  shows "local_view x' = local_view x \<or> lpc_step (local_view x) (local_view x')"
proof -
  from inv have w: "wire_ok (rs_client x) (rs_wire x) (items (rs_server x))" and pos: "pos (rs_server x) \<le> length (rs_wire x)"
    and cinv: "client_inv (rs_client x)"
    by (simp_all add: rpc_inv_def serving_inv_def tasks_ok_def wire_ok_def)
  from st show ?thesis
  proof cases
    case (local c')
    from refines_local [OF local(2) cinv local(3)] show ?thesis by (simp add: local(1))
  next
    case (wire n k junk)
    then show ?thesis using pos by (simp add: local_view_def run_of_def)
  next
    case (serve s')
    from refines_serve [OF serve(2) w] show ?thesis by (simp add: serve(1))
  next
    case (hear_header r c' found)
    then show ?thesis by (auto simp: removeCall_def local_view_def)
  next
    case (hear_body h found r)
    from refines_hear [OF inv hear_body(2-4) hear_body(1)] show ?thesis .
  next
    case (cut h found e)
    then show ?thesis using issued_deliver [of h found "Inl e" "rs_client x"] by (simp add: local_view_def)
  qed
qed

interpretation local_calls: refinement "rpc_inv decoded" "known_step srv decoded tmo" local_view lpc_step
proof
  fix x x' assume inv: "rpc_inv decoded x" and known: "known_step srv decoded tmo x x'"
  then have "client_inv (rs_client x)" by (simp add: rpc_inv_def)
  note st = known_stepD [OF known this]
  show "rpc_inv decoded x'" by (rule rpc_inv_step [OF st(1) inv st(2,3)])
  show "local_view x' = local_view x \<or> lpc_step (local_view x) (local_view x')" by (rule rpc_follows [OF st(1) inv])
qed

lemma reachable_known:
  "rpc_reachable srv decoded tmo x \<Longrightarrow> nregistered (rs_client x) < 2 ^ 64 \<Longrightarrow> served srv (rs_client x) \<Longrightarrow>
   (known_step srv decoded tmo)\<^sup>*\<^sup>* start_rpc x"
proof (induction rule: rpc_reachable.induct)
  case (rpc_next x x')
  from rpc_nregistered [OF rpc_next.hyps(2)] rpc_next.prems(1) have b: "nregistered (rs_client x) < 2 ^ 64" by simp
  note cinv = rpc_reachable_client_inv [OF rpc_next.hyps(1) b]
  have "served srv (rs_client x)" by (rule served_mono [OF rpc_next.prems(2) rpc_client_grows [OF rpc_next.hyps(2) cinv]])
  with rpc_next.IH [OF b] have "(known_step srv decoded tmo)\<^sup>*\<^sup>* start_rpc x" by simp
  moreover have "known_step srv decoded tmo x x'" using rpc_next by (simp add: known_step_def)
  ultimately show ?case by (rule rtranclp.rtrancl_into_rtrancl)
qed simp


text \<open>A run with one call of \<open>Foo.Sum\<close>, up to the point where its response has been written.\<close>

definition foo_server :: "unit server" where
  "foo_server = fst (Register ''Foo'' foo_methods NewServer)"

lemma foo_server_find: "findService foo_server ''Foo.Sum'' = Inr (foo_service, foo_sum)"
proof -
  have "svc_name foo_service = ''Foo''" by (simp add: foo_service_def registerMethods_def)
  then have "serviceMap foo_server = [''Foo'' \<mapsto> foo_service]"
    by (simp add: foo_server_def Register_def foo_service_new NewServer_def)
  moreover have sum_entry: "svc_method foo_service ''Sum'' = Some foo_sum"
    by (simp add: foo_service_def registerMethods_def foo_sum_entry)
  ultimately show ?thesis
    using findService_dotted [of "''Sum''" foo_server "''Foo''"] sum_entry by simp
qed

definition sum_writing :: client where
  "sum_writing = new_client\<lparr>calls := [0 \<mapsto> (new_call ''Foo.Sum'')\<lparr>k_Seq := 1, k_phase := SWriting\<rparr>],
     sending := Some 0, c_pending := [1 \<mapsto> 0], c_seq := 2, nregistered := 1\<rparr>"

definition sum_served :: serving where
  "sum_served = \<lparr>items = [Good sum_reply], pos = 1, reader = RRead, tasks = [0 \<mapsto> \<lparr>wk = WSignal, mg = MAwaitSent\<rparr>],
     sends = Map.empty, lock = None, out = [HeaderPart (Response 0 sum_reply True), BodyPart (Response 0 sum_reply True)]\<rparr>"

lemma rpc_local:
  "rpc_reachable srv decoded tmo x \<Longrightarrow> client_step (rs_client x) c' \<Longrightarrow> receiver c' = receiver (rs_client x) \<Longrightarrow>
     rpc_reachable srv decoded tmo (x\<lparr>rs_client := c'\<rparr>)"
  by (rule rpc_next [OF _ local]) (simp_all add: deaf_def)

lemma sum_sent: "rpc_reachable srv decoded tmo (start_rpc\<lparr>rs_client := sum_writing\<rparr>)"
proof -
  let ?k = "new_call ''Foo.Sum''"
  let ?c1 = "new_client\<lparr>calls := [0 \<mapsto> ?k]\<rparr>"
  let ?c2 = "?c1\<lparr>sending := Some 0, calls := [0 \<mapsto> ?k\<lparr>k_phase := SLocked\<rparr>]\<rparr>"
  have start: "rs_client start_rpc = new_client" by (simp add: start_rpc_def)
  have "client_step (rs_client start_rpc) ?c1"
    using client_step.go [of new_client 0 "''Foo.Sum''"] by (simp add: start new_client_def)
  note r1 = rpc_local [OF rpc_init this]
  have "client_step ?c1 ?c2"
    using client_step.send_lock [of ?c1 0]
    by (simp add: phase_def new_call_def new_client_def set_phase_def on_call_def)
  with rpc_local [OF r1, of ?c2] have r2: "rpc_reachable srv decoded tmo (start_rpc\<lparr>rs_client := ?c2\<rparr>)"
    by (simp add: start new_client_def)
  have "client_step ?c2 sum_writing"
    using client_step.send_register [of ?c2 0 "fst (registerCall 0 ?c2)" 1]
    by (simp add: phase_def new_call_def new_client_def set_phase_def on_call_def registerCall_def Let_def sum_writing_def)
  with rpc_local [OF r2, of sum_writing] show ?thesis by (simp add: sum_writing_def)
qed

lemma sum_run: "serve_reachable tmo (start_serving [Good sum_reply]) sum_served"
proof -
  let ?r = "Response 0 sum_reply True"
  let ?s0 = "start_serving [Good sum_reply]"
  let ?s1 = "?s0\<lparr>pos := 1, tasks := [0 \<mapsto> \<lparr>wk = WRun, mg = MSelect\<rparr>]\<rparr>"
  let ?s2 = "?s1\<lparr>tasks := [0 \<mapsto> \<lparr>wk = WCalled None, mg = MSelect\<rparr>]\<rparr>"
  let ?s3 = "?s2\<lparr>tasks := [0 \<mapsto> \<lparr>wk = WSend, mg = MAwaitSent\<rparr>], sends := [Worker 0 \<mapsto> (?r, WaitLock)]\<rparr>"
  let ?s4 = "?s3\<lparr>sends := [Worker 0 \<mapsto> (?r, HeaderNext)], lock := Some (Worker 0)\<rparr>"
  let ?s5 = "?s4\<lparr>sends := [Worker 0 \<mapsto> (?r, BodyNext)], out := [HeaderPart ?r]\<rparr>"
  have 1: "serve_step tmo ?s0 ?s1"
    using serve_step.read_good [of ?s0 sum_reply tmo] by (simp add: start_serving_def)
  have 2: "serve_step tmo ?s1 ?s2"
    using serve_step.returned [of ?s1 0 "\<lparr>wk = WRun, mg = MSelect\<rparr>" tmo None] by (simp add: start_serving_def)
  have 3: "serve_step tmo ?s2 ?s3"
    using serve_step.called [of ?s2 0 "\<lparr>wk = WCalled None, mg = MSelect\<rparr>" None sum_reply tmo]
    by (simp add: start_serving_def worker_response_def)
  have 4: "serve_step tmo ?s3 ?s4"
    using serve_step.acquire [of ?s3 "Worker 0" ?r tmo] by (simp add: start_serving_def)
  have 5: "serve_step tmo ?s4 ?s5"
    using serve_step.write_header [of ?s4 "Worker 0" ?r tmo] by (simp add: start_serving_def)
  have 6: "serve_step tmo ?s5 sum_served"
    using serve_step.write_body [of ?s5 "Worker 0" ?r tmo] by (simp add: start_serving_def after_send_def sum_served_def)
  show ?thesis
    by (rule reach_step [OF reach_step [OF reach_step [OF reach_step [OF reach_step [OF reach_step [OF reach_refl 1] 2] 3] 4] 5] 6])
qed

lemma rpc_serves:
  assumes "serve_reachable tmo s s'" and "rpc_reachable srv decoded tmo (x\<lparr>rs_server := s\<rparr>)"
  shows "rpc_reachable srv decoded tmo (x\<lparr>rs_server := s'\<rparr>)"
  using assms
proof (induction rule: serve_reachable.induct)
  case (reach_step s s' s'')
  from rpc_next [OF reach_step.IH [OF reach_step.prems] serve, of s''] reach_step.hyps(2) show ?case by simp
qed

definition sum_answered :: rpc where
  "sum_answered = \<lparr>rs_client = sum_writing\<lparr>c_pending := Map.empty, receiver := RBody sum_reply (Some 0)\<rparr>,
     rs_server = sum_served, rs_wire = [0], rs_heard = 1, rs_got = Map.empty\<rparr>"

lemma sum_answered_reachable: "rpc_reachable foo_server decoded tmo sum_answered"
proof -
  let ?x = "start_rpc\<lparr>rs_client := sum_writing\<rparr>"
  let ?k = "(new_call ''Foo.Sum'')\<lparr>k_Seq := 1, k_phase := SWriting\<rparr>"
  have req: "request_header ?k = sum_reply" by (simp add: request_header_def sum_reply_def new_call_def)
  have arr: "arrives foo_server sum_reply [] = [Good sum_reply]"
    using foo_server_find by (simp add: arrives_def sum_reply_def)
  have "rpc_step foo_server decoded tmo ?x (?x\<lparr>rs_wire := rs_wire ?x @ [0],
      rs_server := (rs_server ?x)\<lparr>items := items (rs_server ?x) @ arrives foo_server (request_header ?k) []\<rparr>\<rparr>)"
    by (rule wire) (simp_all add: sum_writing_def start_rpc_def start_serving_def)
  from rpc_next [OF sum_sent this]
  have "rpc_reachable foo_server decoded tmo
      ((?x\<lparr>rs_wire := [0]\<rparr>)\<lparr>rs_server := start_serving [Good sum_reply]\<rparr>)"
    unfolding req arr by (simp add: start_rpc_def start_serving_def)
  note r = rpc_serves [OF sum_run this]
  let ?y = "(?x\<lparr>rs_wire := [0]\<rparr>)\<lparr>rs_server := sum_served\<rparr>"
  have "rpc_step foo_server decoded tmo ?y (?y\<lparr>rs_client := (sum_writing\<lparr>c_pending := Map.empty\<rparr>)
      \<lparr>receiver := RBody (r_header (Response 0 sum_reply True)) (Some 0)\<rparr>, rs_heard := Suc (rs_heard ?y)\<rparr>)"
    by (rule hear_header)
      (simp_all add: start_rpc_def sum_served_def sum_writing_def new_client_def removeCall_def sum_reply_def)
  from rpc_next [OF r this] show ?thesis by (simp add: sum_answered_def start_rpc_def)
qed

lemma sum_served_known: "calls c = [0 \<mapsto> k] \<Longrightarrow> k_ServiceMethod k = ''Foo.Sum'' \<Longrightarrow> served foo_server c"
  using foo_server_find by (auto simp: served_def split: if_splits)




end
