(* ===== verification/Rpc_Entry.thy ===== *)
theory Rpc_Entry
  imports Rpc_Client Registry
begin

text \<open>
  How a connection comes in: \<open>Accept\<close>, the reading of the option at the head of a connection, the
  HTTP entry (\<open>ServeHTTP\<close>, \<open>HandleHTTP\<close>) and the debug page of \<open>apps/pkg/geeRPC/server.go\<close> and
  \<open>debug.go\<close>, with their counterparts in \<open>client.go\<close> (theory \<open>Rpc_Client\<close>). The decisions taken on
  a decoded option are in theory \<open>Server\<close>; here are the bytes.
\<close>

section \<open>The option at the head of a connection\<close>

text \<open>
  \<open>json.NewDecoder(conn).Decode\<close> reads from the connection until its buffer holds a complete JSON
  value. What one \<open>Read\<close> returns is a list of bytes; \<open>scan\<close> is the decoder's look at its buffer:
  \<open>None\<close> when the value is not complete, else the result and the bytes behind it, which stay in
  the decoder's buffer. The decoder is dropped with them, and the codec reads from the
  connection.
\<close>

type_synonym scanner = "byte list \<Rightarrow> (rpc_option result \<times> byte list) option"

definition json_space :: "byte \<Rightarrow> bool" where
  "json_space b \<longleftrightarrow> b \<in> {32, 9, 10, 13}"

fun decode_option :: "scanner \<Rightarrow> byte list \<Rightarrow> byte list list \<Rightarrow> rpc_option result \<times> byte list list" where
  "decode_option scan buf [] = (Inl (if list_all json_space buf then EOF else ErrUnexpectedEOF), [])"
| "decode_option scan buf (c # cs) =
     (case scan (buf @ c) of
        None \<Rightarrow> decode_option scan (buf @ c) cs
      | Some (r, more_s) \<Rightarrow> (r, cs))"

text \<open>What is served: the log line of a connection that is closed, or the codec and the bytes it will read.\<close>

definition serve_conn_bytes :: "scanner \<Rightarrow> byte list list \<Rightarrow> gostring + (codec_type \<times> byte list)" where
  "serve_conn_bytes scan reads =
     (case decode_option scan [] reads of
        (decoded, later) \<Rightarrow>
          (case ServeConn decoded of
             CloseConn why \<Rightarrow> Inl why
           | ServeCodec t \<Rightarrow> Inr (t, concat later)))"

text \<open>The client writes the option as \<open>json.Encoder\<close> does, with a line break, then what its codec writes.\<close>

definition client_bytes :: "byte list \<Rightarrow> byte list \<Rightarrow> byte list" where
  "client_bytes option_text frames = option_text @ [10] @ frames"

text \<open>\<open>Accept\<close>, on what the listener's \<open>Accept\<close> returns: the connections served, and the error that ended it.\<close>

fun Accept :: "('conn result) list \<Rightarrow> 'conn list \<times> goerror option" where
  "Accept [] = ([], None)"
| "Accept (Inl e # more_s) = ([], Some e)"
| "Accept (Inr conn # more_s) = (case Accept more_s of (served, e) \<Rightarrow> (conn # served, e))"

section \<open>Over HTTP\<close>

text \<open>The handlers of the process; registering a path twice panics.\<close>

datatype http_target = RpcServer | DebugPage | RegistryPage

type_synonym http_mux = "(gostring \<times> http_target) list"

definition http_Handle :: "gostring \<Rightarrow> http_target \<Rightarrow> http_mux \<Rightarrow> http_mux option" where
  "http_Handle path target mux = (if path \<in> fst ` set mux then None else Some (mux @ [(path, target)]))"

definition HandleHTTP :: "http_mux \<Rightarrow> http_mux option" where
  "HandleHTTP mux = Option.bind (http_Handle defaultRPCPath RpcServer mux) (http_Handle defaultDebugPath DebugPage)"

definition registryPath :: gostring where "registryPath = ''/_geerpc_/registry''"

definition RegistryHandleHTTP :: "gostring \<Rightarrow> http_mux \<Rightarrow> http_mux option" where
  "RegistryHandleHTTP path mux = http_Handle path RegistryPage mux"

text \<open>The first line a client that connects over HTTP writes, and how the client reads the answer.\<close>

definition connect_line :: gostring where
  "connect_line = ''CONNECT '' @ defaultRPCPath @ '' HTTP/1.0'' @ [CHR 0x0D, CHR 0x0A, CHR 0x0D, CHR 0x0A]"

definition http_line :: "gostring \<Rightarrow> (gostring \<times> gostring) option" where
  "http_line s =
     (case dropWhile (\<lambda>c. c \<noteq> CHR 0x0A) s of
        [] \<Rightarrow> None
      | _ # more_s \<Rightarrow>
          (let l = takeWhile (\<lambda>c. c \<noteq> CHR 0x0A) s in
           Some (if l \<noteq> [] \<and> last l = CHR 0x0D then butlast l else l, more_s)))"

lemma http_line_shorter:
  assumes "http_line s = Some (l, more_s)"
  shows "length more_s < length s"
proof -
  from assms obtain x where "dropWhile (\<lambda>c. c \<noteq> CHR 0x0A) s = x # more_s"
    by (auto simp: http_line_def Let_def split: list.splits)
  then have "length more_s < length (dropWhile (\<lambda>c. c \<noteq> CHR 0x0A) s)" by simp
  then show ?thesis using length_dropWhile_le [of "\<lambda>c. c \<noteq> CHR 0x0A" s] by simp
qed

text \<open>Method and path of a request line.\<close>

definition request_line :: "gostring \<Rightarrow> (gostring \<times> gostring) option" where
  "request_line s =
     (case http_line s of
        None \<Rightarrow> None
      | Some (l, more_s) \<Rightarrow>
          (case split_on CHR '' '' l of [m, path, proto] \<Rightarrow> Some (m, path) | _ \<Rightarrow> None))"

function http_headers :: "gostring \<Rightarrow> goerror option" where
  "http_headers s =
     (case http_line s of
        None \<Rightarrow> Some ErrUnexpectedEOF
      | Some (l, more_s) \<Rightarrow>
          if l = [] then None
          else if CHR '':'' \<in> set l then http_headers more_s
          else Some (''malformed MIME header line: '' @ l))"
  by pat_completeness auto
termination
  by (relation "measure length") (auto simp: http_line_shorter)

definition read_status :: "gostring \<Rightarrow> gostring result" where
  "read_status s =
     (case http_line s of
        None \<Rightarrow> Inl ErrUnexpectedEOF
      | Some (l, more_s) \<Rightarrow>
          (let proto = takeWhile (\<lambda>c. c \<noteq> CHR '' '') l;
               stat = dropWhile (\<lambda>c. c = CHR '' '') (dropWhile (\<lambda>c. c \<noteq> CHR '' '') l);
               code = takeWhile (\<lambda>c. c \<noteq> CHR '' '') stat in
           if CHR '' '' \<notin> set l then Inl (''malformed HTTP response '' @ l)
           else if length code \<noteq> 3 \<or> \<not> list_all (\<lambda>c. c \<in> set ''0123456789'') code then Inl (''malformed HTTP status code '' @ code)
           else if proto \<notin> {''HTTP/1.0'', ''HTTP/1.1''} then Inl (''malformed HTTP version '' @ proto)
           else (case http_headers more_s of Some e \<Rightarrow> Inl e | None \<Rightarrow> Inr stat)))"

text \<open>
  The answer as it is on the wire: the tunnel's line is written by the server itself; a rejection
  goes through \<open>net/http\<close>, which puts its status line and headers before the text.
\<close>

fun reply_wire :: "http_reply \<Rightarrow> gostring" where
  "reply_wire (Tunnel s) = s"
| "reply_wire (HijackFailed e) = []"
| "reply_wire (Rejected code s) =
     ''HTTP/1.0 405 Method Not Allowed'' @ [CHR 0x0D, CHR 0x0A] @ ''Content-Type: text/plain; charset=utf-8'' @ [CHR 0x0D, CHR 0x0A]
     @ [CHR 0x0D, CHR 0x0A] @ s"

section \<open>The debug page\<close>

text \<open>
  \<open>reflect.Type.String\<close> of a named type or a pointer, the escaping of \<open>html/template\<close> in text, and
  the page itself: the services in the order in which \<open>Range\<close> came upon them, the methods of
  each by name.
\<close>

fun type_text :: "go_type \<Rightarrow> gostring" where
  "type_text (GoType n pkg k el) =
     (case el of
        Some t \<Rightarrow> if k = KPtr then CHR ''*'' # type_text t else (if pkg = '''' then n else pkg @ ''.'' @ n)
      | None \<Rightarrow> if pkg = '''' then n else pkg @ ''.'' @ n)"

definition html_char :: "char \<Rightarrow> gostring" where
  "html_char c =
     (if c = CHR ''&'' then ''&amp;'' else if c = CHR ''<'' then ''&lt;'' else if c = CHR ''>'' then ''&gt;''
      else if c = CHR 0x22 then ''&#34;'' else if c = CHR 0x27 then ''&#39;'' else if c = CHR ''+'' then ''&#43;'' else [c])"

definition html_text :: "gostring \<Rightarrow> gostring" where
  "html_text s = concat (map html_char s)"

definition nl :: "nat \<Rightarrow> gostring" where
  "nl tabs = CHR 0x0A # replicate tabs (CHR 0x09)"

definition method_names :: "service \<Rightarrow> gostring list" where
  "method_names svc = sort (remdups (filter (\<lambda>n. svc_method svc n \<noteq> None) (map mt_name (svc_typ svc))))"

definition method_row :: "gostring \<Rightarrow> methodType \<Rightarrow> gostring" where
  "method_row n m =
     nl 3 @ ''<tr>'' @ nl 3 @ ''<td align=left font=fixed>'' @ html_text n @ ''('' @ html_text (type_text (ArgType m)) @ '', ''
     @ html_text (type_text (ReplyType m)) @ '') error</td>'' @ nl 3 @ ''<td align=center>'' @ nat_text (unat (NumCalls m))
     @ ''</td>'' @ nl 3 @ ''</tr>'' @ nl 2"

definition service_table :: "service \<Rightarrow> gostring" where
  "service_table svc =
     nl 1 @ ''<hr>'' @ nl 1 @ ''Service '' @ html_text (svc_name svc) @ nl 1 @ ''<hr>'' @ nl 2 @ ''<table>'' @ nl 2
     @ ''<th align=center>Method</th><th align=center>Calls</th>'' @ nl 2
     @ concat (map (\<lambda>n. case svc_method svc n of None \<Rightarrow> [] | Some m \<Rightarrow> method_row n m) (method_names svc))
     @ nl 2 @ ''</table>'' @ nl 1"

definition DebugServeHTTP :: "service list \<Rightarrow> gostring" where
  "DebugServeHTTP services =
     ''<html>'' @ nl 1 @ ''<body>'' @ nl 1 @ ''<title>GeeRPC Services</title>'' @ nl 1
     @ concat (map service_table services) @ nl 1 @ ''</body>'' @ nl 1 @ ''</html>''"

section \<open>Lemmas\<close>

text \<open>
  The bytes that come in one read with the end of the option are lost to the codec. \<open>read_ahead n\<close>
  is how many bytes beyond the first \<open>n\<close> the reads contain that bring the first \<open>n\<close>, and the
  reads after those.
\<close>

fun read_ahead :: "nat \<Rightarrow> byte list list \<Rightarrow> nat \<times> byte list list" where
  "read_ahead n [] = (0, [])"
| "read_ahead n (c # cs) = (if length c < n then read_ahead (n - length c) cs else (length c - n, cs))"

lemma read_ahead_append:
  "n \<le> length (concat cs) \<Longrightarrow> cs \<noteq> [] \<Longrightarrow> concat (snd (read_ahead n cs)) = drop (n + fst (read_ahead n cs)) (concat cs)"
proof (induction n cs rule: read_ahead.induct)
  case (2 n c cs)
  then show ?case by (cases "cs = []") auto
qed simp

text \<open>What the sources rely on in \<open>encoding/json\<close>: the value ends with its last byte, and not before.\<close>

definition option_wire :: "byte list \<Rightarrow> scanner \<Rightarrow> rpc_option \<Rightarrow> bool" where
  "option_wire text_bytes scan opt \<longleftrightarrow> text_bytes \<noteq> []
     \<and> (\<forall>more_s. scan (text_bytes @ more_s) = Some (Inr opt, more_s))
     \<and> (\<forall>k < length text_bytes. scan (take k text_bytes) = None)"

locale option_reader =
  fixes text_bytes :: "byte list" and scan :: scanner and opt :: rpc_option
  assumes wire: "option_wire text_bytes scan opt"
begin

lemma decode_reads_ahead:
  assumes "buf @ concat cs = text_bytes @ data" and "length buf < length text_bytes"
  shows "decode_option scan buf cs = (Inr opt, snd (read_ahead (length text_bytes - length buf) cs))"
  using assms
proof (induction cs arbitrary: buf)
  case Nil
  then have "length buf = length text_bytes + length data" by (metis append_Nil2 concat.simps(1) length_append)
  with Nil show ?case by simp
next
  case (Cons c cs)
  have split: "(buf @ c) @ concat cs = text_bytes @ data" using Cons.prems(1) by simp
  show ?case
  proof (cases "length (buf @ c) < length text_bytes")
    case True
    have "take (length (buf @ c)) (text_bytes @ data) = buf @ c" by (metis append_eq_conv_conj split)
    with True have "buf @ c = take (length (buf @ c)) text_bytes" by simp
    then have "scan (buf @ c) = None" using wire True unfolding option_wire_def by metis
    with Cons.IH [OF split True] True show ?thesis by (auto simp: diff_diff_eq)
  next
    case False
    then have "take (length text_bytes) (buf @ c) = text_bytes"
      using arg_cong [OF split, of "take (length text_bytes)"] by simp
    then have "buf @ c = text_bytes @ drop (length text_bytes) (buf @ c)" by (metis append_take_drop_id)
    then have "scan (buf @ c) = Some (Inr opt, drop (length text_bytes) (buf @ c))"
      using wire unfolding option_wire_def by metis
    with False show ?thesis by auto
  qed
qed

lemma served_bytes:
  assumes "opt_MagicNumber opt = MagicNumber" and "NewCodecFuncMap (opt_CodecType opt) = Some t"
    and "concat reads = client_bytes text_bytes frames"
  shows "serve_conn_bytes scan reads = Inr (t, drop (fst (read_ahead (length text_bytes) reads)) (10 # frames))"
proof -
  have r: "decode_option scan [] reads = (Inr opt, snd (read_ahead (length text_bytes) reads))"
    using decode_reads_ahead [of "[]" reads "10 # frames"] assms(3) wire by (simp add: client_bytes_def option_wire_def)
  have "concat (snd (read_ahead (length text_bytes) reads)) = drop (length text_bytes + fst (read_ahead (length text_bytes) reads)) (concat reads)"
    by (rule read_ahead_append) (use assms(3) in \<open>auto simp: client_bytes_def\<close>)
  with r assms(1,2) show ?thesis by (simp add: serve_conn_bytes_def ServeConn_def assms(3) client_bytes_def)
qed

end

text \<open>The default option as \<open>encoding/json\<close> writes it, and a scanner that ends an object at its brace.\<close>

definition json_quoted :: "gostring \<Rightarrow> gostring" where
  "json_quoted s = CHR 0x22 # s @ [CHR 0x22]"

definition option_text :: "rpc_option \<Rightarrow> byte list" where
  "option_text opt = string_bytes
     (''{'' @ json_quoted ''MagicNumber'' @ '':'' @ itoa (opt_MagicNumber opt) @ '',''
      @ json_quoted ''CodecType'' @ '':'' @ json_quoted (opt_CodecType opt) @ '',''
      @ json_quoted ''ConnectTimeout'' @ '':'' @ itoa (ConnectTimeout opt) @ '',''
      @ json_quoted ''HandleTimeout'' @ '':'' @ itoa (HandleTimeout opt) @ ''}'')"

definition brace :: byte where "brace = 125"

definition brace_scan :: scanner where
  "brace_scan buf =
     (if brace \<notin> set buf then None
      else (let t = takeWhile (\<lambda>b. b \<noteq> brace) buf @ [brace] in
            Some (if t = option_text DefaultOption then Inr DefaultOption else Inl ''invalid character'', drop (length t) buf)))"

lemma string_bytes_byte: "char_of (unat (of_char c :: byte)) = c"
  using bytes_string_bytes [of "[c]"] by (simp add: bytes_string_def string_bytes_def)

lemma string_bytes_no_char: "c \<notin> set s \<Longrightarrow> (of_char c :: byte) \<notin> set (string_bytes s)"
  unfolding string_bytes_def using string_bytes_byte by (auto dest: arg_cong [where f = "\<lambda>b. char_of (unat (b :: byte)) :: char"])

lemma option_text_ends:
  "\<exists>u. option_text DefaultOption = u @ [brace] \<and> brace \<notin> set u"
proof -
  let ?t = "\<lambda>opt. ''{'' @ json_quoted ''MagicNumber'' @ '':'' @ itoa (opt_MagicNumber opt) @ '',''
      @ json_quoted ''CodecType'' @ '':'' @ json_quoted (opt_CodecType opt) @ '',''
      @ json_quoted ''ConnectTimeout'' @ '':'' @ itoa (ConnectTimeout opt) @ '',''
      @ json_quoted ''HandleTimeout'' @ '':'' @ itoa (HandleTimeout opt)"
  have "option_text opt = string_bytes (?t opt) @ [brace]" for opt
    by (simp add: option_text_def string_bytes_def brace_def)
  moreover have "CHR ''}'' \<notin> set (?t DefaultOption)"
    using itoa_no_char [of "CHR ''}''"] by (simp add: json_quoted_def DefaultOption_def codec_type_text_def)
  then have "brace \<notin> set (string_bytes (?t DefaultOption))"
    using string_bytes_no_char [of "CHR ''}''"] by (simp add: brace_def)
  ultimately show ?thesis by blast
qed

lemma brace_wire: "option_wire (option_text DefaultOption) brace_scan DefaultOption"
proof -
  obtain u where u: "option_text DefaultOption = u @ [brace]" "brace \<notin> set u" using option_text_ends by blast
  have "brace_scan ((u @ [brace]) @ more_s) = Some (Inr DefaultOption, more_s)" for more_s
  proof -
    have "takeWhile (\<lambda>b. b \<noteq> brace) (u @ brace # more_s) = u"
      using u(2) by (metis (mono_tags, lifting) append_Nil2 takeWhile.simps(2) takeWhile_append2)
    then show ?thesis by (simp add: brace_scan_def u(1))
  qed
  moreover have "brace_scan (take k (u @ [brace])) = None" if "k < length (u @ [brace])" for k
    using that u(2) by (auto simp: brace_scan_def dest: in_set_takeD)
  ultimately show ?thesis by (simp add: option_wire_def u(1))
qed

interpretation default_wire: option_reader "option_text DefaultOption" brace_scan DefaultOption
  by unfold_locales (rule brace_wire)

section \<open>Properties\<close>

text \<open>
  The start of a connection depends on how the network cuts the bytes. The server finds the option
  and the codec, but the decoder that reads the option drops what it has read beyond it: of the
  line break and the requests behind the option the codec misses the bytes that came in one read
  with the option's end. So the first request arrives whole only if that read ends with the line
  break; it is lost when the client's first two writes arrive together.
\<close>

theorem handshake_reads_ahead:
  assumes "option_wire text_bytes scan opt" and "opt_MagicNumber opt = MagicNumber"
    and "NewCodecFuncMap (opt_CodecType opt) = Some t" and "concat reads = client_bytes text_bytes frames"
    and "frames \<noteq> []"
  shows "(\<exists>k. serve_conn_bytes scan reads = Inr (t, drop k (10 # frames)) \<and> (drop k (10 # frames) = frames \<longleftrightarrow> k = 1))
    \<and> (reads = [client_bytes text_bytes frames] \<longrightarrow> serve_conn_bytes scan reads = Inr (t, []))
    \<and> (\<forall>later. reads = (text_bytes @ [10]) # later \<longrightarrow> serve_conn_bytes scan reads = Inr (t, frames))"
proof -
  note served = option_reader.served_bytes [OF option_reader.intro [OF assms(1)] assms(2-4)]
  have "drop k (10 # frames) = frames \<longleftrightarrow> k = 1" for k
  proof
    assume "drop k (10 # frames) = frames"
    then have "Suc (length frames) - k = length frames" by (metis length_Cons length_drop)
    moreover have "0 < length frames" using assms(5) by simp
    ultimately show "k = 1" by linarith
  qed simp
  then have "\<exists>k. serve_conn_bytes scan reads = Inr (t, drop k (10 # frames)) \<and> (drop k (10 # frames) = frames \<longleftrightarrow> k = 1)"
    using served by blast
  moreover have "serve_conn_bytes scan reads = Inr (t, [])" if "reads = [client_bytes text_bytes frames]"
    using served that by (simp add: client_bytes_def)
  moreover have "serve_conn_bytes scan reads = Inr (t, frames)" if "reads = (text_bytes @ [10]) # later" for later
    using served that by simp
  ultimately show ?thesis by blast
qed

lemma handshake_reads_ahead_witness:
  "serve_conn_bytes brace_scan [client_bytes (option_text DefaultOption) [1, 2, 3]] = Inr (GobType, [])
   \<and> serve_conn_bytes brace_scan [option_text DefaultOption @ [10], [1, 2], [3]] = Inr (GobType, [1, 2, 3])"
proof -
  have opt: "opt_MagicNumber DefaultOption = MagicNumber" "NewCodecFuncMap (opt_CodecType DefaultOption) = Some GobType"
    by (simp_all add: DefaultOption_def NewCodecFuncMap_def codec_type_text_def)
  note h = handshake_reads_ahead [OF brace_wire opt, where frames = "[1, 2, 3]"]
  show ?thesis
    using h [of "[client_bytes (option_text DefaultOption) [1, 2, 3]]"] h [of "[option_text DefaultOption @ [10], [1, 2], [3]]"]
    by (simp add: client_bytes_def)
qed

lemma line_feed: "char_of (10 :: nat) = CHR 0x0A"
  by code_simp

text \<open>
  The HTTP entry fits the client. In a process without handlers on the two paths
  \<open>HandleHTTP\<close> installs them, once; the \<open>CONNECT\<close> request of \<open>NewHTTPClient\<close> goes to the RPC server's path; the answer
  the server writes on the hijacked connection is read by the client as the status it waits for,
  so that the client is the one \<open>NewClient\<close> makes; and on the answer to a request with any other
  method the client reports the status instead.
\<close>

theorem http_entry_connects:
  assumes "defaultRPCPath \<notin> fst ` set mux" and "defaultDebugPath \<notin> fst ` set mux"
  shows "\<exists>mux'. HandleHTTP mux = Some mux' \<and> HandleHTTP mux' = None
      \<and> (\<forall>p. map_of mux' p = (if p = defaultRPCPath then Some RpcServer else if p = defaultDebugPath then Some DebugPage else map_of mux p))
    \<and> request_line connect_line = Some (''CONNECT'', defaultRPCPath)
    \<and> NewHTTPClient None (read_status (reply_wire (ServeHTTP ''CONNECT'' None))) sent opt = NewClient sent opt
    \<and> (\<forall>m hijack. m \<noteq> ''CONNECT'' \<longrightarrow>
        NewHTTPClient None (read_status (reply_wire (ServeHTTP m hijack))) sent opt
          = Inl (''unexpected HTTP response: '' @ ''405 Method Not Allowed''))"
proof -
  let ?mux = "mux @ [(defaultRPCPath, RpcServer), (defaultDebugPath, DebugPage)]"
  have ne: "defaultRPCPath \<noteq> defaultDebugPath" by (simp add: defaultRPCPath_def defaultDebugPath_def)
  have h: "HandleHTTP mux = Some ?mux" "HandleHTTP ?mux = None"
    using assms ne by (auto simp: HandleHTTP_def http_Handle_def)
  have "map_of mux defaultRPCPath = None" "map_of mux defaultDebugPath = None" using assms by (simp_all add: map_of_eq_None_iff)
  then have "\<forall>p. map_of ?mux p = (if p = defaultRPCPath then Some RpcServer else if p = defaultDebugPath then Some DebugPage else map_of mux p)"
    using ne by (auto simp: map_add_def split: option.splits)
  moreover have "read_status (reply_wire (ServeHTTP ''CONNECT'' None)) = Inr connected"
    by (simp add: line_feed ServeHTTP_def read_status_def http_line_def http_headers.simps connected_def Let_def)
  moreover have "read_status (reply_wire (ServeHTTP m hijack)) = Inr ''405 Method Not Allowed''" if "m \<noteq> ''CONNECT''" for m hijack
    using that by (simp add: line_feed ServeHTTP_def read_status_def http_line_def http_headers.simps Let_def)
  moreover have "request_line connect_line = Some (''CONNECT'', defaultRPCPath)"
    by (simp add: request_line_def http_line_def connect_line_def defaultRPCPath_def Let_def)
  ultimately show ?thesis
    using h by (intro exI [of _ ?mux]) (simp add: NewHTTPClient_def connected_def)
qed

lemma http_entry_connects_witness:
  "\<exists>mux'. HandleHTTP [(registryPath, RegistryPage)] = Some mux' \<and> map_of mux' defaultRPCPath = Some RpcServer
     \<and> map_of mux' registryPath = Some RegistryPage"
proof -
  have "defaultRPCPath \<notin> fst ` set [(registryPath, RegistryPage)]" "defaultDebugPath \<notin> fst ` set [(registryPath, RegistryPage)]"
    by (simp_all add: defaultRPCPath_def defaultDebugPath_def registryPath_def)
  from http_entry_connects [OF this, of None DefaultOption] show ?thesis
    by (auto simp: defaultRPCPath_def defaultDebugPath_def registryPath_def)
qed

text \<open>Calls change nothing of a service but its counters.\<close>

lemma run_calls_typ [simp]: "svc_typ (run_calls body s cs) = svc_typ s" "svc_name (run_calls body s cs) = svc_name s"
  by (induction cs arbitrary: s) (auto simp: call_def Let_def split: option.split prod.split)

lemma run_calls_None: "svc_method s k = None \<Longrightarrow> svc_method (run_calls body s cs) k = None"
proof (induction cs arbitrary: s)
  case (Cons c cs)
  have "svc_method (fst (call body s m a r)) k = None" for m a r
    using Cons.prems by (auto simp: call_def Let_def split: option.split prod.split)
  with Cons.IH show ?case by (cases c) simp
qed simp

lemma register_loop_names:
  "register_loop ms tab k = Some m \<Longrightarrow> tab k = Some m \<or> (k \<in> mt_name ` set ms \<and> numCalls m = 0)"
proof (induction ms arbitrary: tab)
  case (Cons r ms)
  then show ?case by (fastforce simp: register_method_def split: option.splits if_splits)
qed simp

lemma new_service_entries:
  assumes "newService n ms = Inr s" and "svc_method s k = Some m"
  shows "k \<in> mt_name ` set (svc_typ s) \<and> numCalls m = 0"
  using assms by (auto simp: newService_def registerMethods_def dest!: register_loop_names split: if_splits)

lemma method_names_set: "newService n ms = Inr s \<Longrightarrow> set (method_names s) = dom (svc_method s)"
  using new_service_entries by (fastforce simp: method_names_def)

lemma run_calls_domain: "dom (svc_method (run_calls body s cs)) = dom (svc_method s)"
  using run_calls_None [of s _ body cs] service_counts_calls [of s _ _ body cs] by (auto simp: dom_def) (metis option.exhaust)

text \<open>
  The debug page is up to date: for a service made by \<open>newService\<close>, after any calls, its table
  lists exactly the methods that can be called, each once and in the order of their names, with
  the number of calls made to each so far, modulo \<open>2 ^ 64\<close>.
\<close>

theorem debug_page_up_to_date:
  assumes "newService n ms = Inr s"
  shows "service_table (run_calls body s cs) =
      nl 1 @ ''<hr>'' @ nl 1 @ ''Service '' @ html_text n @ nl 1 @ ''<hr>'' @ nl 2 @ ''<table>'' @ nl 2
      @ ''<th align=center>Method</th><th align=center>Calls</th>'' @ nl 2
      @ concat (map (\<lambda>k. method_row k ((the (svc_method s k))\<lparr>numCalls := of_nat (length (filter (\<lambda>c. fst c = k) cs))\<rparr>)) (method_names s))
      @ nl 2 @ ''</table>'' @ nl 1
    \<and> sorted (method_names s) \<and> distinct (method_names s) \<and> set (method_names s) = dom (svc_method s)"
proof -
  let ?s' = "run_calls body s cs"
  have "svc_method ?s' k \<noteq> None \<longleftrightarrow> svc_method s k \<noteq> None" for k
    using run_calls_domain [of body s cs] by (metis domIff)
  then have names: "method_names ?s' = method_names s" by (simp add: method_names_def)
  have row: "(case svc_method ?s' k of None \<Rightarrow> [] | Some m \<Rightarrow> method_row k m) =
      method_row k ((the (svc_method s k))\<lparr>numCalls := of_nat (length (filter (\<lambda>c. fst c = k) cs))\<rparr>)"
    if "k \<in> set (method_names s)" for k
  proof -
    from that method_names_set [OF assms] obtain m where m: "svc_method s k = Some m" by auto
    with service_counts_calls [OF m, of body cs] new_service_entries [OF assms m] show ?thesis by (simp add: NumCalls_def)
  qed
  have "svc_name s = n" using assms by (auto simp: newService_def registerMethods_def split: if_splits)
  moreover have rows: "map (\<lambda>k. case svc_method ?s' k of None \<Rightarrow> [] | Some m \<Rightarrow> method_row k m) (method_names s) =
      map (\<lambda>k. method_row k ((the (svc_method s k))\<lparr>numCalls := of_nat (length (filter (\<lambda>c. fst c = k) cs))\<rparr>)) (method_names s)"
    using row by (intro map_cong) auto
  moreover have "sorted (method_names s)" "distinct (method_names s)" by (simp_all add: method_names_def)
  ultimately show ?thesis unfolding service_table_def names rows run_calls_typ using method_names_set [OF assms] by simp
qed

lemma debug_page_up_to_date_witness:
  "set (method_names foo_service) = dom (svc_method foo_service)"
proof -
  have "newService ''Foo'' foo_methods = Inr foo_service" by (simp add: newService_def foo_service_def IsExported_def registerMethods_def)
  from debug_page_up_to_date [OF this, of "\<lambda>s m a r. (r, Ret None)" "[(''Sum'', VMap, VMap)]"] show ?thesis by blast
qed

end
