(* ===== verification/Rpc_Call.thy ===== *)
theory Rpc_Call
  imports Rpc_Client Serving "HOL-Library.Signed_Division"
begin

text \<open>
  What a call is worth: the worker of \<open>handleRequest\<close> (\<open>apps/pkg/geeRPC/server.go\<close>), which runs the method
  inside the interceptors and answers with the reply or the error, and the client that completes the
  call with the answer (\<open>client.go\<close>). Theory \<open>Serving\<close> leaves open what a handler returns, and theory
  \<open>Rpc_System\<close> what is in a response; here are the contents, on the path without a time-out. The
  example program \<open>apps/pkg/geeRPC/main/main.go\<close> is its instance.
\<close>

section \<open>The worker's function\<close>

text \<open>\<open>invalidRequest\<close>, and the handler that calls the method. The reply it fills in is part of the world.\<close>

definition invalidRequest :: go_value where
  "invalidRequest = VZero (GoType '''' '''' KStruct None)"

definition method_handler :: "method_body \<Rightarrow> request \<Rightarrow> (go_value \<times> 'v) handler" where
  "method_handler body rq = (\<lambda>i w.
     case call body (rq_svc rq) (mt_name (mt_method (rq_mtype rq))) (rq_argv rq) (fst (rest w)) of
       (svc, reply, res) \<Rightarrow> (w\<lparr>rest := (reply, snd (rest w))\<rparr>, res))"

text \<open>The header and body of the response; \<open>None\<close> when a panic leaves the handler, which ends the process.\<close>

definition run_worker ::
    "(go_value \<times> 'v) server \<Rightarrow> method_body \<Rightarrow> request \<Rightarrow> (go_value \<times> 'v) world \<Rightarrow>
     ((go_value \<times> 'v) world \<times> header \<times> go_value) option" where
  "run_worker srv body rq w =
     (let info = \<lparr>ci_ServiceMethod = ServiceMethod (rq_h rq), ci_Header = rq_h rq, ci_ReqArgs = rq_argv rq\<rparr> in
      case assemble (interceptors srv) (method_handler body rq) info (w\<lparr>rest := (rq_replyv rq, snd (rest w))\<rparr>) of
        (w', Panic p) \<Rightarrow> None
      | (w', Ret (Some e)) \<Rightarrow> Some (w', (rq_h rq)\<lparr>ErrorText := e\<rparr>, invalidRequest)
      | (w', Ret None) \<Rightarrow> Some (w', rq_h rq, fst (rest w')))"

text \<open>
  The client completes its call with the response; \<open>enc\<close> is the text the codec makes of a body and the other
  end reads again.
\<close>

definition answer_call ::
    "(go_value \<Rightarrow> gostring) \<Rightarrow> (go_value \<times> 'v) server \<Rightarrow> method_body \<Rightarrow> request \<Rightarrow> nat \<Rightarrow>
     (go_value \<times> 'v) world \<times> client \<Rightarrow> ((go_value \<times> 'v) world \<times> client) option" where
  "answer_call enc srv body rq n wc =
     (case wc of (w, c) \<Rightarrow>
        (case run_worker srv body rq w of
           None \<Rightarrow> None
         | Some (w', h, v) \<Rightarrow> Some (w', deliver h (Some n) (Inr (enc v)) c)))"

section \<open>Property\<close>

lemma deliver_result:
  "calls c n = Some k \<Longrightarrow> calls (deliver h (Some n) (Inr v) c) n =
     Some (if ErrorText h = '''' then finish None (k\<lparr>k_Reply := Some v\<rparr>) else finish (Some (ErrorText h)) k)"
  by (simp add: deliver_def on_call_def)

text \<open>What the worker leaves on a server with the logger and the recovery interceptor: the error is the method's or the panic's.\<close>

definition worker_error :: "outcome \<Rightarrow> goerror option" where
  "worker_error res = (case res of Ret err \<Rightarrow> err | Panic p \<Rightarrow> Some (''internal panic: '' @ p))"

definition worker_log :: "gostring \<Rightarrow> go_value \<Rightarrow> outcome \<Rightarrow> log_event list" where
  "worker_log sm argv res =
     CallStart sm argv # (case res of Ret _ \<Rightarrow> [] | Panic p \<Rightarrow> [PanicRecovered sm p]) @ [CallEnd sm (worker_error res)]"

lemma run_worker_result:
  assumes "interceptors srv = [LoggerInterceptor, RecoveryInterceptor]"
    and "svc_method (rq_svc rq) (mt_name (mt_method (rq_mtype rq))) = Some m"
    and "body (svc_name (rq_svc rq)) (mt_name (mt_method m)) (rq_argv rq) (rq_replyv rq) = (reply, res)"
    and "ErrorText (rq_h rq) = ''''"
  shows "\<exists>w'. run_worker srv body rq w =
      Some (w', (rq_h rq)\<lparr>ErrorText := case worker_error res of None \<Rightarrow> '''' | Some e \<Rightarrow> e\<rparr>,
            case worker_error res of None \<Rightarrow> reply | Some e \<Rightarrow> invalidRequest)
    \<and> log w' = log w @ worker_log (ServiceMethod (rq_h rq)) (rq_argv rq) res"
  using assms
  by (cases "rq_h rq") (auto simp: run_worker_def assemble_foldr LoggerInterceptor_def RecoveryInterceptor_def method_handler_def
      call_def log_line_def worker_error_def worker_log_def Let_def split: outcome.split option.split)

section \<open>The example program\<close>

record math_args =
  ma_A :: i64
  ma_B :: i64

text \<open>The two methods, on the argument and the field \<open>Result\<close>. \<open>int\<close> has 64 bits, and division rounds towards zero.\<close>

definition MathAdd :: "math_args \<Rightarrow> i64 \<Rightarrow> i64 \<times> outcome" where
  "MathAdd args result = (ma_A args + ma_B args, Ret None)"

definition MathDivide :: "math_args \<Rightarrow> i64 \<Rightarrow> i64 \<times> outcome" where
  "MathDivide args result =
     (if ma_B args = 0 then (result, Panic ''divide by zero error triggered intentionally!'')
      else (word_of_int (sint (ma_A args) sdiv sint (ma_B args)), Ret None))"

text \<open>\<open>args\<close> and \<open>reply\<close> are the values behind the two pointers.\<close>

definition math_body :: "(go_value \<Rightarrow> math_args) \<Rightarrow> (go_value \<Rightarrow> i64) \<Rightarrow> (i64 \<Rightarrow> go_value) \<Rightarrow> method_body" where
  "math_body args_of result_of reply_of s m argv replyv =
     apfst reply_of ((if m = ''Add'' then MathAdd else MathDivide) (args_of argv) (result_of replyv))"

definition math_type :: "gostring \<Rightarrow> go_type" where
  "math_type n = pointer_to (GoType n ''main'' KStruct None)"

definition math_methods :: "reflect_method list" where
  "math_methods =
     map (\<lambda>n. \<lparr>mt_name = n, mt_in = [math_type ''MathService'', math_type ''MathArgs'', math_type ''MathReply''],
                mt_out = [error_type]\<rparr>) [''Add'', ''Divide'']"

definition startServer :: "(go_value \<times> 'v) server" where
  "startServer = fst (Register ''MathService'' math_methods (server_Use [LoggerInterceptor, RecoveryInterceptor] NewServer))"

text \<open>
  \<open>client.Call\<close> in \<open>main\<close>, for the call \<open>n\<close>: the server finds the method or answers with the error. The
  client's number of a call is its sequence number here.
\<close>

definition demo_call ::
    "(go_value \<Rightarrow> gostring) \<Rightarrow> method_body \<Rightarrow> nat \<Rightarrow> gostring \<Rightarrow> go_value \<Rightarrow> (go_value \<times> 'v) world \<times> client \<Rightarrow>
     ((go_value \<times> 'v) world \<times> client) option" where
  "demo_call enc body n name argv wc =
     (let h = \<lparr>ServiceMethod = name, Seq = of_nat n, ErrorText = ''''\<rparr> in
      case findService (startServer :: (go_value \<times> 'v) server) name of
        Inl e \<Rightarrow> Some (fst wc, deliver (h\<lparr>ErrorText := e\<rparr>) (Some n) (Inr (enc invalidRequest)) (snd wc))
      | Inr (svc, m) \<Rightarrow>
          Option.bind (newReplyv m) (\<lambda>reply.
            answer_call enc startServer body \<lparr>rq_h = h, rq_svc = svc, rq_mtype = m, rq_argv = argv, rq_replyv = reply\<rparr> n wc))"

definition demo_main ::
    "(go_value \<Rightarrow> gostring) \<Rightarrow> method_body \<Rightarrow> (math_args \<Rightarrow> go_value) \<Rightarrow> (go_value \<times> 'v) world \<times> client \<Rightarrow>
     ((go_value \<times> 'v) world \<times> client) option" where
  "demo_main enc body arg_of wc =
     Option.bind (demo_call enc body 1 ''MathService.Add'' (arg_of \<lparr>ma_A = 10, ma_B = 20\<rparr>) wc)
       (demo_call enc body 2 ''MathService.Divide'' (arg_of \<lparr>ma_A = 10, ma_B = 0\<rparr>))"

definition math_entry :: "gostring \<Rightarrow> methodType" where
  "math_entry n = \<lparr>mt_method = \<lparr>mt_name = n, mt_in = [math_type ''MathService'', math_type ''MathArgs'', math_type ''MathReply''],
                     mt_out = [error_type]\<rparr>,
      ArgType = math_type ''MathArgs'', ReplyType = math_type ''MathReply'', numCalls = 0\<rparr>"

definition math_service :: service where
  "math_service = registerMethods \<lparr>svc_name = ''MathService'', svc_typ = math_methods, svc_method = Map.empty\<rparr>"

lemma math_service_new: "newService ''MathService'' math_methods = Inr math_service"
  by (simp add: newService_def math_service_def IsExported_def)

lemma math_registered: "Register ''MathService'' math_methods (server_Use ics NewServer) =
    (fst (Register ''MathService'' math_methods (server_Use ics NewServer)), Registered)"
  by (simp add: Register_def math_service_new NewServer_def server_Use_def)

lemma math_method_entry:
  assumes "m \<in> {''Add'', ''Divide''}"
  shows "svc_method math_service m = Some (math_entry m)"
proof -
  have "distinct (map mt_name math_methods)" by (simp add: math_methods_def)
  moreover have "\<exists>k \<in> set math_methods. mt_name k = m \<and> register_method k = Some (math_entry m)"
    using assms by (auto simp: math_methods_def register_method_Some math_entry_def math_type_def pointer_to_def
        isExportedOrBuiltinType_def)
  ultimately show ?thesis
    unfolding math_service_def registerMethods_def service.simps using register_loop_Some by blast
qed

lemma startServer_serves:
  fixes srv :: "(go_value \<times> 'v) server"
  assumes "srv = startServer" and "m \<in> {''Add'', ''Divide''}"
  shows "findService srv (''MathService'' @ CHR ''.'' # m) = Inr (math_service, math_entry m)"
proof -
  have "CHR ''.'' \<notin> set m" using assms(2) by auto
  moreover have "serviceMap srv ''MathService'' = Some math_service"
    by (simp add: assms(1) startServer_def Register_def math_service_new NewServer_def server_Use_def math_service_def registerMethods_def)
  ultimately show ?thesis
    using findService_dotted [of m srv "''MathService''"] math_method_entry [OF assms(2)] by simp
qed

lemma startServer_interceptors: "interceptors startServer = [LoggerInterceptor, RecoveryInterceptor]"
  by (simp add: startServer_def Register_def math_service_new NewServer_def server_Use_def Use_def math_service_def registerMethods_def)

section \<open>Properties\<close>

lemma answer_call_result:
  assumes "interceptors srv = [LoggerInterceptor, RecoveryInterceptor]"
    and "svc_method (rq_svc rq) (mt_name (mt_method (rq_mtype rq))) = Some m"
    and "body (svc_name (rq_svc rq)) (mt_name (mt_method m)) (rq_argv rq) (rq_replyv rq) = (reply, res)"
    and "ErrorText (rq_h rq) = ''''" and "calls c n = Some k"
  shows "\<exists>w' c'. answer_call enc srv body rq n (w, c) = Some (w', c')
    \<and> log w' = log w @ worker_log (ServiceMethod (rq_h rq)) (rq_argv rq) res
    \<and> calls c' = (calls c)(n \<mapsto>
        (case worker_error res of
           None \<Rightarrow> finish None (k\<lparr>k_Reply := Some (enc reply)\<rparr>)
         | Some e \<Rightarrow> if e = '''' then finish None (k\<lparr>k_Reply := Some (enc invalidRequest)\<rparr>) else finish (Some e) k))"
proof -
  obtain w' where "run_worker srv body rq w =
      Some (w', (rq_h rq)\<lparr>ErrorText := case worker_error res of None \<Rightarrow> '''' | Some e \<Rightarrow> e\<rparr>,
            case worker_error res of None \<Rightarrow> reply | Some e \<Rightarrow> invalidRequest)"
    and "log w' = log w @ worker_log (ServiceMethod (rq_h rq)) (rq_argv rq) res"
    using run_worker_result [where body = body, OF assms(1-4)] by blast
  then show ?thesis using assms(5) by (simp add: answer_call_def deliver_def on_call_def split: option.split)
qed


lemma demo_call_answer:
  fixes w :: "(go_value \<times> 'v) world"
  assumes m: "m \<in> {''Add'', ''Divide''}"
    and body: "body ''MathService'' m argv (VPtr (VZero (GoType ''MathReply'' ''main'' KStruct None))) = (reply, res)"
    and k: "calls c n = Some k"
  shows "\<exists>w' c'. demo_call enc body n (''MathService'' @ CHR ''.'' # m) argv (w, c) = Some (w', c')
    \<and> calls c' = (calls c)(n \<mapsto>
        (case worker_error res of
           None \<Rightarrow> finish None (k\<lparr>k_Reply := Some (enc reply)\<rparr>)
         | Some e \<Rightarrow> if e = '''' then finish None (k\<lparr>k_Reply := Some (enc invalidRequest)\<rparr>) else finish (Some e) k))"
proof -
  let ?name = "''MathService'' @ CHR ''.'' # m"
  let ?rq = "\<lparr>rq_h = \<lparr>ServiceMethod = ?name, Seq = of_nat n, ErrorText = ''''\<rparr>, rq_svc = math_service, rq_mtype = math_entry m,
      rq_argv = argv, rq_replyv = VPtr (VZero (GoType ''MathReply'' ''main'' KStruct None))\<rparr>"
  have "newReplyv (math_entry m) = Some (rq_replyv ?rq)"
    by (simp add: newReplyv_def math_entry_def math_type_def pointer_to_def Elem_def)
  then have "demo_call enc body n ?name argv (w, c) = answer_call enc startServer body ?rq n (w, c)"
    unfolding demo_call_def Let_def startServer_serves [OF refl m] by simp
  moreover have "svc_method (rq_svc ?rq) (mt_name (mt_method (rq_mtype ?rq))) = Some (math_entry m)"
    "body (svc_name (rq_svc ?rq)) (mt_name (mt_method (math_entry m))) (rq_argv ?rq) (rq_replyv ?rq) = (reply, res)"
    using math_method_entry [OF m] body by (simp_all add: math_entry_def math_service_def registerMethods_def)
  from answer_call_result [where body = body and w = w and enc = enc, OF startServer_interceptors this _ k]
  have "\<exists>w' c'. answer_call enc startServer body ?rq n (w, c) = Some (w', c')
    \<and> calls c' = (calls c)(n \<mapsto>
        (case worker_error res of
           None \<Rightarrow> finish None (k\<lparr>k_Reply := Some (enc reply)\<rparr>)
         | Some e \<Rightarrow> if e = '''' then finish None (k\<lparr>k_Reply := Some (enc invalidRequest)\<rparr>) else finish (Some e) k))"
    by auto
  ultimately show ?thesis by simp
qed


text \<open>The example program prints \<open>30\<close> for the first call and the text of the panic for the second.\<close>

theorem demo_outcome:
  fixes w :: "(go_value \<times> 'v) world"
  assumes "\<And>a. args_of (arg_of a) = a" and "calls c 1 = Some k1" and "calls c 2 = Some k2"
  shows "\<exists>w' c'. demo_main enc (math_body args_of result_of reply_of) arg_of (w, c) = Some (w', c')
    \<and> calls c' 1 = Some (finish None (k1\<lparr>k_Reply := Some (enc (reply_of 30))\<rparr>))
    \<and> calls c' 2 = Some (finish (Some ''internal panic: divide by zero error triggered intentionally!'') k2)"
proof -
  let ?body = "math_body args_of result_of reply_of"
  let ?zero = "VPtr (VZero (GoType ''MathReply'' ''main'' KStruct None))"
  have "?body ''MathService'' ''Add'' (arg_of \<lparr>ma_A = 10, ma_B = 20\<rparr>) ?zero = (reply_of 30, Ret None)"
    by (simp add: math_body_def MathAdd_def assms(1))
  from demo_call_answer [where body = ?body and enc = enc and w = w, OF _ this assms(2)] obtain w1 c1 where
    add: "demo_call enc ?body 1 ''MathService.Add'' (arg_of \<lparr>ma_A = 10, ma_B = 20\<rparr>) (w, c) = Some (w1, c1)"
    and c1: "calls c1 = (calls c)(1 \<mapsto> finish None (k1\<lparr>k_Reply := Some (enc (reply_of 30))\<rparr>))"
    by (auto simp: worker_error_def)
  have divide: "?body ''MathService'' ''Divide'' (arg_of \<lparr>ma_A = 10, ma_B = 0\<rparr>) ?zero =
      (reply_of (result_of ?zero), Panic ''divide by zero error triggered intentionally!'')"
    by (simp add: math_body_def MathDivide_def assms(1))
  have k2: "calls c1 2 = Some k2" using assms(3) by (simp add: c1)
  from demo_call_answer [where body = ?body and enc = enc and w = w1, OF _ divide k2] obtain w2 c2 where
    "demo_call enc ?body 2 ''MathService.Divide'' (arg_of \<lparr>ma_A = 10, ma_B = 0\<rparr>) (w1, c1) = Some (w2, c2)"
    "calls c2 = (calls c1)(2 \<mapsto> finish (Some ''internal panic: divide by zero error triggered intentionally!'') k2)"
    by (auto simp: worker_error_def)
  with add c1 show ?thesis by (simp add: demo_main_def)
qed

end
