(* ===== verification/Rpc_Net.thy ===== *)
theory Rpc_Net
  imports Registry XClient
begin

text \<open>
  Finding a server through the registry: the registry of \<open>apps/pkg/geeRPC/registry/registry.go\<close>, a
  \<open>GeeRegistryDiscovery\<close> (\<open>xclient/discovery_gee.go\<close>) that asks it, and the goroutines that call
  through one \<open>XClient\<close> (\<open>xclient/xclient.go\<close>), as one system under one clock.

  A call takes the discovery's mutex twice, once in \<open>Refresh\<close> and once in the embedded \<open>Get\<close>, so
  calls interleave there: a phase of a call is what it does between two actions on shared state.
  While a call is \<open>Refreshing\<close> or has \<open>Fetched\<close> an answer it holds the mutex; the times it carries
  are its reading for the staleness test and, once it has asked, the time the registry answered.
\<close>

section \<open>The system\<close>

datatype 'v call_phase =
    Entering "gostring option"
  | Refreshing time "gostring option"
  | Fetched time "gostring option" time "gostring result"
  | Selecting time "gostring option"
  | Dialling time gostring
  | Returned "'v result"

text \<open>
  \<open>net_reqs\<close> and \<open>net_delay\<close> record what happened: the requests the registry served for others
  with their times, and the longest time an answer, or the news that there is none, took to end a
  refresh.
\<close>

record ('g, 'v) rpc_net =
  net_clock :: time
  net_registry :: GeeRegistry
  net_discovery :: "'g gee_discovery"
  net_xclient :: xclient
  net_calls :: "'v call_phase list"
  net_reqs :: "(http_request \<times> time) list"
  net_delay :: time

definition net_start ::
    "('g \<Rightarrow> int \<Rightarrow> 'g \<times> int) \<Rightarrow> 'g \<Rightarrow> time \<Rightarrow> time \<Rightarrow> gostring \<Rightarrow> time \<Rightarrow> SelectMode \<Rightarrow> rpc_option option
     \<Rightarrow> ('g, 'v) rpc_net" where
  "net_start intn g now regTimeout addr t mode opt =
     \<lparr>net_clock = now, net_registry = NewRegistry regTimeout,
      net_discovery = NewGeeRegistryDiscovery intn g addr t, net_xclient = NewXClient mode opt,
      net_calls = [], net_reqs = [], net_delay = 0\<rparr>"

definition in_refresh :: "'v call_phase \<Rightarrow> bool" where
  "in_refresh p = (case p of Refreshing t key \<Rightarrow> True | Fetched t key t1 ans \<Rightarrow> True | _ \<Rightarrow> False)"

definition lock_free :: "('g, 'v) rpc_net \<Rightarrow> bool" where
  "lock_free n = (\<not> list_ex in_refresh (net_calls n))"

text \<open>\<open>http.Get(d.registry)\<close>, and what \<open>Refresh\<close> reads of the response.\<close>

definition get_request :: http_request where
  "get_request = \<lparr>Method = ''GET'', Header = Map.empty\<rparr>"

definition servers_header :: "http_response \<Rightarrow> gostring" where
  "servers_header resp = header_get (resp_header resp) ''X-Geerpc-Servers''"

text \<open>The second half of \<open>Refresh\<close>: the call has read the clock and, if it asked, has its answer.\<close>

definition refresh_env :: "time \<Rightarrow> gostring result \<Rightarrow> time \<Rightarrow> registry_env" where
  "refresh_env t ans later = \<lparr>env_now = t, env_answer = ans, env_later = later\<rparr>"

definition after_refresh :: "time \<Rightarrow> gostring option \<Rightarrow> goerror option \<Rightarrow> 'v call_phase" where
  "after_refresh t key err = (case err of None \<Rightarrow> Selecting t key | Some e \<Rightarrow> Returned (Inl e))"

definition after_select :: "time \<Rightarrow> gostring result \<Rightarrow> 'v call_phase" where
  "after_select t r = (case r of Inl e \<Rightarrow> Returned (Inl e) | Inr a \<Rightarrow> Dialling t a)"

abbreviation at_call :: "nat \<Rightarrow> 'v call_phase \<Rightarrow> ('g, 'v) rpc_net \<Rightarrow> bool" where
  "at_call i p n \<equiv> i < length (net_calls n) \<and> net_calls n ! i = p"

abbreviation goes_to :: "nat \<Rightarrow> 'v call_phase \<Rightarrow> ('g, 'v) rpc_net \<Rightarrow> ('g, 'v) rpc_net" where
  "goes_to i p n \<equiv> n\<lparr>net_calls := (net_calls n)[i := p]\<rparr>"

text \<open>
  One step: time passes, anybody sends the registry a request, or a call goes on. An answer of
  the registry can be lost on its way, and a request can fail before it arrives. The network, the
  outcome of the call on the connection and the end of connections are free.
\<close>

inductive net_step :: "('g \<Rightarrow> int \<Rightarrow> 'g \<times> int) \<Rightarrow> ('g, 'v) rpc_net \<Rightarrow> ('g, 'v) rpc_net \<Rightarrow> bool"
  for intn :: "'g \<Rightarrow> int \<Rightarrow> 'g \<times> int" where
  net_tick: "net_clock n \<le> t \<Longrightarrow> net_step intn n (n\<lparr>net_clock := t\<rparr>)"
| net_request: "\<lbrakk>\<forall>a. net_clock n \<le> nows a; RegistryServeHTTP (net_clock n) nows req (net_registry n) = (resp, r')\<rbrakk>
    \<Longrightarrow> net_step intn n (n\<lparr>net_registry := r', net_reqs := (req, net_clock n) # net_reqs n\<rparr>)"
| net_enter: "net_step intn n (n\<lparr>net_calls := net_calls n @ [Entering key]\<rparr>)"
| net_lock: "\<lbrakk>at_call i (Entering key) n; lock_free n\<rbrakk>
    \<Longrightarrow> net_step intn n (goes_to i (Refreshing (net_clock n) key) n)"
| net_fresh: "\<lbrakk>at_call i (Refreshing t key) n; t < lastUpdate (net_discovery n) + timeout (net_discovery n)\<rbrakk>
    \<Longrightarrow> net_step intn n (goes_to i (Selecting t key) n)"
| net_fetch: "\<lbrakk>at_call i (Refreshing t key) n; lastUpdate (net_discovery n) + timeout (net_discovery n) \<le> t;
      \<forall>a. net_clock n \<le> nows a; RegistryServeHTTP (net_clock n) nows get_request (net_registry n) = (resp, r')\<rbrakk>
    \<Longrightarrow> net_step intn n
      ((goes_to i (Fetched t key (net_clock n) (Inr (servers_header resp))) n)\<lparr>net_registry := r'\<rparr>)"
| net_unreached: "\<lbrakk>at_call i (Refreshing t key) n; lastUpdate (net_discovery n) + timeout (net_discovery n) \<le> t\<rbrakk>
    \<Longrightarrow> net_step intn n (goes_to i (Fetched t key (net_clock n) (Inl err)) n)"
| net_lost: "at_call i (Fetched t key t1 ans) n \<Longrightarrow> net_step intn n (goes_to i (Fetched t key t1 (Inl err)) n)"
| net_refreshed: "\<lbrakk>at_call i (Fetched t key t1 ans) n;
      GeeRefresh (refresh_env t ans (net_clock n)) (net_discovery n) = (d', err)\<rbrakk>
    \<Longrightarrow> net_step intn n
      ((goes_to i (after_refresh t key err) n)\<lparr>net_discovery := d', net_delay := max (net_delay n) (net_clock n - t1)\<rparr>)"
| net_select: "\<lbrakk>at_call i (Selecting t key) n; lock_free n;
      route (MultiGet intn) (xc_mode (net_xclient n)) key (net_discovery n) = (d', r)\<rbrakk>
    \<Longrightarrow> net_step intn n ((goes_to i (after_select t r) n)\<lparr>net_discovery := d'\<rparr>)"
| net_dial: "\<lbrakk>at_call i (Dialling t a) n; xc_call net rpc a (net_xclient n) = (xc', r)\<rbrakk>
    \<Longrightarrow> net_step intn n ((goes_to i (Returned r) n)\<lparr>net_xclient := xc'\<rparr>)"
| net_broken: "net_step intn n (n\<lparr>net_xclient := (net_xclient n)
      \<lparr>xc_heap := (xc_heap (net_xclient n))[j := (xc_heap (net_xclient n) ! j)\<lparr>shutdown := True\<rparr>]\<rparr>\<rparr>)"
| net_closed: "net_step intn n (n\<lparr>net_xclient := XClose (net_xclient n)\<rparr>)"

inductive net_reachable :: "('g \<Rightarrow> int \<Rightarrow> 'g \<times> int) \<Rightarrow> ('g, 'v) rpc_net \<Rightarrow> ('g, 'v) rpc_net \<Rightarrow> bool"
  for intn :: "'g \<Rightarrow> int \<Rightarrow> 'g \<times> int" and n0 :: "('g, 'v) rpc_net" where
  net_init: "net_reachable intn n0 n0"
| net_next: "\<lbrakk>net_reachable intn n0 n; net_step intn n n'\<rbrakk> \<Longrightarrow> net_reachable intn n0 n'"


section \<open>What the registry knows it was told\<close>

text \<open>The address a request announces, as the registry reads it, and the servers a client makes of it.\<close>

definition announced_addr :: "http_request \<Rightarrow> gostring option" where
  "announced_addr req =
     (let addr = header_get (Header req) ''X-Geerpc-Servers'' in
      if Method req = ''POST'' \<and> addr \<noteq> '''' then Some addr else None)"

definition announces :: "http_request \<Rightarrow> gostring \<Rightarrow> bool" where
  "announces req a = (case announced_addr req of None \<Rightarrow> False | Some addr \<Rightarrow> a \<in> set (parse_servers addr))"

lemma heartbeat_announces_nothing: "\<not> announces (heartbeat_request b) a"
  by (simp add: announces_def announced_addr_def heartbeat_request_def header_get_def)

lemma split_on_append_sep: "split_on c (xs @ c # ys) = split_on c xs @ split_on c ys"
proof (induction xs)
  case (Cons x xs)
  then show ?case by (cases "split_on c xs") auto
qed simp

lemma parse_servers_append: "parse_servers (xs @ CHR '','' # ys) = parse_servers xs @ parse_servers ys"
  by (simp add: parse_servers_def split_on_append_sep)

lemma parse_servers_joined: "parse_servers (join_with CHR '','' as) = concat (map parse_servers as)"
  by (induction "CHR '',''" as rule: join_with.induct)
    (simp_all add: parse_servers_append, simp add: parse_servers_def trim_space_def)

text \<open>What every request keeps, and where an entry comes from.\<close>

lemma RegistryServeHTTP_timeout:
  "RegistryServeHTTP now nows req r = (resp, r') \<Longrightarrow> reg_timeout r' = reg_timeout r"
  by (auto simp: RegistryServeHTTP_def aliveServers_filter putServer_def Let_def split: if_splits option.splits)

lemma RegistryServeHTTP_inv:
  assumes "reg_inv r" and "RegistryServeHTTP now nows req r = (resp, r')"
  shows "reg_inv r'"
  using assms reg_inv_put [OF assms(1)] reg_inv_alive [OF assms(1), of nows]
  by (auto simp: RegistryServeHTTP_def Let_def split: if_splits prod.splits)

definition entry_since :: "GeeRegistry \<Rightarrow> gostring \<Rightarrow> time \<Rightarrow> bool" where
  "entry_since r a s \<longleftrightarrow> map_option start (map_of (reg_servers r) a) = Some s"

lemma entry_since_put: "entry_since (putServer now addr r) a s \<longleftrightarrow> (if a = addr then s = now else entry_since r a s)"
  by (auto simp: entry_since_def putServer_start simp del: map_option_eq_Some)

lemma entry_since_alive:
  assumes "reg_inv r" and "entry_since (snd (aliveServers nows r)) a s"
  shows "entry_since r a s"
proof -
  have "distinct (map fst (reg_servers r))" using assms(1) by (simp add: inv_defs)
  moreover have "map_of (filter p es) a = Some it \<Longrightarrow> map_of es a = Some it" if "distinct (map fst es)" for p it and es :: "(gostring \<times> ServerItem) list"
    using that by (metis (no_types, lifting) filter_is_subset map_of_SomeD map_of_is_SomeI subsetD)
  ultimately show ?thesis using assms(2) by (auto simp: entry_since_def aliveServers_filter)
qed

lemma entry_since_served:
  assumes "reg_inv r" and "RegistryServeHTTP now nows req r = (resp, r')" and "entry_since r' a s"
  shows "entry_since r a s \<or> (announced_addr req = Some a \<and> s = now)"
  using assms entry_since_alive [OF assms(1), of nows a s]
  by (auto simp: RegistryServeHTTP_def announced_addr_def Let_def entry_since_put split: if_splits prod.splits)

text \<open>Each server on the list of an answer has an entry that had not run out.\<close>

lemma listed_since:
  assumes "reg_inv r" and "RegistryServeHTTP now nows get_request r = (resp, r')" and "\<forall>a. now \<le> nows a"
    and "a \<in> set (parse_servers (servers_header resp))"
  shows "\<exists>addr s. entry_since r addr s \<and> a \<in> set (parse_servers addr) \<and> (reg_timeout r = 0 \<or> now < s + reg_timeout r)"
proof -
  have "servers_header resp = join_with CHR '','' (fst (aliveServers nows r))"
    using assms(2) by (auto simp: RegistryServeHTTP_def servers_header_def header_get_def get_request_def split: prod.splits)
  with assms(4) obtain addr where addr: "addr \<in> set (fst (aliveServers nows r))" "a \<in> set (parse_servers addr)"
    by (auto simp: parse_servers_joined)
  then obtain it where it: "map_of (reg_servers r) addr = Some it"
    "reg_timeout r = 0 \<or> nows addr < start it + reg_timeout r"
    by (auto simp: registry_alive_set [OF assms(1)])
  then have "reg_timeout r = 0 \<or> now < start it + reg_timeout r" using assms(3) by (meson order.strict_trans1)
  with it(1) addr(2) show ?thesis by (auto simp: entry_since_def)
qed


section \<open>Invariants\<close>

text \<open>Somebody announced \<open>a\<close>, and the announcement had not run out at \<open>t\<close>, give or take \<open>late\<close>.\<close>

definition told :: "('g, 'v) rpc_net \<Rightarrow> time \<Rightarrow> time \<Rightarrow> gostring \<Rightarrow> bool" where
  "told n late t a \<longleftrightarrow> (\<exists>(req, s) \<in> set (net_reqs n). announces req a
     \<and> (reg_timeout (net_registry n) = 0 \<or> t < s + reg_timeout (net_registry n) + late))"

definition registry_told :: "('g, 'v) rpc_net \<Rightarrow> bool" where
  "registry_told n \<longleftrightarrow> (\<forall>addr s. entry_since (net_registry n) addr s \<longrightarrow>
     (\<exists>req. (req, s) \<in> set (net_reqs n) \<and> announced_addr req = Some addr))"

definition phase_told :: "('g, 'v) rpc_net \<Rightarrow> 'v call_phase \<Rightarrow> bool" where
  "phase_told n p \<longleftrightarrow>
     (case p of
        Refreshing t key \<Rightarrow> t \<le> net_clock n
      | Fetched t key t1 ans \<Rightarrow> t \<le> net_clock n
          \<and> (\<forall>h. ans = Inr h \<longrightarrow> (\<forall>a \<in> set (parse_servers h). told n 0 t1 a))
      | Selecting t key \<Rightarrow> t < lastUpdate (net_discovery n) + timeout (net_discovery n)
          \<and> t \<le> net_clock n
      | Dialling t a \<Rightarrow>
          if xc_mode (net_xclient n) = ConsistentHash then a = ''''
          else told n (timeout (net_discovery n) + net_delay n) t a
      | _ \<Rightarrow> True)"

definition net_inv :: "('g, 'v) rpc_net \<Rightarrow> bool" where
  [inv_defs]: "net_inv n \<longleftrightarrow> reg_inv (net_registry n) \<and> registry_told n \<and> ring_never_built (net_discovery n)
     \<and> 0 < timeout (net_discovery n)
     \<and> (\<forall>a \<in> set (servers (net_discovery n)). told n (net_delay n) (lastUpdate (net_discovery n)) a)
     \<and> (\<forall>p \<in> set (net_calls n). phase_told n p)"

text \<open>What is known of the requests does not get lost.\<close>

lemma told_mono:
  assumes "told n late t a" and "set (net_reqs n) \<subseteq> set (net_reqs n')"
    and "reg_timeout (net_registry n') = reg_timeout (net_registry n)" and "t' - late' \<le> t - late"
  shows "told n' late' t' a"
proof -
  from assms(1) obtain req s where r: "(req, s) \<in> set (net_reqs n)" "announces req a"
    "reg_timeout (net_registry n) = 0 \<or> t < s + reg_timeout (net_registry n) + late"
    by (auto simp: told_def)
  then have "(req, s) \<in> set (net_reqs n')" using assms(2) by blast
  moreover from r(3) assms(4) have "reg_timeout (net_registry n) = 0 \<or> t' < s + reg_timeout (net_registry n) + late'"
    by linarith
  ultimately show ?thesis unfolding told_def assms(3) using r(2) by blast
qed

lemma told_calls [simp]:
  "told (n\<lparr>net_calls := cs\<rparr>) = told n" "told (n\<lparr>net_discovery := d\<rparr>) = told n"
  "told (n\<lparr>net_xclient := xc\<rparr>) = told n" "told (n\<lparr>net_clock := t\<rparr>) = told n"
  "told (n\<lparr>net_delay := t\<rparr>) = told n"
  by (simp_all add: told_def fun_eq_iff)

lemma phase_told_calls [simp]: "phase_told (n\<lparr>net_calls := cs\<rparr>) p = phase_told n p"
  by (cases p) (simp_all add: phase_told_def)

lemma registry_told_frame [simp]:
  "registry_told (n\<lparr>net_calls := cs\<rparr>) = registry_told n" "registry_told (n\<lparr>net_discovery := d\<rparr>) = registry_told n"
  "registry_told (n\<lparr>net_xclient := xc\<rparr>) = registry_told n" "registry_told (n\<lparr>net_clock := t\<rparr>) = registry_told n"
  "registry_told (n\<lparr>net_delay := t\<rparr>) = registry_told n"
  by (simp_all add: registry_told_def)

text \<open>The phase of a call stays true when the others go on.\<close>

lemma phase_told_mono:
  assumes "phase_told n p" and "set (net_reqs n) \<subseteq> set (net_reqs n')"
    and "reg_timeout (net_registry n') = reg_timeout (net_registry n)" and "net_clock n \<le> net_clock n'"
    and "lastUpdate (net_discovery n') \<in> {lastUpdate (net_discovery n), net_clock n'}"
    and "timeout (net_discovery n') = timeout (net_discovery n)" and "net_delay n \<le> net_delay n'"
    and "0 < timeout (net_discovery n)"
    and "xc_mode (net_xclient n') = xc_mode (net_xclient n)"
  shows "phase_told n' p"
proof (cases p)
  case (Fetched t key t1 ans)
  have "told n 0 t1 a \<Longrightarrow> told n' 0 t1 a" for a
    by (rule told_mono [OF _ assms(2,3) order_refl])
  with Fetched assms(1,4) show ?thesis by (auto simp: phase_told_def)
next
  case (Dialling t a)
  have "told n (timeout (net_discovery n) + net_delay n) t a \<Longrightarrow> told n' (timeout (net_discovery n') + net_delay n') t a"
    by (erule told_mono [OF _ assms(2,3)]) (use assms(6,7) in linarith)
  with Dialling assms(1,9) show ?thesis by (auto simp: phase_told_def)
qed (use assms in \<open>auto simp: phase_told_def\<close>)

lemma phases_update: "\<forall>p \<in> set cs. P p \<Longrightarrow> P q \<Longrightarrow> \<forall>p \<in> set (cs[i := q]). P p"
  by (metis in_set_conv_nth length_list_update nth_list_update_eq nth_list_update_neq)

lemma xc_mode_dial [simp]: "xc_mode (fst (xc_dial net a xc)) = xc_mode xc"
  by (simp add: xc_dial_def dial_new_def split: option.splits sum.splits prod.splits)

lemma xc_mode_call: "xc_call net rpc a xc = (xc', r) \<Longrightarrow> xc_mode xc' = xc_mode xc"
  using xc_mode_dial [of net a xc]
  by (auto simp: xc_call_def simp del: xc_mode_dial split: prod.splits sum.splits)

lemma xc_mode_close_loop: "xc_mode (close_loop al xc) = xc_mode xc"
  by (induction al xc rule: close_loop.induct) simp_all

lemma xc_mode_XClose [simp]: "xc_mode (XClose xc) = xc_mode xc"
  by (simp add: XClose_def xc_mode_close_loop)


text \<open>
  A step that brings one call to the phase \<open>q\<close>: it is enough to look at that phase, at the list
  and at the registry.
\<close>

lemma net_inv_move:
  assumes inv: "net_inv n"
    and frame: "set (net_reqs n) \<subseteq> set (net_reqs n')"
      "reg_timeout (net_registry n') = reg_timeout (net_registry n)" "net_clock n \<le> net_clock n'"
      "lastUpdate (net_discovery n') \<in> {lastUpdate (net_discovery n), net_clock n'}"
      "timeout (net_discovery n') = timeout (net_discovery n)" "net_delay n \<le> net_delay n'"
      "xc_mode (net_xclient n') = xc_mode (net_xclient n)"
    and parts: "reg_inv (net_registry n')" "registry_told n'" "ring_never_built (net_discovery n')"
    and listed: "\<forall>a \<in> set (servers (net_discovery n')). told n' (net_delay n') (lastUpdate (net_discovery n')) a"
    and calls: "set (net_calls n') \<subseteq> insert q (set (net_calls n))" and q: "phase_told n' q"
  shows "net_inv n'"
proof -
  have "phase_told n' p" if "p \<in> set (net_calls n')" for p
  proof (cases "p = q")
    case False
    with that calls inv have "phase_told n p" by (auto simp: inv_defs)
    then show ?thesis by (rule phase_told_mono) (use inv frame in \<open>simp_all add: inv_defs\<close>)
  qed (use q in simp)
  with inv frame(5) parts listed show ?thesis by (simp add: inv_defs)
qed

text \<open>The same where neither the registry nor the discovery changes.\<close>

lemma net_inv_call:
  assumes inv: "net_inv n" and "xc_mode xc' = xc_mode (net_xclient n)"
    and "phase_told (n\<lparr>net_xclient := xc'\<rparr>) q"
  shows "net_inv ((goes_to i q n)\<lparr>net_xclient := xc'\<rparr>)"
proof (rule net_inv_move [OF inv, where q = q])
  from assms(3) show "phase_told ((goes_to i q n)\<lparr>net_xclient := xc'\<rparr>) q"
    by (cases q) (auto simp: phase_told_def split: if_splits)
qed (use assms(1,2) in \<open>auto simp: inv_defs set_update_subset_insert\<close>)

lemma refreshed_told:
  assumes inv: "net_inv n" and p: "phase_told n (Fetched t key t1 ans)"
    and g: "GeeRefresh (refresh_env t ans (net_clock n)) (net_discovery n) = (d', err)"
  defines "n' \<equiv> n\<lparr>net_discovery := d', net_delay := max (net_delay n) (net_clock n - t1)\<rparr>"
  shows "lastUpdate d' \<in> {lastUpdate (net_discovery n), net_clock n} \<and> timeout d' = timeout (net_discovery n)
    \<and> (\<forall>a \<in> set (servers d'). told n' (net_delay n') (lastUpdate d') a)
    \<and> phase_told n' (after_refresh t key err)"
proof -
  have late: "told n late t a \<Longrightarrow> t' - late' \<le> t - late \<Longrightarrow> told n late' t' a" for late late' t t' a
    using told_mono [of n late t a n t' late'] by simp
  consider (fresh) "t < lastUpdate (net_discovery n) + timeout (net_discovery n)" "d' = net_discovery n" "err = None"
    | (failed) "\<exists>e. err = Some e" "d' = net_discovery n"
    | (got) h where "ans = Inr h" "err = None"
        "d' = (net_discovery n)\<lparr>servers := parse_servers h, lastUpdate := net_clock n\<rparr>"
    using g by (auto simp: GeeRefresh_def refresh_env_def split: if_splits sum.splits)
  then show ?thesis
  proof cases
    case fresh
    with inv late p show ?thesis by (auto simp: n'_def inv_defs phase_told_def after_refresh_def)
  next
    case failed
    with inv late show ?thesis by (auto simp: n'_def inv_defs phase_told_def after_refresh_def)
  next
    case got
    with inv late p show ?thesis by (force simp: n'_def inv_defs phase_told_def after_refresh_def)
  qed
qed


lemma net_inv_phase: "net_inv n \<Longrightarrow> phase_told n q \<Longrightarrow> net_inv (goes_to i q n)"
  using net_inv_call [of n "net_xclient n" q i] by simp

lemma phase_of: "net_inv n \<Longrightarrow> at_call i p n \<Longrightarrow> phase_told n p"
  by (auto simp: inv_defs)

lemma served_told:
  assumes inv: "net_inv n" and s: "RegistryServeHTTP (net_clock n) nows req (net_registry n) = (resp, r')"
    and n': "net_registry n' = r'" "set (net_reqs n) \<subseteq> set (net_reqs n')"
      "announced_addr req \<noteq> None \<longrightarrow> (req, net_clock n) \<in> set (net_reqs n')"
  shows "reg_inv r' \<and> registry_told n' \<and> reg_timeout r' = reg_timeout (net_registry n)"
proof -
  have r: "reg_inv (net_registry n)" "registry_told n" using inv by (simp_all add: net_inv_def)
  have "registry_told n'"
    unfolding registry_told_def n'(1)
  proof (intro allI impI)
    fix addr t assume "entry_since r' addr t"
    with entry_since_served [OF r(1) s]
    consider "entry_since (net_registry n) addr t" | "announced_addr req = Some addr" "t = net_clock n" by blast
    then show "\<exists>req. (req, t) \<in> set (net_reqs n') \<and> announced_addr req = Some addr"
      by cases (use r(2) n' in \<open>unfold registry_told_def, blast, auto\<close>)
  qed
  with RegistryServeHTTP_inv [OF r(1) s] RegistryServeHTTP_timeout [OF s] show ?thesis by simp
qed

lemma fetched_told:
  assumes inv: "net_inv n" and nows: "\<forall>a. net_clock n \<le> nows a"
    and s: "RegistryServeHTTP (net_clock n) nows get_request (net_registry n) = (resp, r')"
    and a: "a \<in> set (parse_servers (servers_header resp))"
  shows "told n 0 (net_clock n) a"
proof -
  have "reg_inv (net_registry n)" using inv by (simp add: net_inv_def)
  from listed_since [OF this s nows a] obtain addr t where
    e: "entry_since (net_registry n) addr t" "a \<in> set (parse_servers addr)"
      "reg_timeout (net_registry n) = 0 \<or> net_clock n < t + reg_timeout (net_registry n)" by blast
  moreover from e(1) inv obtain req where "(req, t) \<in> set (net_reqs n)" "announced_addr req = Some addr"
    unfolding net_inv_def registry_told_def by blast
  ultimately show ?thesis by (auto simp: told_def announces_def intro!: bexI [of _ "(req, t)"])
qed

lemma route_kept:
  assumes "route (MultiGet intn) mode key d = (d', r)"
  shows "servers d' = servers d \<and> ring d' = ring d \<and> lastUpdate d' = lastUpdate d \<and> timeout d' = timeout d"
  using assms by (auto simp: route_def MultiGet_def Let_def split: if_splits prod.splits sum.splits)

lemma selected_told:
  assumes inv: "net_inv n" and p: "phase_told n (Selecting t key)"
    and g: "route (MultiGet intn) (xc_mode (net_xclient n)) key (net_discovery n) = (d', r)"
  shows "phase_told (n\<lparr>net_discovery := d'\<rparr>) (after_select t r)"
proof (cases r)
  case (Inr a)
  note ok = MultiGet_ok [OF g [unfolded route_def Inr]]
  have k: "timeout d' = timeout (net_discovery n)" using route_kept [OF g] by simp
  show ?thesis
  proof (cases "xc_mode (net_xclient n) = ConsistentHash")
    case True
    with ok inv have "a = ''''" by (auto simp: inv_defs Get_def build_ring_empty)
    with True Inr show ?thesis by (simp add: phase_told_def after_select_def)
  next
    case False
    with ok inv have "told n (net_delay n) (lastUpdate (net_discovery n)) a" by (auto simp: inv_defs)
    then have "told n (timeout (net_discovery n) + net_delay n) t a"
      by (rule told_mono) (use p in \<open>simp_all add: phase_told_def\<close>)
    with False Inr k show ?thesis by (simp add: phase_told_def after_select_def)
  qed
qed (simp add: phase_told_def after_select_def)


lemma net_inv_step:
  assumes "net_step intn n n'" and inv: "net_inv n"
  shows "net_inv n'"
  using assms(1)
proof (cases rule: net_step.cases)
  case (net_tick t)
  show ?thesis
    by (rule net_inv_move [OF inv, where q = "Entering None"])
      (use inv net_tick in \<open>auto simp: inv_defs phase_told_def\<close>)
next
  case (net_request nows req resp r')
  from served_told [OF inv net_request(3), of n'] net_request(1)
  have r: "reg_inv r'" "registry_told n'" "reg_timeout r' = reg_timeout (net_registry n)" by auto
  have k: "told n late t a \<Longrightarrow> told n' late t a" for late t a
    by (erule told_mono) (use net_request(1) r(3) in auto)
  show ?thesis
    by (rule net_inv_move [OF inv, where q = "Entering None"])
      (use inv r k net_request(1) in \<open>auto simp: net_inv_def phase_told_def\<close>)
next
  case (net_enter key)
  show ?thesis
    by (rule net_inv_move [OF inv, where q = "Entering key"])
      (use inv net_enter in \<open>auto simp: inv_defs phase_told_def\<close>)
next
  case (net_lock i key)
  then show ?thesis by (auto intro!: net_inv_phase [OF inv] simp: phase_told_def)
next
  case (net_fresh i t key)
  with phase_of [OF inv, of i] show ?thesis by (auto intro!: net_inv_phase [OF inv] simp: phase_told_def)
next
  case (net_fetch i t key nows resp r')
  have "announced_addr get_request = None" by (simp add: announced_addr_def get_request_def)
  with served_told [OF inv net_fetch(5), of n'] net_fetch(1)
  have r: "reg_inv r'" "registry_told n'" "reg_timeout r' = reg_timeout (net_registry n)" by auto
  have k: "told n late s a \<Longrightarrow> told n' late s a" for late s a
    by (erule told_mono) (use net_fetch(1) r(3) in auto)
  have "phase_told n' (Fetched t key (net_clock n) (Inr (servers_header resp)))"
    using fetched_told [OF inv net_fetch(4,5)] k phase_of [OF inv net_fetch(2)] net_fetch(1)
    by (auto simp: phase_told_def)
  then show ?thesis
    by (rule net_inv_move [OF inv, rotated -1])
      (use inv r k net_fetch(1) in \<open>auto simp: net_inv_def set_update_subset_insert\<close>)
next
  case (net_unreached i t key err)
  with phase_of [OF inv, of i] show ?thesis by (auto intro!: net_inv_phase [OF inv] simp: phase_told_def)
next
  case (net_lost i t key t1 ans err)
  with phase_of [OF inv, of i] show ?thesis by (auto intro!: net_inv_phase [OF inv] simp: phase_told_def)
next
  case (net_refreshed i t key t1 ans d' err)
  have "phase_told n (Fetched t key t1 ans)" using phase_of [OF inv] net_refreshed(2) by blast
  note told = refreshed_told [OF inv this net_refreshed(3)]
  have ring: "ring d' = ring (net_discovery n)"
    using GeeRefresh_ring [of "refresh_env t ans (net_clock n)" "net_discovery n"] net_refreshed(3) by simp
  have "phase_told n' (after_refresh t key err)"
    using told net_refreshed(1) by (cases err) (auto simp: phase_told_def after_refresh_def)
  then show ?thesis
    by (rule net_inv_move [OF inv, rotated -1])
      (use inv told net_refreshed(1) ring in \<open>auto simp: inv_defs set_update_subset_insert\<close>)
next
  case (net_select i t key d' r)
  have "phase_told n (Selecting t key)" using phase_of [OF inv] net_select(2) by blast
  note told = selected_told [OF inv this net_select(4)]
  note kept = route_kept [OF net_select(4)]
  have "phase_told n' (after_select t r)"
    using told net_select(1) by (cases r) (auto simp: phase_told_def after_select_def)
  then show ?thesis
    by (rule net_inv_move [OF inv, rotated -1])
      (use inv kept net_select(1) in \<open>auto simp: inv_defs set_update_subset_insert\<close>)
next
  case (net_dial i t a net rpc xc' r)
  with xc_mode_call show ?thesis by (auto intro!: net_inv_call [OF inv] simp: phase_told_def)
next
  case (net_broken j)
  show ?thesis
    by (rule net_inv_move [OF inv, where q = "Entering None"])
      (use inv net_broken in \<open>auto simp: inv_defs phase_told_def\<close>)
next
  case net_closed
  show ?thesis
    by (rule net_inv_move [OF inv, where q = "Entering None"])
      (use inv net_closed in \<open>auto simp: inv_defs phase_told_def\<close>)
qed


text \<open>What no step changes: the mode, and the time-outs.\<close>

definition net_setting :: "('g, 'v) rpc_net \<Rightarrow> SelectMode \<times> time \<times> time" where
  "net_setting n = (xc_mode (net_xclient n), reg_timeout (net_registry n), timeout (net_discovery n))"

lemma GeeRefresh_timeout: "GeeRefresh e d = (d', err) \<Longrightarrow> timeout d' = timeout d"
  by (auto simp: GeeRefresh_def split: if_splits sum.splits)

lemma net_setting_step: "net_step intn n n' \<Longrightarrow> net_setting n' = net_setting n"
  by (induction rule: net_step.induct)
    (auto simp: net_setting_def xc_mode_call
      dest: RegistryServeHTTP_timeout GeeRefresh_timeout route_kept)

lemma net_start_inv:
  assumes "0 \<le> t"
  shows "net_inv (net_start intn g now regTimeout addr t mode opt)"
  using assms
  by (auto simp: net_start_def inv_defs registry_told_def entry_since_def NewRegistry_def NewGeeRegistryDiscovery_def
      NewMultiServerDiscovery_def gee_discovery.defs multi_servers.defs defaultUpdateTimeout_def time_units
      split: prod.splits)

lemma net_start_setting:
  "net_setting (net_start intn g now regTimeout addr t mode opt)
     = (mode, regTimeout, if t = 0 then defaultUpdateTimeout else t)"
  by (simp add: net_setting_def net_start_def NewXClient_def NewRegistry_def NewGeeRegistryDiscovery_def
      NewMultiServerDiscovery_def gee_discovery.defs multi_servers.defs split: prod.splits)

lemma net_reachable_inv:
  assumes "net_reachable intn n0 n" and "net_inv n0"
  shows "net_inv n \<and> net_setting n = net_setting n0"
  using assms by induction (auto simp: net_inv_step net_setting_step)

text \<open>As long as nobody announces anything, nobody is dialled, and a call that has returned has failed.\<close>

definition silent :: "('g, 'v) rpc_net \<Rightarrow> bool" where
  "silent n \<longleftrightarrow> (\<forall>(req, s) \<in> set (net_reqs n). \<forall>a. \<not> announces req a)"

definition nobody_called :: "('g, 'v) rpc_net \<Rightarrow> bool" where
  "nobody_called n \<longleftrightarrow> xc_heap (net_xclient n) = [] \<and> xc_clients (net_xclient n) = []
     \<and> (\<forall>r. Returned r \<in> set (net_calls n) \<longrightarrow> is_error r)"

lemma silent_step: "net_step intn n n' \<Longrightarrow> silent n' \<Longrightarrow> silent n"
  by (induction rule: net_step.induct) (auto simp: silent_def)

lemma silent_no_dial: "net_inv n \<Longrightarrow> silent n \<Longrightarrow> xc_mode (net_xclient n) \<noteq> ConsistentHash
    \<Longrightarrow> Dialling t a \<notin> set (net_calls n)"
  by (fastforce simp: net_inv_def phase_told_def told_def silent_def)

lemma nobody_called_phase:
  assumes "nobody_called n" and "\<forall>r. q = Returned r \<longrightarrow> is_error r"
    and "net_xclient n' = net_xclient n" and "set (net_calls n') \<subseteq> insert q (set (net_calls n))"
  shows "nobody_called n'"
  using assms by (auto simp: nobody_called_def)

lemma nobody_called_step:
  assumes "net_step intn n n'" and nobody: "nobody_called n" and quiet: "\<forall>t a. Dialling t a \<notin> set (net_calls n)"
  shows "nobody_called n'"
  using assms(1)
proof (cases rule: net_step.cases)
  case (net_refreshed i t key t1 ans d' err)
  have "\<forall>r. after_refresh t key err = Returned r \<longrightarrow> is_error r"
    by (cases err) (auto simp: after_refresh_def is_error_def)
  then show ?thesis
    by (rule nobody_called_phase [OF nobody]) (simp_all add: net_refreshed(1) set_update_subset_insert)
next
  case (net_select i t key d' r)
  have "\<forall>r'. after_select t r = Returned r' \<longrightarrow> is_error r'"
    by (cases r) (auto simp: after_select_def is_error_def)
  then show ?thesis
    by (rule nobody_called_phase [OF nobody]) (simp_all add: net_select(1) set_update_subset_insert)
next
  case (net_dial i t a net rpc xc' r)
  then have "Dialling t a \<in> set (net_calls n)" by (metis nth_mem)
  with quiet show ?thesis by blast
qed (use nobody in \<open>auto simp: nobody_called_def XClose_def dest!: subsetD [OF set_update_subset_insert]\<close>)

section \<open>A call on its own\<close>

text \<open>
  The whole \<open>Refresh\<close> of one call, from \<open>Entering\<close>, when nobody interferes: it brings the discovery
  to where \<open>GeeRefresh\<close> brings it.
\<close>

definition answers :: "registry_env \<Rightarrow> GeeRegistry \<Rightarrow> bool" where
  "answers e r \<longleftrightarrow> (\<exists>t1 nows resp r'. env_now e \<le> t1 \<and> t1 \<le> env_later e \<and> (\<forall>a. t1 \<le> nows a)
     \<and> RegistryServeHTTP t1 nows get_request r = (resp, r') \<and> env_answer e = Inr (servers_header resp))"

lemma in_refresh_simps [simp]:
  "\<not> in_refresh (Entering key)" "\<not> in_refresh (Selecting t key)" "\<not> in_refresh (Returned r)"
  "in_refresh (Refreshing t key)" "in_refresh (Fetched t key t1 ans)"
  by (simp_all add: in_refresh_def)

lemma after_refresh_lock [simp]: "\<not> in_refresh (after_refresh t key err)"
  by (cases err) (simp_all add: after_refresh_def)

lemma lock_free_update: "lock_free n \<Longrightarrow> \<not> in_refresh p \<Longrightarrow> net_calls n' = (net_calls n)[i := p] \<Longrightarrow> lock_free n'"
  using set_update_subset_insert [of "net_calls n" i p] by (auto simp: lock_free_def list_ex_iff)

lemma two_steps: "R x y \<Longrightarrow> R y z \<Longrightarrow> z = z' \<Longrightarrow> R\<^sup>*\<^sup>* x z'"
  by simp

lemma lone_refresh:
  assumes at: "at_call i (Entering key) n" "lock_free n" and e: "env_now e = net_clock n" "net_clock n \<le> env_later e"
    and ans: "answers e (net_registry n) \<or> (\<exists>err. env_answer e = Inl err)"
  shows "\<exists>n'. (net_step intn)\<^sup>*\<^sup>* n n' \<and> net_discovery n' = fst (GeeRefresh e (net_discovery n))
    \<and> net_calls n' = (net_calls n)[i := after_refresh (net_clock n) key (snd (GeeRefresh e (net_discovery n)))]
    \<and> net_xclient n' = net_xclient n \<and> net_reqs n' = net_reqs n"
proof -
  let ?d = "net_discovery n" and ?t = "net_clock n"
  let ?n1 = "goes_to i (Refreshing ?t key) n"
  have s1: "net_step intn n ?n1" by (rule net_lock [OF at])
  show ?thesis
  proof (cases "?t < lastUpdate ?d + timeout ?d")
    case True
    have "net_step intn ?n1 (goes_to i (Selecting ?t key) ?n1)"
      by (rule net_fresh) (use at True in simp_all)
    with s1 have "(net_step intn)\<^sup>*\<^sup>* n (goes_to i (Selecting ?t key) ?n1)" by simp
    with True e(1) show ?thesis
      by (intro exI conjI) (assumption, simp_all add: GeeRefresh_def after_refresh_def)
  next
    case False
    have "\<exists>t1 r'. ?t \<le> t1 \<and> t1 \<le> env_later e \<and> (net_step intn)\<^sup>*\<^sup>* ?n1
        ((goes_to i (Fetched ?t key t1 (env_answer e)) n)\<lparr>net_clock := t1, net_registry := r'\<rparr>)"
      using ans
    proof (elim disjE exE)
      assume "answers e (net_registry n)"
      then obtain t1 nows resp r' where a: "?t \<le> t1" "t1 \<le> env_later e" "\<forall>a. t1 \<le> nows a"
        "RegistryServeHTTP t1 nows get_request (net_registry n) = (resp, r')" "env_answer e = Inr (servers_header resp)"
        using e(1) by (auto simp: answers_def)
      let ?n2 = "?n1\<lparr>net_clock := t1\<rparr>"
      have "net_step intn ?n1 ?n2" by (rule net_tick) (use a(1) in simp)
      note tick = this
      have fetch: "net_step intn ?n2
          ((goes_to i (Fetched ?t key (net_clock ?n2) (Inr (servers_header resp))) ?n2)\<lparr>net_registry := r'\<rparr>)"
        by (rule net_fetch) (use at False a(3,4) in simp_all)
      have target: "(goes_to i (Fetched ?t key (net_clock ?n2) (Inr (servers_header resp))) ?n2)\<lparr>net_registry := r'\<rparr>
          = (goes_to i (Fetched ?t key t1 (env_answer e)) n)\<lparr>net_clock := t1, net_registry := r'\<rparr>"
        by (simp add: a(5))
      have "(net_step intn)\<^sup>*\<^sup>* ?n1
          ((goes_to i (Fetched ?t key t1 (env_answer e)) n)\<lparr>net_clock := t1, net_registry := r'\<rparr>)"
        by (rule two_steps [OF tick fetch target])
      with a(1,2) show ?thesis by blast
    next
      fix err assume "env_answer e = Inl err"
      moreover have "net_step intn ?n1 (goes_to i (Fetched ?t key (net_clock ?n1) (Inl err)) ?n1)"
        by (rule net_unreached) (use at False in simp_all)
      ultimately show ?thesis
        using e(2) by (auto intro!: exI [of _ ?t] exI [of _ "net_registry n"])
    qed
    then obtain t1 r' where f: "?t \<le> t1" "t1 \<le> env_later e" "(net_step intn)\<^sup>*\<^sup>* ?n1
        ((goes_to i (Fetched ?t key t1 (env_answer e)) n)\<lparr>net_clock := t1, net_registry := r'\<rparr>)" by blast
    let ?n3 = "(goes_to i (Fetched ?t key t1 (env_answer e)) n)\<lparr>net_clock := t1, net_registry := r'\<rparr>"
    let ?n4 = "?n3\<lparr>net_clock := env_later e\<rparr>"
    have s4: "net_step intn ?n3 ?n4" by (rule net_tick) (use f(2) in simp)
    obtain d' err where g: "GeeRefresh e ?d = (d', err)" by fastforce
    have env: "refresh_env ?t (env_answer e) (env_later e) = e" using e(1) by (simp add: refresh_env_def)
    have "GeeRefresh (refresh_env ?t (env_answer e) (env_later e)) ?d = (d', err)" by (subst env) (rule g)
    then have "net_step intn ?n4 ((goes_to i (after_refresh ?t key err) ?n4)\<lparr>net_discovery := d',
        net_delay := max (net_delay ?n4) (net_clock ?n4 - t1)\<rparr>)"
      by (intro net_refreshed) (use at in simp_all)
    with s1 f(3) s4 have "(net_step intn)\<^sup>*\<^sup>* n ((goes_to i (after_refresh ?t key err) ?n4)\<lparr>net_discovery := d',
        net_delay := max (net_delay ?n4) (net_clock ?n4 - t1)\<rparr>)"
      by (meson converse_rtranclp_into_rtranclp rtranclp.rtrancl_into_rtrancl)
    with g show ?thesis by (intro exI conjI) (assumption, simp_all)
  qed
qed

section \<open>Properties\<close>

text \<open>
  C15. Calls go to servers that are alive, as far as the registry can tell. Whatever the goroutines
  that call, the servers that announce themselves, lost answers and passing time: the address a
  call is about to dial was announced to the registry by a \<open>POST\<close>, and when the call tested the
  age of its list, that announcement was not older than the registry's time-out, the
  discovery's time-out and the longest way of an answer (\<open>net_delay\<close>) together. With \<open>ConsistentHash\<close> the
  address is the empty one.
\<close>

theorem call_goes_to_live_server:
  fixes n :: "('g, 'v) rpc_net"
  assumes "net_reachable intn (net_start intn g now regTimeout addr t mode opt) n" and "0 \<le> t"
    and "i < length (net_calls n)" and "net_calls n ! i = Dialling tested a"
  shows "if mode = ConsistentHash then a = ''''
    else \<exists>(req, s) \<in> set (net_reqs n). announces req a \<and>
      (regTimeout = 0 \<or> tested < s + regTimeout + (if t = 0 then defaultUpdateTimeout else t) + net_delay n)"
proof -
  from net_reachable_inv [OF assms(1) net_start_inv [OF assms(2)]]
  have n: "net_inv n" "xc_mode (net_xclient n) = mode" "reg_timeout (net_registry n) = regTimeout"
    "timeout (net_discovery n) = (if t = 0 then defaultUpdateTimeout else t)"
    by (simp_all add: net_start_setting) (simp_all add: net_setting_def)
  from phase_of [OF n(1)] assms(3,4) have "phase_told n (Dialling tested a)" by blast
  with n(2-4) show ?thesis by (auto simp: phase_told_def told_def add.assoc split: if_splits)
qed

text \<open>
  C32. A fleet of servers that only send heartbeats is never called. If every request the registry got
  is a heartbeat, as \<open>Heartbeat\<close> sends them, or a query, then whatever else happens no call is about
  to dial (in every mode but \<open>ConsistentHash\<close>), no client was ever created, and every call that
  has returned has failed.
\<close>

theorem heartbeats_reach_nobody:
  fixes n :: "('g, 'v) rpc_net"
  assumes "net_reachable intn (net_start intn g now regTimeout addr t mode opt) n" and "0 \<le> t"
    and "mode \<noteq> ConsistentHash" and "\<forall>(req, s) \<in> set (net_reqs n). req \<in> range heartbeat_request \<or> Method req = ''GET''"
  shows "xc_heap (net_xclient n) = []
    \<and> (\<forall>p \<in> set (net_calls n). case p of Dialling tested a \<Rightarrow> False | Returned r \<Rightarrow> is_error r | _ \<Rightarrow> True)"
proof -
  let ?n0 = "net_start intn g now regTimeout addr t mode opt :: ('g, 'v) rpc_net"
  have "announces req a \<Longrightarrow> Method req \<noteq> ''GET''" for req a
    by (auto simp: announces_def announced_addr_def Let_def)
  with assms(4) heartbeat_announces_nothing have quiet: "silent n" by (fastforce simp: silent_def)
  have dials: "silent m \<Longrightarrow> \<forall>s a. Dialling s a \<notin> set (net_calls m)" if "net_reachable intn ?n0 m" for m
    using net_reachable_inv [OF that net_start_inv [OF assms(2)]] silent_no_dial assms(3)
    by (auto simp: net_start_setting) (auto simp: net_setting_def)
  have start: "nobody_called ?n0" by (simp add: nobody_called_def net_start_def NewXClient_def)
  from assms(1) quiet have "nobody_called n"
  proof induction
    case (net_next m m')
    with silent_step have "silent m" by blast
    with net_next dials nobody_called_step show ?case by blast
  qed (rule start)
  with dials [OF assms(1) quiet] show ?thesis
    by (auto simp: nobody_called_def split: call_phase.splits)
qed




section \<open>Concrete runs\<close>

text \<open>The registry has got one request at time 5, and one call has come in.\<close>

definition first_choice :: "unit \<Rightarrow> int \<Rightarrow> unit \<times> int" where
  "first_choice g k = (g, 0)"

definition example_start :: "(unit, gostring) rpc_net" where
  "example_start = net_start first_choice () 5 60 ''http://reg'' 10 RandomSelect None"

definition example_net :: "http_request \<Rightarrow> (unit, gostring) rpc_net" where
  "example_net req = example_start\<lparr>net_registry := snd (RegistryServeHTTP 5 (\<lambda>a. 5) req (NewRegistry 60)),
     net_calls := [Entering None], net_reqs := [(req, 5)]\<rparr>"

definition announcement :: http_request where
  "announcement = \<lparr>Method = ''POST'', Header = [''X-Geerpc-Servers'' \<mapsto> ''tcp@a'']\<rparr>"

definition example_env :: "gostring \<Rightarrow> registry_env" where
  "example_env h = \<lparr>env_now = 5, env_answer = Inr h, env_later = 5\<rparr>"

lemmas example_simps = example_net_def example_start_def net_start_def NewXClient_def NewGeeRegistryDiscovery_def
  NewMultiServerDiscovery_def gee_discovery.defs multi_servers.defs first_choice_def

lemma example_reachable: "net_reachable first_choice example_start (example_net req)"
proof -
  obtain resp r' where s: "RegistryServeHTTP 5 (\<lambda>a. 5) req (NewRegistry 60) = (resp, r')" by fastforce
  let ?n = "example_start\<lparr>net_registry := r', net_reqs := [(req, 5)]\<rparr>"
  have "net_step first_choice example_start (example_start\<lparr>net_registry := r',
      net_reqs := (req, net_clock example_start) # net_reqs example_start\<rparr>)"
    by (rule net_request [where nows = "\<lambda>a. 5" and resp = resp]) (simp_all add: example_simps s)
  then have "net_reachable first_choice example_start ?n"
    using net_next [OF net_init] by (simp add: example_start_def net_start_def)
  from net_next [OF this net_enter [of _ _ None]] show ?thesis
    by (simp add: example_net_def s) (simp add: example_start_def net_start_def)
qed

lemma reachable_steps: "(net_step intn)\<^sup>*\<^sup>* n n' \<Longrightarrow> net_reachable intn n0 n \<Longrightarrow> net_reachable intn n0 n'"
  by (induction rule: rtranclp_induct) (auto intro: net_next)

lemma example_call:
  "at_call 0 (Entering None) (example_net req)" "lock_free (example_net req)"
  "env_now (example_env h) = net_clock (example_net req)" "net_clock (example_net req) \<le> env_later (example_env h)"
  by (simp_all add: example_net_def example_start_def net_start_def lock_free_def example_env_def)

lemma example_alive: "net_registry (example_net announcement)
    = \<lparr>reg_timeout = 60, reg_servers = [(''tcp@a'', \<lparr>Addr = ''tcp@a'', start = 5\<rparr>)]\<rparr>"
  by (simp add: example_net_def announcement_def RegistryServeHTTP_def header_get_def putServer_def NewRegistry_def
      Let_def)

lemma example_silent: "net_registry (example_net (heartbeat_request b)) = NewRegistry 60"
  by (simp add: example_net_def RegistryServeHTTP_def header_get_def heartbeat_request_def)

lemma example_answers:
  "answers (example_env ''tcp@a'') (net_registry (example_net announcement))"
  "answers (example_env '''') (net_registry (example_net (heartbeat_request b)))"
  unfolding answers_def example_alive example_silent
  by (intro exI [of _ 5] exI [of _ "\<lambda>a. 5"] exI conjI, auto simp: example_env_def servers_header_def header_get_def
      RegistryServeHTTP_def get_request_def aliveServers_filter alive_def NewRegistry_def)+

lemma example_refresh:
  "GeeRefresh (example_env h) (net_discovery (example_net req))
     = ((net_discovery (example_net req))\<lparr>servers := parse_servers h, lastUpdate := 5\<rparr>, None)"
  by (simp add: GeeRefresh_def example_env_def example_simps zero_time_def time_units)

lemma parse_example: "parse_servers ''tcp@a'' = [''tcp@a'']" "parse_servers '''' = []"
  by code_simp+

lemma call_goes_to_live_server_witness:
  "\<exists>n :: (unit, gostring) rpc_net. net_reachable first_choice example_start n \<and> net_calls n = [Dialling 5 ''tcp@a'']
     \<and> (\<exists>(req, s) \<in> set (net_reqs n). announces req ''tcp@a'' \<and> 5 < s + 60 + 10 + net_delay n)"
proof -
  obtain n where n: "(net_step first_choice)\<^sup>*\<^sup>* (example_net announcement) n"
    "net_discovery n = (net_discovery (example_net announcement))\<lparr>servers := [''tcp@a''], lastUpdate := 5\<rparr>"
    "net_calls n = [Selecting 5 None]" "xc_mode (net_xclient n) = RandomSelect"
    using lone_refresh [OF example_call disjI1 [OF example_answers(1)], of first_choice] unfolding example_refresh parse_example
    by (auto simp: after_refresh_def) (auto simp: example_simps)
  let ?n = "(goes_to 0 (after_select 5 (Inr ''tcp@a'')) n)\<lparr>net_discovery := net_discovery n\<rparr>"
  have "net_step first_choice n ?n"
    by (rule net_select)
      (use n in \<open>simp_all add: lock_free_def route_def MultiGet_def select_modes slice_read_def example_simps\<close>)
  with reachable_steps [OF n(1) example_reachable] have r: "net_reachable first_choice example_start ?n"
    by (rule net_next)
  have c: "net_calls ?n = [Dialling 5 ''tcp@a'']" using n(3) by (simp add: after_select_def)
  then have i: "0 < length (net_calls ?n)" "net_calls ?n ! 0 = Dialling 5 ''tcp@a''" by simp_all
  have "\<exists>(req, s) \<in> set (net_reqs ?n). announces req ''tcp@a'' \<and> 5 < s + 60 + 10 + net_delay ?n"
    using call_goes_to_live_server [OF r [unfolded example_start_def] _ i] by (simp add: select_modes)
  with c r show ?thesis by blast
qed

lemma heartbeats_reach_nobody_witness:
  "\<exists>n :: (unit, gostring) rpc_net. net_reachable first_choice example_start n
     \<and> net_calls n = [Returned (Inl ''rpc discovery: no available servers'')]
     \<and> net_reqs n = [(heartbeat_request ''tcp@a'', 5)] \<and> xc_heap (net_xclient n) = []"
proof -
  let ?m = "example_net (heartbeat_request ''tcp@a'')"
  let ?e = "''rpc discovery: no available servers''"
  obtain n where n: "(net_step first_choice)\<^sup>*\<^sup>* ?m n" "servers (net_discovery n) = []"
    "net_calls n = [Selecting 5 None]" "net_reqs n = [(heartbeat_request ''tcp@a'', 5)]"
    using lone_refresh [OF example_call disjI1 [OF example_answers(2) [of "''tcp@a''"]], of first_choice] unfolding example_refresh parse_example
    by (auto simp: after_refresh_def) (auto simp: example_simps)
  let ?n = "(goes_to 0 (after_select 5 (Inl ?e)) n)\<lparr>net_discovery := net_discovery n\<rparr>"
  have "net_step first_choice n ?n"
    by (rule net_select) (use n in \<open>simp_all add: lock_free_def route_def MultiGet_def\<close>)
  with reachable_steps [OF n(1) example_reachable] have r: "net_reachable first_choice example_start ?n"
    by (rule net_next)
  have "xc_heap (net_xclient ?n) = []"
    using heartbeats_reach_nobody [OF r [unfolded example_start_def]] n(4) by (simp add: select_modes)
  with r n(3,4) show ?thesis by (intro exI [of _ ?n]) (simp add: after_select_def)
qed


end
