(* ===== verification/Workers.thy ===== *)
theory Workers
  imports Mq "HOL-Library.Multiset"
begin

text \<open>
  The consumers' goroutines: \<open>StartUploadConsumer\<close> and \<open>consumeUploadLoop\<close> of
  \<open>apps/logic/service/upload_consumer.go\<close>, \<open>StartMQConsumer\<close> and \<open>consumeLoop\<close> of
  \<open>apps/gateway/ws/mq_consumer.go\<close>. Both start a number of goroutines that range over the same
  channel of deliveries and call a handler for each, which ends by telling the broker what became
  of the delivery. Here a handler is given by its statements, so that those of different goroutines
  interleave on the state they share; a delivery is known by its tag, the number of deliveries
  that arrived before it.

  The interface \<open>consumer_code\<close> asks of a handler that it comes to an end; the theories
  \<open>Upload_Workers\<close> and \<open>Down_Workers\<close> interpret it with the two handlers.
\<close>

section \<open>Goroutines on one channel\<close>

text \<open>
  \<open>cs_next\<close> runs one statement: the handler goes on, or ends with what it tells the broker and what
  it starts in a goroutine of its own, if anything.
\<close>

record ('s, 'c, 'x) consumer =
  cs_start :: "json option \<Rightarrow> 'c"
  cs_next :: "'c \<Rightarrow> 's \<Rightarrow> 's \<times> ('c + disposition \<times> 'x option)"

datatype ('c, 'x) worker =
    Ranging
  | Handling nat 'c
  | Settling nat disposition "'x option"
  | Finished

record ('s, 'c, 'x) pool =
  pl_shared :: 's
  pl_arrived :: "json option list"
  pl_chan :: "nat list"
  pl_closed :: bool
  pl_workers :: "('c, 'x) worker list"
  pl_settled :: "(nat \<times> disposition) list"
  pl_spawned :: "'x list"

definition start_workers :: "nat \<Rightarrow> 's \<Rightarrow> ('s, 'c, 'x) pool" where
  "start_workers n s =
     \<lparr>pl_shared = s, pl_arrived = [], pl_chan = [], pl_closed = False,
      pl_workers = replicate n Ranging, pl_settled = [], pl_spawned = []\<rparr>"

text \<open>One step of one of the goroutines.\<close>

inductive worker_step :: "('s, 'c, 'x) consumer \<Rightarrow> ('s, 'c, 'x) pool \<Rightarrow> ('s, 'c, 'x) pool \<Rightarrow> bool" for cs where
  receive: "\<lbrakk>i < length (pl_workers p); pl_workers p ! i = Ranging; pl_chan p = n # ns\<rbrakk> \<Longrightarrow>
    worker_step cs p (p\<lparr>pl_chan := ns, pl_workers := (pl_workers p)[i := Handling n (cs_start cs (pl_arrived p ! n))]\<rparr>)"
| leave: "\<lbrakk>i < length (pl_workers p); pl_workers p ! i = Ranging; pl_chan p = []; pl_closed p\<rbrakk> \<Longrightarrow>
    worker_step cs p (p\<lparr>pl_workers := (pl_workers p)[i := Finished]\<rparr>)"
| statement: "\<lbrakk>i < length (pl_workers p); pl_workers p ! i = Handling n c; cs_next cs c (pl_shared p) = (s', Inl c')\<rbrakk> \<Longrightarrow>
    worker_step cs p (p\<lparr>pl_shared := s', pl_workers := (pl_workers p)[i := Handling n c']\<rparr>)"
| last_statement: "\<lbrakk>i < length (pl_workers p); pl_workers p ! i = Handling n c; cs_next cs c (pl_shared p) = (s', Inr (d, x))\<rbrakk> \<Longrightarrow>
    worker_step cs p (p\<lparr>pl_shared := s', pl_workers := (pl_workers p)[i := Settling n d x]\<rparr>)"
| settle: "\<lbrakk>i < length (pl_workers p); pl_workers p ! i = Settling n d x\<rbrakk> \<Longrightarrow>
    worker_step cs p (p\<lparr>pl_workers := (pl_workers p)[i := Ranging], pl_settled := pl_settled p @ [(n, d)],
      pl_spawned := pl_spawned p @ (case x of None \<Rightarrow> [] | Some y \<Rightarrow> [y])\<rparr>)"

inductive_cases worker_stepE: "worker_step cs p p'"

text \<open>
  What happens around them: a delivery arrives (a redelivery is one more), the channel is closed,
  or the rest of the process acts on the shared state as \<open>env\<close> allows.
\<close>

inductive pool_event :: "('s \<Rightarrow> 's \<Rightarrow> bool) \<Rightarrow> ('s, 'c, 'x) pool \<Rightarrow> ('s, 'c, 'x) pool \<Rightarrow> bool" for env where
  arrive: "\<not> pl_closed p \<Longrightarrow>
    pool_event env p (p\<lparr>pl_arrived := pl_arrived p @ [body], pl_chan := pl_chan p @ [length (pl_arrived p)]\<rparr>)"
| close_chan: "pool_event env p (p\<lparr>pl_closed := True\<rparr>)"
| outside: "env (pl_shared p) s' \<Longrightarrow> pool_event env p (p\<lparr>pl_shared := s'\<rparr>)"

inductive pool_reachable ::
    "('s, 'c, 'x) consumer \<Rightarrow> ('s \<Rightarrow> 's \<Rightarrow> bool) \<Rightarrow> ('s, 'c, 'x) pool \<Rightarrow> ('s, 'c, 'x) pool \<Rightarrow> bool" for cs env p0 where
  pool_start: "pool_reachable cs env p0 p0"
| pool_works: "pool_reachable cs env p0 p \<Longrightarrow> worker_step cs p p' \<Longrightarrow> pool_reachable cs env p0 p'"
| pool_happens: "pool_reachable cs env p0 p \<Longrightarrow> pool_event env p p' \<Longrightarrow> pool_reachable cs env p0 p'"

declare pool_reachable.intros [step_intros]

inductive_cases pool_eventE: "pool_event env p p'"

text \<open>One handler by itself, at most \<open>k\<close> statements.\<close>

primrec alone :: "('s, 'c, 'x) consumer \<Rightarrow> nat \<Rightarrow> 'c \<Rightarrow> 's \<Rightarrow> ('s \<times> disposition \<times> 'x option) option" where
  "alone cs 0 c s = None"
| "alone cs (Suc k) c s =
     (case cs_next cs c s of (s', Inr r) \<Rightarrow> Some (s', r) | (s', Inl c') \<Rightarrow> alone cs k c' s')"

section \<open>No delivery is lost or handled twice\<close>

fun held :: "('c, 'x) worker \<Rightarrow> nat list" where
  "held (Handling n c) = [n]"
| "held (Settling n d x) = [n]"
| "held _ = []"

definition tags :: "('s, 'c, 'x) pool \<Rightarrow> nat multiset" where
  "tags p = mset (pl_chan p) + (\<Sum>w \<in># mset (pl_workers p). mset (held w)) + mset (map fst (pl_settled p))"

definition pool_inv :: "('s, 'c, 'x) pool \<Rightarrow> bool" where
  [inv_defs]: "pool_inv p \<longleftrightarrow> tags p = mset [0..<length (pl_arrived p)]
     \<and> (Finished \<in> set (pl_workers p) \<longrightarrow> pl_closed p \<and> pl_chan p = [])"

lemma held_update:
  "i < length ws \<Longrightarrow>
   (\<Sum>w \<in># mset (ws[i := w']). mset (held w)) + mset (held (ws ! i)) = (\<Sum>w \<in># mset ws. mset (held w)) + mset (held w')"
proof (induction ws arbitrary: i)
  case (Cons w ws)
  then show ?case by (cases i) (auto simp: ac_simps)
qed simp

lemma pool_inv_start: "pool_inv (start_workers n s)"
proof -
  have "(\<Sum>w \<in># mset (replicate n Ranging). mset (held w)) = {#}" by (induction n) auto
  then show ?thesis by (auto simp: pool_inv_def tags_def start_workers_def)
qed

lemma finished_update: "Finished \<in> set (ws[i := w]) \<Longrightarrow> Finished \<in> set ws \<or> w = Finished"
  using set_update_subset_insert [of ws i w] by auto

lemma pool_inv_worker:
  assumes "worker_step cs p p'" and "pool_inv p"
  shows "pool_inv p'"
  using assms
proof cases
  case (receive i n ns)
  then show ?thesis
    using assms(2) held_update [of i "pl_workers p" "Handling n (cs_start cs (pl_arrived p ! n))"]
    by (auto simp: pool_inv_def tags_def ac_simps dest!: finished_update)
next
  case (leave i)
  then show ?thesis
    using assms(2) held_update [of i "pl_workers p" Finished] by (auto simp: pool_inv_def tags_def)
next
  case (statement i n c s' c')
  then show ?thesis
    using assms(2) held_update [of i "pl_workers p" "Handling n c'"]
    by (auto simp: pool_inv_def tags_def dest!: finished_update)
next
  case (last_statement i n c s' d x)
  then show ?thesis
    using assms(2) held_update [of i "pl_workers p" "Settling n d x"]
    by (auto simp: pool_inv_def tags_def dest!: finished_update)
next
  case (settle i n d x)
  then have "(\<Sum>w \<in># mset (pl_workers p). mset (held w))
      = add_mset n (\<Sum>w \<in># mset ((pl_workers p)[i := Ranging]). mset (held w))"
    using held_update [of i "pl_workers p" Ranging] by simp
  with settle assms(2) show ?thesis by (auto simp: pool_inv_def tags_def dest!: finished_update)
qed

lemma pool_inv_event: "pool_event env p p' \<Longrightarrow> pool_inv p \<Longrightarrow> pool_inv p'"
  by (cases rule: pool_event.cases, assumption) (auto simp: pool_inv_def tags_def)

lemma pool_inv_reachable: "pool_reachable cs env p0 p \<Longrightarrow> pool_inv p0 \<Longrightarrow> pool_inv p"
  by (induction rule: pool_reachable.induct) (auto intro: pool_inv_worker pool_inv_event)

lemma pool_workers_length: "pool_reachable cs env p0 p \<Longrightarrow> length (pl_workers p) = length (pl_workers p0)"
  by (induction rule: pool_reachable.induct) (auto elim!: worker_stepE pool_eventE)

text \<open>So the tags in use are distinct, wherever they are.\<close>

definition in_use :: "('s, 'c, 'x) pool \<Rightarrow> nat list" where
  "in_use p = pl_chan p @ concat (map held (pl_workers p)) @ map fst (pl_settled p)"

lemma sum_held: "(\<Sum>w \<in># mset ws. mset (held w)) = mset (concat (map held ws))"
  by (induction ws) auto

lemma in_use_tags:
  assumes "pool_inv p"
  shows "distinct (in_use p)" and "set (in_use p) = {..<length (pl_arrived p)}"
proof -
  have "mset (in_use p) = mset [0..<length (pl_arrived p)]"
    using assms by (simp add: pool_inv_def tags_def sum_held in_use_def ac_simps)
  then show "distinct (in_use p)" "set (in_use p) = {..<length (pl_arrived p)}"
    by (metis mset_eq_imp_distinct_iff distinct_upt, metis mset_eq_setD atLeast_upt)
qed

lemma concat_map_once:
  "\<lbrakk>distinct (concat (map f xs)); i < length xs; j < length xs; n \<in> set (f (xs ! i)); n \<in> set (f (xs ! j))\<rbrakk> \<Longrightarrow> i = j"
proof (induction xs arbitrary: i j)
  case (Cons x xs)
  have tail: "n \<in> set (concat (map f xs))" if "k < length xs" "n \<in> set (f (xs ! k))" for k
    using that by auto
  from Cons.prems Cons.IH tail show ?case by (cases i; cases j) auto
qed simp

text \<open>A delivery is held by one goroutine at a time, and not when it waits or is settled.\<close>

lemma held_once:
  assumes "pool_inv p" and "i < length (pl_workers p)" and "n \<in> set (held (pl_workers p ! i))"
  shows "n < length (pl_arrived p)" and "n \<notin> fst ` set (pl_settled p)"
    and "j < length (pl_workers p) \<Longrightarrow> n \<in> set (held (pl_workers p ! j)) \<Longrightarrow> i = j"
proof -
  note u = in_use_tags [OF assms(1)]
  have n: "n \<in> set (concat (map held (pl_workers p)))" using assms(2,3) by auto
  with u(2) show "n < length (pl_arrived p)" by (auto simp: in_use_def)
  from n u(1) show "n \<notin> fst ` set (pl_settled p)" by (auto simp: in_use_def)
  show "i = j" if "j < length (pl_workers p)" "n \<in> set (held (pl_workers p ! j))"
    using concat_map_once [of held "pl_workers p" i j n] u(1) assms(2,3) that by (simp add: in_use_def)
qed

lemma settled_once:
  assumes "pool_inv p"
  shows "distinct (map fst (pl_settled p))" and "fst ` set (pl_settled p) \<subseteq> {..<length (pl_arrived p)}"
  using in_use_tags [OF assms] by (auto simp: in_use_def)

lemma alone_more: "alone cs k c s = Some r \<Longrightarrow> k \<le> j \<Longrightarrow> alone cs j c s = Some r"
proof (induction k arbitrary: c s j)
  case (Suc k)
  then show ?case by (cases j) (auto split: prod.splits sum.splits)
qed simp

lemma alone_unique: "alone cs k c s = Some r \<Longrightarrow> alone cs j c s = Some r' \<Longrightarrow> r = r'"
  by (metis alone_more nat_le_linear option.inject)

section \<open>One goroutine at a time\<close>

text \<open>Handling the deliveries one after the other is one of the ways the goroutines may interleave.\<close>

lemma alone_reachable:
  "\<lbrakk>pool_reachable cs env p0 p; i < length (pl_workers p); pl_workers p ! i = Handling n c;
    alone cs k c (pl_shared p) = Some (s', d, x)\<rbrakk> \<Longrightarrow>
   pool_reachable cs env p0 (p\<lparr>pl_shared := s', pl_workers := (pl_workers p)[i := Settling n d x]\<rparr>)"
proof (induction k arbitrary: c p)
  case (Suc k)
  obtain s1 r where r: "cs_next cs c (pl_shared p) = (s1, r)" by fastforce
  show ?case
  proof (cases r)
    case (Inl c')
    let ?p = "p\<lparr>pl_shared := s1, pl_workers := (pl_workers p)[i := Handling n c']\<rparr>"
    have "pool_reachable cs env p0 ?p"
      using pool_works [OF Suc.prems(1) worker_step.statement [OF Suc.prems(2,3)]] r Inl by simp
    with Suc.IH [of ?p c'] Suc.prems r Inl show ?thesis by simp
  next
    case (Inr o')
    with Suc.prems r pool_works [OF Suc.prems(1) worker_step.last_statement [OF Suc.prems(2,3)]]
    show ?thesis by (cases o') simp
  qed
qed simp

lemma delivery_reachable:
  assumes "pool_reachable cs env p0 p" and "i < length (pl_workers p)" and "pl_workers p ! i = Ranging"
    and "pl_chan p = n # ns" and "alone cs k (cs_start cs (pl_arrived p ! n)) (pl_shared p) = Some (s', d, x)"
  shows "pool_reachable cs env p0 (p\<lparr>pl_shared := s', pl_chan := ns, pl_settled := pl_settled p @ [(n, d)],
    pl_spawned := pl_spawned p @ (case x of None \<Rightarrow> [] | Some y \<Rightarrow> [y])\<rparr>)"
proof -
  let ?p1 = "p\<lparr>pl_chan := ns, pl_workers := (pl_workers p)[i := Handling n (cs_start cs (pl_arrived p ! n))]\<rparr>"
  let ?p2 = "?p1\<lparr>pl_shared := s', pl_workers := (pl_workers ?p1)[i := Settling n d x]\<rparr>"
  have "pool_reachable cs env p0 ?p1" by (rule pool_works [OF assms(1) worker_step.receive [OF assms(2-4)]])
  then have "pool_reachable cs env p0 ?p2" by (rule alone_reachable) (use assms(2,5) in auto)
  from pool_works [OF this worker_step.settle [of i ?p2 n d x]] assms(2)
  have "pool_reachable cs env p0 (?p2\<lparr>pl_workers := (pl_workers ?p2)[i := Ranging], pl_settled := pl_settled ?p2 @ [(n, d)],
      pl_spawned := pl_spawned ?p2 @ (case x of None \<Rightarrow> [] | Some y \<Rightarrow> [y])\<rparr>)" (is "pool_reachable cs env p0 ?p3") by simp
  moreover have "?p3 = p\<lparr>pl_shared := s', pl_chan := ns, pl_settled := pl_settled p @ [(n, d)],
      pl_spawned := pl_spawned p @ (case x of None \<Rightarrow> [] | Some y \<Rightarrow> [y])\<rparr>"
    using list_update_id [of "pl_workers p" i] assms(3) by (intro pool.equality) simp_all
  ultimately show ?thesis by (simp only:)
qed

section \<open>A handler that comes to an end\<close>

locale consumer_code =
  fixes cs :: "('s, 'c, 'x) consumer" and ord :: "('c \<times> 'c) set"
  assumes order: "wf ord"
    and onward: "cs_next cs c s = (s', Inl c') \<Longrightarrow> (c', c) \<in> ord"
begin

lemma alone_ends: "\<exists>k r. alone cs k c s = Some r"
proof (induction c arbitrary: s rule: wf_induct_rule [OF order])
  case (1 c)
  show ?case
  proof (cases "cs_next cs c s")
    case (Pair s' r)
    show ?thesis
    proof (cases r)
      case (Inl c')
      with 1 onward Pair obtain k r' where "alone cs k c' s' = Some r'" by blast
      with Inl Pair show ?thesis by (intro exI [of _ "Suc k"] exI [of _ r']) simp
    next
      case (Inr d)
      with Pair show ?thesis by (intro exI [of _ "Suc 0"]) simp
    qed
  qed
qed

text \<open>
  Every step of a goroutine brings the whole group nearer to its end: a delivery weighs more in
  the channel than in a handler, there more before a statement than after it, and so on.
\<close>

definition rank :: "('c, 'x) worker \<Rightarrow> nat \<times> 'c option" where
  "rank w = (case w of Finished \<Rightarrow> (0, None) | Ranging \<Rightarrow> (1, None) | Settling n d x \<Rightarrow> (2, None) | Handling n c \<Rightarrow> (3, Some c))"

definition burden :: "('s, 'c, 'x) pool \<Rightarrow> (nat \<times> 'c option) multiset" where
  "burden p = image_mset (\<lambda>n. (4, None)) (mset (pl_chan p)) + image_mset rank (mset (pl_workers p))"

definition lighter :: "((nat \<times> 'c option) \<times> (nat \<times> 'c option)) set" where
  "lighter = less_than <*lex*> map_prod Some Some ` ord"

lemma wf_lighter: "wf lighter"
  unfolding lighter_def by (intro wf_lex_prod wf_less_than wf_map_prod_image order) simp

lemma rank_update:
  "i < length ws \<Longrightarrow> image_mset rank (mset (ws[i := w])) = image_mset rank (mset ws) - {#rank (ws ! i)#} + {#rank w#}"
  by (simp add: mset_update image_mset_Diff)

lemma burden_step:
  assumes "i < length ws" and "(rank w, rank (ws ! i)) \<in> lighter"
  shows "(N + image_mset rank (mset (ws[i := w])), N + image_mset rank (mset ws)) \<in> mult lighter"
proof -
  have "rank (ws ! i) \<in># image_mset rank (mset ws)" using assms(1) by simp
  then obtain M where M: "image_mset rank (mset ws) = add_mset (rank (ws ! i)) M" by (metis multi_member_split)
  have "((N + M) + {#rank w#}, (N + M) + {#rank (ws ! i)#}) \<in> mult lighter"
    by (rule one_step_implies_mult) (use assms(2) in auto)
  then show ?thesis by (simp add: rank_update [OF assms(1)] M)
qed

lemma worker_step_lighter:
  assumes "worker_step cs p p'"
  shows "(burden p', burden p) \<in> mult lighter"
  using assms
proof cases
  case (receive i n ns)
  let ?w = "Handling n (cs_start cs (pl_arrived p ! n))"
  have "(Ranging :: ('c, 'x) worker) \<in> set (pl_workers p)" using receive by (metis nth_mem)
  then obtain M where M: "image_mset rank (mset (pl_workers p)) = add_mset (rank Ranging) M"
    by (metis image_mset_add_mset multi_member_split set_mset_mset)
  let ?N = "image_mset (\<lambda>n. (4, None)) (mset ns)"
  have "((?N + M) + {#rank ?w#}, (?N + M) + {#(4, None), rank Ranging#}) \<in> mult lighter"
    by (rule one_step_implies_mult) (auto simp: lighter_def rank_def)
  with receive show ?thesis by (simp add: burden_def rank_update M add_mset_commute)
next
  case (leave i)
  then have "(rank Finished, rank (pl_workers p ! i)) \<in> lighter" by (simp add: rank_def lighter_def)
  from burden_step [OF leave(2) this, of "{#}"] leave show ?thesis by (simp add: burden_def)
next
  case (statement i n c s' c')
  then have "(rank (Handling n c'), rank (pl_workers p ! i)) \<in> lighter"
    using onward [of c "pl_shared p"] by (auto simp: rank_def lighter_def)
  from burden_step [OF statement(2) this] statement show ?thesis by (simp add: burden_def)
next
  case (last_statement i n c s' d x)
  then have "(rank (Settling n d x), rank (pl_workers p ! i)) \<in> lighter" by (simp add: rank_def lighter_def)
  from burden_step [OF last_statement(2) this] last_statement show ?thesis by (simp add: burden_def)
next
  case (settle i n d x)
  then have "(rank Ranging, rank (pl_workers p ! i)) \<in> lighter" by (simp add: rank_def lighter_def)
  from burden_step [OF settle(2) this] settle show ?thesis by (simp add: burden_def)
qed

theorem workers_come_to_rest: "wf {(p', p). worker_step cs p p'}"
  by (rule wf_subset [OF wf_inv_image [OF wf_mult [OF wf_lighter], of burden]])
    (auto simp: inv_image_def worker_step_lighter)

text \<open>At rest, every delivery that arrived is settled, and the workers have left if the channel is closed.\<close>

lemma worker_can_step:
  assumes "i < length (pl_workers p)" and "pl_workers p ! i = Handling n c \<or> pl_workers p ! i = Settling n d x"
  shows "\<exists>p'. worker_step cs p p'"
  using assms(2)
proof
  assume h: "pl_workers p ! i = Handling n c"
  obtain s' r where "cs_next cs c (pl_shared p) = (s', r)" by fastforce
  with h assms(1) show ?thesis by (cases r) (auto intro: worker_step.statement worker_step.last_statement)
next
  assume "pl_workers p ! i = Settling n d x"
  with assms(1) show ?thesis by (blast intro: worker_step.settle)
qed

theorem at_rest_all_settled:
  assumes "pool_inv p" and "pl_workers p \<noteq> []" and "\<nexists>p'. worker_step cs p p'"
  shows "distinct (map fst (pl_settled p)) \<and> fst ` set (pl_settled p) = {..<length (pl_arrived p)}
    \<and> (pl_closed p \<longrightarrow> set (pl_workers p) = {Finished})"
proof -
  have idle: "w = Ranging \<or> w = Finished" if "w \<in> set (pl_workers p)" for w
  proof -
    from that obtain i where i: "i < length (pl_workers p)" "pl_workers p ! i = w" by (metis in_set_conv_nth)
    with assms(3) worker_can_step [OF i(1)] show ?thesis by (cases w) auto
  qed
  then have "\<forall>w \<in> set (pl_workers p). held w = []" using held.simps(3,4) by metis
  then have none: "concat (map held (pl_workers p)) = []" by auto
  have chan: "pl_chan p = []"
  proof (cases "Finished \<in> set (pl_workers p)")
    case True
    with assms(1) show ?thesis by (simp add: pool_inv_def)
  next
    case False
    with assms(2) have len: "0 < length (pl_workers p)" by simp
    with False idle [OF nth_mem [OF len]] have "pl_workers p ! 0 = Ranging" by (metis nth_mem)
    with len assms(3) show ?thesis by (cases "pl_chan p") (auto intro: worker_step.receive)
  qed
  have "w = Finished" if "pl_closed p" "w \<in> set (pl_workers p)" for w
  proof -
    from that(2) obtain i where i: "i < length (pl_workers p)" "pl_workers p ! i = w" by (metis in_set_conv_nth)
    with that(1) assms(3) chan worker_step.leave [of i p cs] have "w \<noteq> Ranging" by auto
    with idle [OF that(2)] show ?thesis by blast
  qed
  with assms(2) have "pl_closed p \<longrightarrow> set (pl_workers p) = {Finished}" by (cases "pl_workers p") auto
  with in_use_tags [OF assms(1)] none chan show ?thesis by (auto simp: in_use_def)
qed

end

end
