(* ===== verification/Upload_Workers.thy ===== *)
theory Upload_Workers
  imports Logic_Upload Workers
begin

text \<open>
  The fifty goroutines of \<open>StartUploadConsumer\<close> (\<open>apps/logic/service/upload_consumer.go\<close>) at work: the
  handlers of theory \<open>Logic_Upload\<close> statement by statement, so that those of different deliveries,
  copies of one message among them, interleave on the database, on Redis, on the broker's
  channels and on the id generator. One handler by itself is \<open>handleUploadDelivery\<close>; all of
  them together store a message once.
\<close>

section \<open>The handler's statements\<close>

text \<open>
  What is left to do: parse the body; for a single chat draw an id, insert, look the route up and
  publish; for a group query the members and do the same for one after the other; for the
  assistant draw an id and insert.
\<close>

datatype stage =
    Parse "json option"
  | SDraw UploadPayload
  | SInsert UploadPayload message
  | SRoute UploadPayload
  | SPublish UploadPayload gostring
  | GList UploadPayload
  | GMember UploadPayload "i64 list"
  | GDraw UploadPayload i64 "i64 list"
  | GRedraw UploadPayload message "i64 list"
  | GInsert UploadPayload message "i64 list"
  | GRoute UploadPayload message "i64 list"
  | GPublish UploadPayload message gostring "i64 list"
  | ADraw UploadPayload
  | AInsert UploadPayload message

definition ended :: "goerror option \<Rightarrow> (stage + disposition \<times> unit option)" where
  "ended e = Inr (if e = None then Ack else Nack True, None)"

definition down_of :: "i64 \<Rightarrow> i64 \<Rightarrow> i64 \<Rightarrow> UploadPayload \<Rightarrow> DownPayload" where
  "down_of msgID grp receiver p =
     \<lparr>dp_MsgID = msgID, dp_SeqID = up_SeqID p, dp_GroupID = grp, dp_SenderID = up_SenderID p,
      dp_ReceiverID = receiver, dp_Content = up_Content p, dp_ChatType = up_ChatType p\<rparr>"

fun upload_next ::
    "('db, 'r, 'b, 'g) logic_ops \<Rightarrow> stage \<Rightarrow> ('db, 'r, 'b, 'g) logic \<Rightarrow>
     ('db, 'r, 'b, 'g) logic \<times> (stage + disposition \<times> unit option)" where
  "upload_next ops (Parse body) s =
     (s, case unmarshal_upload body of
           Inl e \<Rightarrow> Inr (Nack False, None)
         | Inr p \<Rightarrow>
             if up_ChatType p = ChatTypeSingle then Inl (SDraw p)
             else if up_ChatType p = ChatTypeGroup then Inl (GList p)
             else if up_ChatType p = ChatTypeAI then Inl (ADraw p)
             else Inr (Ack, None))"
| "upload_next ops (SDraw p) s =
     (case new_message ops (up_SenderID p) (up_ReceiverID p) (up_GroupID p) (up_Content p) False s of
        (s', m) \<Rightarrow> (s', Inl (SInsert p (m\<lparr>MsgId := up_MsgID p, SeqId := up_SeqID p\<rparr>))))"
| "upload_next ops (SInsert p m) s =
     (case insert_message ops m s of
        (s', Some e) \<Rightarrow> (s', ended (Some e))
      | (s', None) \<Rightarrow> (s', Inl (SRoute p)))"
| "upload_next ops (SRoute p) s =
     (case lookup_route ops (up_ReceiverID p) s of
        (s', Inl e) \<Rightarrow> (s', ended (Some e))
      | (s', Inr None) \<Rightarrow> (s', ended None)
      | (s', Inr (Some addr)) \<Rightarrow> (s', Inl (SPublish p addr)))"
| "upload_next ops (SPublish p addr) s =
     (fst (publish_down ops addr (down_of (up_MsgID p) 0 (up_ReceiverID p) p) s), ended None)"
| "upload_next ops (GList p) s =
     (case GetGroupMembers (lo_members ops) (up_GroupID p) (lg_db s) of
        (db', Inl e) \<Rightarrow> (s\<lparr>lg_db := db'\<rparr>, ended (Some e))
      | (db', Inr members) \<Rightarrow> (s\<lparr>lg_db := db'\<rparr>, Inl (GMember p members)))"
| "upload_next ops (GMember p []) s = (s, ended None)"
| "upload_next ops (GMember p (memberID # rest)) s =
     (s, Inl (if memberID = up_SenderID p then GMember p rest else GDraw p memberID rest))"
| "upload_next ops (GDraw p memberID rest) s =
     (case new_message ops (up_SenderID p) memberID (up_GroupID p) (up_Content p) False s of
        (s', m) \<Rightarrow> (s', Inl (GRedraw p m rest)))"
| "upload_next ops (GRedraw p m rest) s =
     (case lo_next ops (lg_gen s) of
        (i, g') \<Rightarrow> (s\<lparr>lg_gen := g'\<rparr>, Inl (GInsert p (m\<lparr>MsgId := i, SeqId := up_SeqID p\<rparr>) rest)))"
| "upload_next ops (GInsert p m rest) s =
     (case insert_message ops m s of
        (s', Some e) \<Rightarrow> (s', Inl (GMember p rest))
      | (s', None) \<Rightarrow> (s', Inl (GRoute p m rest)))"
| "upload_next ops (GRoute p m rest) s =
     (case lookup_route ops (ReceiverId m) s of
        (s', Inl e) \<Rightarrow> (s', Inl (GMember p rest))
      | (s', Inr None) \<Rightarrow> (s', Inl (GMember p rest))
      | (s', Inr (Some addr)) \<Rightarrow> (s', Inl (GPublish p m addr rest)))"
| "upload_next ops (GPublish p m addr rest) s =
     (fst (publish_down ops addr (down_of (MsgId m) (up_GroupID p) (ReceiverId m) p) s), Inl (GMember p rest))"
| "upload_next ops (ADraw p) s =
     (case new_message ops (up_SenderID p) (up_ReceiverID p) (up_GroupID p) (up_Content p) True s of
        (s', m) \<Rightarrow> (s', Inl (AInsert p (m\<lparr>MsgId := up_MsgID p, SeqId := up_SeqID p\<rparr>))))"
| "upload_next ops (AInsert p m) s =
     (case insert_message ops m s of (s', e) \<Rightarrow> (s', ended e))"

definition upload_consumer ::
    "('db, 'r, 'b, 'g) logic_ops \<Rightarrow> (('db, 'r, 'b, 'g) logic, stage, unit) consumer" where
  "upload_consumer ops = \<lparr>cs_start = Parse, cs_next = upload_next ops\<rparr>"

definition uploadWorkers :: nat where "uploadWorkers = 50"

lemma upload_consumer_sel [simp]:
  "cs_start (upload_consumer ops) = Parse" "cs_next (upload_consumer ops) = upload_next ops"
  by (simp_all add: upload_consumer_def)

section \<open>It comes to an end\<close>

fun stage_size :: "stage \<Rightarrow> nat \<times> nat" where
  "stage_size (Parse body) = (3, 0)"
| "stage_size (SDraw p) = (2, 3)"
| "stage_size (SInsert p m) = (2, 2)"
| "stage_size (SRoute p) = (2, 1)"
| "stage_size (SPublish p addr) = (2, 0)"
| "stage_size (ADraw p) = (2, 1)"
| "stage_size (AInsert p m) = (2, 0)"
| "stage_size (GList p) = (2, 0)"
| "stage_size (GMember p members) = (1, 8 * length members)"
| "stage_size (GDraw p u rest) = (1, 8 * length rest + 5)"
| "stage_size (GRedraw p m rest) = (1, 8 * length rest + 4)"
| "stage_size (GInsert p m rest) = (1, 8 * length rest + 3)"
| "stage_size (GRoute p m rest) = (1, 8 * length rest + 2)"
| "stage_size (GPublish p m addr rest) = (1, 8 * length rest + 1)"

definition stage_order :: "(stage \<times> stage) set" where
  "stage_order = inv_image (less_than <*lex*> less_than) stage_size"

lemma upload_next_onward: "upload_next ops c s = (s', Inl c') \<Longrightarrow> (c', c) \<in> stage_order"
  by (cases "(ops, c, s)" rule: upload_next.cases)
    (auto simp: stage_order_def ended_def split: prod.splits sum.splits option.splits if_splits)

text \<open>The statements a handler can end with.\<close>

fun_cases upload_endE: "upload_next ops c s = (s', Inr (d, x))"

lemma wf_stage_order: "wf stage_order"
  unfolding stage_order_def by (intro wf_inv_image wf_lex_prod wf_less_than)

interpretation upload: consumer_code "upload_consumer ops" stage_order
  for ops :: "('db, 'r, 'b, 'g) logic_ops"
  by unfold_locales (auto intro: wf_stage_order upload_next_onward)

section \<open>One handler by itself\<close>

lemma down_of_rows:
  "down_of (up_MsgID p) 0 (up_ReceiverID p) p = single_down p"
  "down_of i (up_GroupID p) u p = group_down p i u"
  by (simp_all add: down_of_def single_down_def group_down_def)

lemma fst_prod_case: "fst (case x of (a, b) \<Rightarrow> f a b) = (case x of (a, b) \<Rightarrow> fst (f a b))"
  by (simp split: prod.split)

lemma alone_single:
  "alone (upload_consumer ops) 4 (SDraw p) s =
     (case Logic_Upload.handleSingleChat ops p s of (s', e) \<Rightarrow> Some (s', if e = None then Ack else Nack True, None))"
  by (auto simp: eval_nat_numeral Logic_Upload.handleSingleChat_def ended_def down_of_def
      split: prod.split option.split sum.split)

lemma alone_ai:
  "alone (upload_consumer ops) 2 (ADraw p) s =
     (case handleAIChat ops p s of (s', e) \<Rightarrow> Some (s', if e = None then Ack else Nack True, None))"
  by (auto simp: eval_nat_numeral handleAIChat_def ended_def split: prod.split option.split)

lemma alone_member:
  "\<exists>j. \<forall>k. alone (upload_consumer ops) (j + k) (GMember p (u # rest)) s
      = alone (upload_consumer ops) k (GMember p rest) (group_member_step ops p u s)"
proof (cases "u = up_SenderID p")
  case True
  then show ?thesis by (intro exI [of _ 1]) (simp add: group_member_sender)
next
  case False
  let ?g = "snd (lo_next ops (lg_gen s))"
  let ?i = "fst (lo_next ops ?g)"
  let ?m = "group_row p ?i u"
  let ?s1 = "s\<lparr>lg_gen := snd (lo_next ops ?g)\<rparr>"
  have ids: "MsgId ?m = ?i" "ReceiverId ?m = u" by (simp_all add: group_row_def)
  have m: "(NewMessages j (up_SenderID p) u (up_GroupID p) (up_Content p) False)\<lparr>MsgId := i, SeqId := up_SeqID p\<rparr> = group_row p i u" for i j
    by (simp add: NewMessages_def group_row_def)
  have to_insert: "alone (upload_consumer ops) (3 + k) (GMember p (u # rest)) s
      = alone (upload_consumer ops) k (GInsert p ?m rest) ?s1" for k
    using False by (simp add: eval_nat_numeral new_message_def m split: prod.split)
  obtain s2 e where ins: "insert_message ops ?m ?s1 = (s2, e)" by fastforce
  show ?thesis
  proof (cases e)
    case (Some x)
    then have "group_member_step ops p u s = s2" using ins by (simp add: group_member_unfold [OF False] Let_def)
    with Some ins have "alone (upload_consumer ops) (3 + Suc k) (GMember p (u # rest)) s
        = alone (upload_consumer ops) k (GMember p rest) (group_member_step ops p u s)" for k
      unfolding to_insert by simp
    then show ?thesis by (intro exI [of _ 4]) (simp add: eval_nat_numeral)
  next
    case None
    obtain s3 r where look: "lookup_route ops u s2 = (s3, r)" by fastforce
    have to_route: "alone (upload_consumer ops) (3 + Suc (Suc k)) (GMember p (u # rest)) s =
        (case r of Inr (Some addr) \<Rightarrow> alone (upload_consumer ops) k (GPublish p ?m addr rest) s3
         | _ \<Rightarrow> alone (upload_consumer ops) k (GMember p rest) s3)" for k
      unfolding to_insert using None ins look by (simp add: ids split: sum.split option.split)
    have step: "group_member_step ops p u s =
        (case r of Inr (Some addr) \<Rightarrow> fst (publish_down ops addr (group_down p ?i u) s3) | _ \<Rightarrow> s3)"
      using None ins look by (simp add: group_member_unfold [OF False] Let_def split: sum.split option.split)
    show ?thesis
    proof (cases "\<exists>addr. r = Inr (Some addr)")
      case True
      then obtain addr where "r = Inr (Some addr)" by blast
      with to_route [of "Suc _"] step show ?thesis by (intro exI [of _ 6]) (simp add: eval_nat_numeral ids down_of_rows)
    next
      case False
      with to_route step show ?thesis
        by (intro exI [of _ 5]) (simp add: eval_nat_numeral split: sum.split option.split)
    qed
  qed
qed

lemma alone_members:
  "\<exists>k. alone (upload_consumer ops) k (GMember p members) s = Some (fold (group_member_step ops p) members s, Ack, None)"
proof (induction members arbitrary: s)
  case Nil
  show ?case by (intro exI [of _ 1]) (simp add: ended_def)
next
  case (Cons u rest)
  obtain j where j: "\<forall>k. alone (upload_consumer ops) (j + k) (GMember p (u # rest)) s
      = alone (upload_consumer ops) k (GMember p rest) (group_member_step ops p u s)" using alone_member by blast
  obtain k where "alone (upload_consumer ops) k (GMember p rest) (group_member_step ops p u s)
      = Some (fold (group_member_step ops p) rest (group_member_step ops p u s), Ack, None)" using Cons.IH by blast
  with j show ?case by (intro exI [of _ "j + k"]) simp
qed

lemma worker_alone:
  "\<exists>k. alone (upload_consumer ops) k (Parse body) s =
     (case handleUploadDelivery ops body s of (s', d) \<Rightarrow> Some (s', d, None))"
proof (cases "unmarshal_upload body")
  case (Inl e)
  then show ?thesis by (intro exI [of _ 1]) (simp add: handleUploadDelivery_def)
next
  case (Inr p)
  consider "up_ChatType p = ChatTypeSingle" | "up_ChatType p = ChatTypeGroup" | "up_ChatType p = ChatTypeAI"
    | "up_ChatType p \<noteq> ChatTypeSingle" "up_ChatType p \<noteq> ChatTypeGroup" "up_ChatType p \<noteq> ChatTypeAI" by blast
  then show ?thesis
  proof cases
    case 1
    obtain k where "alone (upload_consumer ops) k (SDraw p) s = (case Logic_Upload.handleSingleChat ops p s of
        (s', e) \<Rightarrow> Some (s', if e = None then Ack else Nack True, None))" using alone_single by blast
    with 1 Inr show ?thesis by (intro exI [of _ "Suc k"]) (simp add: handleUploadDelivery_def split: prod.split)
  next
    case 2
    obtain db r where g: "GetGroupMembers (lo_members ops) (up_GroupID p) (lg_db s) = (db, r)" by fastforce
    have t: "ChatTypeGroup \<noteq> ChatTypeSingle" by (simp add: chat_types)
    show ?thesis
    proof (cases r)
      case (Inl e)
      with 2 Inr g t show ?thesis
        by (intro exI [of _ 2]) (simp add: eval_nat_numeral handleUploadDelivery_def handleGroupChat_def ended_def)
    next
      case members: (Inr members)
      obtain k where "alone (upload_consumer ops) k (GMember p members) (s\<lparr>lg_db := db\<rparr>)
          = Some (fold (group_member_step ops p) members (s\<lparr>lg_db := db\<rparr>), Ack, None)"
        using alone_members by blast
      with members 2 Inr g t show ?thesis
        by (intro exI [of _ "Suc (Suc k)"]) (simp add: handleUploadDelivery_def handleGroupChat_def)
    qed
  next
    case 3
    moreover have "ChatTypeAI \<noteq> ChatTypeSingle" "ChatTypeAI \<noteq> ChatTypeGroup" by (simp_all add: chat_types)
    moreover obtain k where "alone (upload_consumer ops) k (ADraw p) s = (case handleAIChat ops p s of
        (s', e) \<Rightarrow> Some (s', if e = None then Ack else Nack True, None))" using alone_ai by blast
    ultimately show ?thesis using Inr
      by (intro exI [of _ "Suc k"]) (simp add: handleUploadDelivery_def split: prod.split)
  next
    case 4
    with Inr show ?thesis by (intro exI [of _ 1]) (simp add: handleUploadDelivery_def)
  qed
qed

section \<open>All of them together\<close>

text \<open>What the consumer is responsible for in a row: everything but the two marks of its progress.\<close>

definition written :: "message \<Rightarrow> message" where
  "written m = m\<lparr>IsRead := False, SendStatus := SendStatusUnsent\<rparr>"

definition row_ids :: "('db, 'r, 'b, 'g) logic_ops \<Rightarrow> ('db, 'r, 'b, 'g) logic \<Rightarrow> i64 list" where
  "row_ids ops s = map MsgId (tb_rows (lo_msgs ops) (lg_db s))"

definition written_rows :: "('db, 'r, 'b, 'g) logic_ops \<Rightarrow> ('db, 'r, 'b, 'g) logic \<Rightarrow> message set" where
  "written_rows ops s = written ` set (tb_rows (lo_msgs ops) (lg_db s))"

text \<open>
  The message a delivery carries if the consumer stores it under the id of the payload: single chats
  and turns of the assistant's conversation, not group messages.
\<close>

definition carried :: "json option \<Rightarrow> UploadPayload option" where
  "carried body = (case unmarshal_upload body of
     Inl e \<Rightarrow> None
   | Inr p \<Rightarrow> if up_ChatType p = ChatTypeSingle \<or> up_ChatType p = ChatTypeAI then Some p else None)"

text \<open>
  Beside the workers, the chat service and other processes run statements on the same table, and
  Redis, the broker and the generator change as they like.
\<close>

definition others_act :: "('db, 'r, 'b, 'g) logic_ops \<Rightarrow> ('db, 'r, 'b, 'g) logic \<Rightarrow> ('db, 'r, 'b, 'g) logic \<Rightarrow> bool" where
  "others_act ops s s' \<longleftrightarrow> (\<exists>st. lg_db s' = run_stmt (lo_msgs ops) st (lg_db s))"

text \<open>Reading the member table leaves the message table alone.\<close>

definition members_apart :: "('db, 'r, 'b, 'g) logic_ops \<Rightarrow> bool" where
  "members_apart ops \<longleftrightarrow> (\<forall>P db. tb_rows (lo_msgs ops) (fst (tb_find (lo_members ops) P db)) = tb_rows (lo_msgs ops) db)"

definition keeps :: "('db, 'r, 'b, 'g) logic_ops \<Rightarrow> ('db, 'r, 'b, 'g) logic \<Rightarrow> ('db, 'r, 'b, 'g) logic \<Rightarrow> bool" where
  "keeps ops s s' \<longleftrightarrow> written_rows ops s \<subseteq> written_rows ops s' \<and> (distinct (row_ids ops s) \<longrightarrow> distinct (row_ids ops s'))"

lemma keeps_same: "tb_rows (lo_msgs ops) (lg_db s') = tb_rows (lo_msgs ops) (lg_db s) \<Longrightarrow> keeps ops s s'"
  by (simp add: keeps_def written_rows_def row_ids_def)

lemma keeps_snoc:
  "tb_rows (lo_msgs ops) (lg_db s') = tb_rows (lo_msgs ops) (lg_db s) @ [m] \<Longrightarrow>
   MsgId m \<notin> MsgId ` set (tb_rows (lo_msgs ops) (lg_db s)) \<Longrightarrow> keeps ops s s'"
  by (auto simp: keeps_def written_rows_def row_ids_def)

lemma keeps_update:
  assumes "tb_rows (lo_msgs ops) (lg_db s') = update_rows P f (tb_rows (lo_msgs ops) (lg_db s))"
    and "\<And>m. written (f m) = written m"
  shows "keeps ops s s'"
proof -
  have "MsgId (f m) = MsgId m" for m using assms(2) [of m] by (cases "f m"; cases m) (simp add: written_def)
  then have "map MsgId (update_rows P f rs) = map MsgId rs" for rs by (simp add: update_rows_def)
  moreover have "map written (update_rows P f rs) = map written rs" for rs by (simp add: update_rows_def assms(2))
  ultimately show ?thesis using assms(1) by (metis keeps_def written_rows_def row_ids_def list.set_map subset_refl)
qed

lemma keeps_insert:
  assumes "table_laws MsgId (lo_msgs ops)" and "insert_message ops m s = (s', e)"
  shows "keeps ops s s'"
proof -
  from insert_message_sel [OF assms(2)] have "tb_create (lo_msgs ops) m (lg_db s) = (lg_db s', e)" by blast
  from db_table.create_any [OF db_table_of [OF assms(1)] this] show ?thesis
    using keeps_same keeps_snoc by blast
qed

lemma keeps_others:
  assumes laws: "table_laws MsgId (lo_msgs ops)" and "others_act ops s s'"
  shows "keeps ops s s'"
proof -
  have marks: "written (confirm m) = written m" "written (m\<lparr>SendStatus := x\<rparr>) = written m" for m x
    by (simp_all add: written_def confirm_def)
  obtain st where st: "lg_db s' = run_stmt (lo_msgs ops) st (lg_db s)" using assms(2) by (auto simp: others_act_def)
  show ?thesis
  proof (cases st)
    case (StInsert m)
    obtain db' e where c: "tb_create (lo_msgs ops) m (lg_db s) = (db', e)" by fastforce
    with StInsert st have "lg_db s' = db'" by (simp add: run_stmt_def InsertMessage_def)
    with db_table.create_any [OF db_table_of [OF laws] c] show ?thesis using keeps_same keeps_snoc by blast
  next
    case (StDelivered i)
    then have "lg_db s' = fst (MarkSendTransportDelivered (lo_msgs ops) i (lg_db s))"
      using st by (simp add: run_stmt_def NotifyDelivered_def split: prod.split option.split)
    with marks_cases(3) [OF laws, of i "lg_db s"] show ?thesis
      using keeps_same [of ops s' s] keeps_update [of ops s' _ "\<lambda>m. m\<lparr>SendStatus := SendStatusSentUnconfirmed\<rparr>" s, OF _ marks(2)] by auto
  next
    case (StAck i)
    then have "lg_db s' = fst (MarkMessageAsRead (lo_msgs ops) i (lg_db s))"
      using st by (simp add: run_stmt_def AckMessage_def split: prod.split option.split)
    with marks_cases(2) [OF laws, of i "lg_db s"] show ?thesis
      using keeps_same [of ops s' s] keeps_update [of ops s' _ confirm s, OF _ marks(1)] by auto
  next
    case (StReadAll u)
    then have "lg_db s' = fst (MarkMessagesAsRead (lo_msgs ops) u (lg_db s))"
      using st by (simp add: run_stmt_def ReadMessages_def split: prod.split option.split)
    with marks_cases(1) [OF laws, of u "lg_db s"] show ?thesis
      using keeps_same [of ops s' s] keeps_update [of ops s' _ confirm s, OF _ marks(1)] by auto
  qed
qed

text \<open>Which stages a delivery can be in, and which of them come after its row was taken by the table.\<close>

fun stage_ok :: "json option \<Rightarrow> stage \<Rightarrow> bool" where
  "stage_ok body (Parse b) \<longleftrightarrow> b = body"
| "stage_ok body (SDraw p) \<longleftrightarrow> carried body = Some p"
| "stage_ok body (SInsert p m) \<longleftrightarrow> carried body = Some p \<and> written m = written (single_row p)"
| "stage_ok body (SRoute p) \<longleftrightarrow> carried body = Some p"
| "stage_ok body (SPublish p addr) \<longleftrightarrow> carried body = Some p"
| "stage_ok body (ADraw p) \<longleftrightarrow> carried body = Some p"
| "stage_ok body (AInsert p m) \<longleftrightarrow> carried body = Some p \<and> written m = written (single_row p)"
| "stage_ok body c \<longleftrightarrow> carried body = None"

fun stored :: "stage \<Rightarrow> bool" where
  "stored (SRoute p) = True"
| "stored (SPublish p addr) = True"
| "stored _ = False"

definition newly_stored :: "('db, 'r, 'b, 'g) logic_ops \<Rightarrow> json option \<Rightarrow> ('db, 'r, 'b, 'g) logic \<Rightarrow> ('db, 'r, 'b, 'g) logic \<Rightarrow> bool" where
  "newly_stored ops body s s' \<longleftrightarrow> (\<exists>p. carried body = Some p \<and> up_MsgID p \<notin> set (row_ids ops s)
     \<and> written (single_row p) \<in> written_rows ops s')"

lemma written_row:
  "written ((NewMessages i (up_SenderID p) (up_ReceiverID p) (up_GroupID p) (up_Content p) r)\<lparr>MsgId := up_MsgID p, SeqId := up_SeqID p\<rparr>)
     = written (single_row p)"
  by (simp add: written_def NewMessages_def single_row_def)

lemma insert_newly:
  assumes "table_laws MsgId (lo_msgs ops)" and "insert_message ops m s = (s', None)"
    and "carried body = Some p" and "written m = written (single_row p)"
  shows "newly_stored ops body s s'"
proof -
  from insert_message_sel [OF assms(2)] have c: "tb_create (lo_msgs ops) m (lg_db s) = (lg_db s', None)" by blast
  have "MsgId m = up_MsgID p" using arg_cong [OF assms(4), of MsgId] by (simp add: written_def single_row_def)
  with db_table.create_ok [OF db_table_of [OF assms(1)] c] assms(3,4) show ?thesis
    by (auto simp: newly_stored_def row_ids_def written_rows_def)
qed

lemma keeps_refl [simp]: "keeps ops s s"
  by (simp add: keeps_same)

text \<open>What one statement does to the table and to the delivery it is run for.\<close>

lemma upload_effect:
  assumes laws: "table_laws MsgId (lo_msgs ops)" and apart: "members_apart ops"
    and st: "stage_ok body c" and run: "upload_next ops c s = (s', r)"
  shows "keeps ops s s' \<and> (case r of
      Inl c' \<Rightarrow> stage_ok body c' \<and> (stored c' \<longrightarrow> stored c \<or> newly_stored ops body s s')
    | Inr (d, x) \<Rightarrow> d = Ack \<longrightarrow> carried body = None \<or> stored c \<or> newly_stored ops body s s')"
proof (cases c)
  case (Parse b)
  with st run show ?thesis by (auto simp: carried_def chat_types split: sum.splits if_splits)
next
  case (SDraw p)
  with st run show ?thesis by (auto simp: new_message_def written_row keeps_same split: prod.splits)
next
  case (SInsert p m)
  with run obtain e where ins: "insert_message ops m s = (s', e)" by (auto split: prod.splits option.splits)
  with SInsert st run insert_newly [OF laws] keeps_insert [OF laws ins] show ?thesis
    by (cases e) (auto simp: ended_def)
next
  case (SRoute p)
  obtain s1 v where look: "lookup_route ops (up_ReceiverID p) s = (s1, v)" by fastforce
  with SRoute st run lookup_route_sel [OF look] show ?thesis
    by (auto simp: keeps_same ended_def split: sum.splits option.splits)
next
  case (SPublish p addr)
  with st run show ?thesis by (auto simp: keeps_same publish_down_sel ended_def)
next
  case (GList p)
  obtain db v where g: "GetGroupMembers (lo_members ops) (up_GroupID p) (lg_db s) = (db, v)" by fastforce
  then have "fst (tb_find (lo_members ops) (\<lambda>g. gm_GroupID g = up_GroupID p) (lg_db s)) = db"
    by (auto simp: GetGroupMembers_def split: prod.splits sum.splits)
  then have "tb_rows (lo_msgs ops) db = tb_rows (lo_msgs ops) (lg_db s)" using apart by (auto simp: members_apart_def)
  with GList st run g show ?thesis by (auto simp: keeps_same ended_def split: sum.splits)
next
  case (GMember p members)
  with st run show ?thesis by (cases members) (auto simp: ended_def)
next
  case (GDraw p u rest)
  with st run show ?thesis by (auto simp: new_message_def keeps_same split: prod.splits)
next
  case (GRedraw p m rest)
  with st run show ?thesis by (auto simp: keeps_same split: prod.splits)
next
  case (GInsert p m rest)
  with run obtain e where ins: "insert_message ops m s = (s', e)" by (auto split: prod.splits option.splits)
  with GInsert st run keeps_insert [OF laws ins] show ?thesis by (cases e) auto
next
  case (GRoute p m rest)
  obtain s1 v where look: "lookup_route ops (ReceiverId m) s = (s1, v)" by fastforce
  with GRoute st run lookup_route_sel [OF look] show ?thesis
    by (auto simp: keeps_same split: sum.splits option.splits)
next
  case (GPublish p m addr rest)
  with st run show ?thesis by (auto simp: keeps_same publish_down_sel)
next
  case (ADraw p)
  with st run show ?thesis by (auto simp: new_message_def written_row keeps_same split: prod.splits)
next
  case (AInsert p m)
  with run obtain e where ins: "insert_message ops m s = (s', e)" by (auto split: prod.splits)
  with AInsert st run insert_newly [OF laws] keeps_insert [OF laws ins] show ?thesis
    by (cases e) (auto simp: ended_def)
qed

text \<open>
  The deliveries whose message is known to be in the table: a goroutine is past its insert with
  them, or is about to acknowledge, or has acknowledged.
\<close>

fun claims :: "(stage, 'x) worker \<Rightarrow> nat set" where
  "claims (Handling n c) = (if stored c then {n} else {})"
| "claims (Settling n d x) = (if d = Ack then {n} else {})"
| "claims _ = {}"

definition claimed :: "('s, stage, 'x) pool \<Rightarrow> nat set" where
  "claimed p = (\<Union>w \<in> set (pl_workers p). claims w) \<union> {n. (n, Ack) \<in> set (pl_settled p)}"

definition carries :: "('s, 'c, 'x) pool \<Rightarrow> nat \<Rightarrow> UploadPayload \<Rightarrow> bool" where
  "carries p n q \<longleftrightarrow> carried (pl_arrived p ! n) = Some q"

definition in_stage :: "('s, stage, 'x) pool \<Rightarrow> bool" where
  "in_stage p \<longleftrightarrow> (\<forall>n c. Handling n c \<in> set (pl_workers p) \<longrightarrow> stage_ok (pl_arrived p ! n) c)"

definition upload_inv :: "('db, 'r, 'b, 'g) logic_ops \<Rightarrow> (('db, 'r, 'b, 'g) logic, stage, unit) pool \<Rightarrow> bool" where
  [inv_defs]: "upload_inv ops p \<longleftrightarrow> pool_inv p \<and> in_stage p \<and> distinct (row_ids ops (pl_shared p))
     \<and> (\<forall>n \<in> claimed p. \<forall>q. carries p n q \<longrightarrow> written (single_row q) \<in> written_rows ops (pl_shared p))
     \<and> (\<forall>n \<in> claimed p. \<forall>m \<in> claimed p. \<forall>q r. carries p n q \<longrightarrow> carries p m r \<longrightarrow> n \<noteq> m \<longrightarrow> up_MsgID q \<noteq> up_MsgID r)"

lemma claimed_in_use: "claimed p \<subseteq> set (in_use p)"
proof -
  have "claims w \<subseteq> set (held w)" for w :: "(stage, 'x) worker" by (cases w) auto
  then show ?thesis by (fastforce simp: claimed_def in_use_def image_iff)
qed

lemma in_use_arrived: "pool_inv p \<Longrightarrow> n \<in> set (in_use p) \<Longrightarrow> n < length (pl_arrived p)"
  by (auto dest: in_use_tags(2))

lemma in_stage_update:
  "in_stage p \<Longrightarrow> set (pl_workers p') \<subseteq> insert w (set (pl_workers p)) \<Longrightarrow> pl_arrived p' = pl_arrived p \<Longrightarrow>
   (\<And>n c. w = Handling n c \<Longrightarrow> stage_ok (pl_arrived p ! n) c) \<Longrightarrow> in_stage p'"
  by (auto simp: in_stage_def)

text \<open>A step keeps the invariant if it claims nothing new, or one delivery that is newly stored.\<close>

lemma upload_inv_keep:
  assumes "upload_inv ops p" and "pool_inv p'" and "in_stage p'" and "pl_arrived p' = pl_arrived p"
    and k: "keeps ops (pl_shared p) (pl_shared p')"
    and new: "claimed p' \<subseteq> claimed p \<or> (\<exists>n. claimed p' \<subseteq> insert n (claimed p)
      \<and> (carried (pl_arrived p ! n) = None \<or> newly_stored ops (pl_arrived p ! n) (pl_shared p) (pl_shared p')))"
  shows "upload_inv ops p'"
proof -
  have carries: "carries p' = carries p" using assms(4) by (simp add: carries_def fun_eq_iff)
  have dist: "distinct (row_ids ops (pl_shared p'))" using assms(1) k by (simp add: upload_inv_def keeps_def)
  have old: "written (single_row q) \<in> written_rows ops (pl_shared p)" if "n \<in> claimed p" "carries p n q" for n q
    using assms(1) that by (simp add: upload_inv_def)
  have ids: "up_MsgID q \<in> set (row_ids ops (pl_shared p))" if "n \<in> claimed p" "carries p n q" for n q
  proof -
    from old [OF that] obtain m where m: "m \<in> set (tb_rows (lo_msgs ops) (lg_db (pl_shared p)))" "written m = written (single_row q)"
      by (auto simp: written_rows_def)
    have "MsgId m = up_MsgID q" using arg_cong [OF m(2), of MsgId] by (simp add: written_def single_row_def)
    with m(1) show ?thesis by (simp add: row_ids_def) (metis imageI)
  qed
  have new': "n \<in> claimed p \<or> (up_MsgID q \<notin> set (row_ids ops (pl_shared p)) \<and> written (single_row q) \<in> written_rows ops (pl_shared p'))"
    if "n \<in> claimed p'" "carries p n q" for n q
    using new that by (auto simp: newly_stored_def carries_def)
  have rows: "written (single_row q) \<in> written_rows ops (pl_shared p')" if "n \<in> claimed p'" "carries p n q" for n q
    using new' [OF that] old that(2) k by (auto simp: keeps_def)
  have apart: "up_MsgID q \<noteq> up_MsgID r"
    if "n \<in> claimed p'" "m \<in> claimed p'" "carries p n q" "carries p m r" "n \<noteq> m" for n m q r
  proof (cases "n \<in> claimed p \<and> m \<in> claimed p")
    case True
    with that assms(1) show ?thesis unfolding upload_inv_def by blast
  next
    case False
    have "n \<in> claimed p \<or> m \<in> claimed p" using new that(1,2,5) by blast
    with False new' [OF that(1,3)] new' [OF that(2,4)] ids that show ?thesis by metis
  qed
  from dist rows apart assms(2,3) show ?thesis unfolding upload_inv_def carries by blast
qed

lemma claimed_update:
  assumes "set (pl_workers p') \<subseteq> insert w (set (pl_workers p))" and "pl_settled p' = pl_settled p"
  shows "claimed p' \<subseteq> claims w \<union> claimed p"
  using assms by (auto simp: claimed_def)

lemma upload_inv_worker:
  assumes laws: "table_laws MsgId (lo_msgs ops)" "members_apart ops"
    and "worker_step (upload_consumer ops) p p'" and inv: "upload_inv ops p"
  shows "upload_inv ops p'"
proof -
  have pool: "pool_inv p'" and stages: "in_stage p" using pool_inv_worker assms(3,4) by (auto simp: upload_inv_def)
  have sub: "set ((pl_workers p)[i := w]) \<subseteq> insert w (set (pl_workers p))" for i w by (rule set_update_subset_insert)
  from assms(3) show ?thesis
  proof cases
    case (receive i n ns)
    let ?w = "Handling n (cs_start (upload_consumer ops) (pl_arrived p ! n)) :: (stage, unit) worker"
    have "in_stage p'" by (rule in_stage_update [OF stages, of _ ?w]) (use receive sub in auto)
    moreover have "claimed p' \<subseteq> claims ?w \<union> claimed p" by (rule claimed_update) (use receive sub in auto)
    ultimately show ?thesis using upload_inv_keep [OF inv pool] receive by auto
  next
    case (leave i)
    have "in_stage p'" by (rule in_stage_update [OF stages, of _ Finished]) (use leave sub in auto)
    moreover have "claimed p' \<subseteq> claims (Finished :: (stage, unit) worker) \<union> claimed p" by (rule claimed_update) (use leave sub in auto)
    ultimately show ?thesis using upload_inv_keep [OF inv pool] leave by auto
  next
    case (statement i n c s' c')
    let ?w = "Handling n c' :: (stage, unit) worker"
    have here: "Handling n c \<in> set (pl_workers p)" using statement(2,3) nth_mem by metis
    have ok: "stage_ok (pl_arrived p ! n) c" using stages here by (simp add: in_stage_def)
    have next_c: "upload_next ops c (pl_shared p) = (s', Inl c')" using statement by simp
    note eff = upload_effect [OF laws ok next_c, simplified]
    have "in_stage p'" by (rule in_stage_update [OF stages, of _ ?w]) (use statement sub eff in auto)
    moreover have "claimed p' \<subseteq> claims ?w \<union> claimed p" by (rule claimed_update) (use statement sub in auto)
    moreover have "stored c \<Longrightarrow> n \<in> claimed p" using here by (force simp: claimed_def)
    ultimately show ?thesis using upload_inv_keep [OF inv pool] statement eff by (auto split: if_splits)
  next
    case (last_statement i n c s' d x)
    let ?w = "Settling n d x :: (stage, unit) worker"
    have here: "Handling n c \<in> set (pl_workers p)" using last_statement(2,3) nth_mem by metis
    have ok: "stage_ok (pl_arrived p ! n) c" using stages here by (simp add: in_stage_def)
    have next_c: "upload_next ops c (pl_shared p) = (s', Inr (d, x))" using last_statement by simp
    note eff = upload_effect [OF laws ok next_c, simplified]
    have "in_stage p'" by (rule in_stage_update [OF stages, of _ ?w]) (use last_statement sub in auto)
    moreover have "claimed p' \<subseteq> claims ?w \<union> claimed p" by (rule claimed_update) (use last_statement sub in auto)
    moreover have "stored c \<Longrightarrow> n \<in> claimed p" using here by (force simp: claimed_def)
    ultimately show ?thesis using upload_inv_keep [OF inv pool] last_statement eff by (auto split: if_splits)
  next
    case (settle i n d x)
    have here: "Settling n d x \<in> set (pl_workers p)" using settle(2,3) nth_mem by metis
    have "in_stage p'" by (rule in_stage_update [OF stages, of _ Ranging]) (use settle sub in auto)
    moreover have "n \<in> claimed p" if "d = Ack" using here that by (force simp: claimed_def)
    then have "claimed p' \<subseteq> claimed p" using settle sub [of i Ranging] by (auto simp: claimed_def)
    ultimately show ?thesis using upload_inv_keep [OF inv pool] settle by auto
  qed
qed

lemma upload_inv_event:
  assumes laws: "table_laws MsgId (lo_msgs ops)"
    and "pool_event (others_act ops) p p'" and inv: "upload_inv ops p"
  shows "upload_inv ops p'"
proof -
  have pool: "pool_inv p'" "pool_inv p" using pool_inv_event assms(2,3) by (auto simp: upload_inv_def)
  from assms(2) show ?thesis
  proof cases
    case (arrive body)
    have "\<forall>n \<in> set (in_use p). n < length (pl_arrived p)" using in_use_arrived [OF pool(2)] by blast
    then have same: "pl_arrived p' ! n = pl_arrived p ! n" if "n \<in> set (in_use p)" for n
      using arrive that by (simp add: nth_append)
    have "n \<in> set (in_use p)" if "Handling n c \<in> set (pl_workers p)" for n c
      using that by (force simp: in_use_def)
    then have "in_stage p'" using inv same arrive by (auto simp: upload_inv_def in_stage_def)
    moreover have "claimed p' = claimed p" using arrive by (simp add: claimed_def)
    moreover have "carries p' n = carries p n" if "n \<in> claimed p" for n
      using same claimed_in_use that by (fastforce simp: carries_def)
    ultimately show ?thesis using inv pool(1) arrive by (auto simp: upload_inv_def)
  next
    case close_chan
    then show ?thesis using inv pool(1)
      by (auto simp: upload_inv_def in_stage_def claimed_def carries_def)
  next
    case (outside s')
    then have "in_stage p'" "claimed p' \<subseteq> claimed p" using inv by (auto simp: upload_inv_def in_stage_def claimed_def)
    then show ?thesis using upload_inv_keep [OF inv pool(1)] outside keeps_others [OF laws] by auto
  qed
qed

lemma upload_inv_reachable:
  assumes "table_laws MsgId (lo_msgs ops)" and "members_apart ops" and "distinct (row_ids ops s)"
    and "pool_reachable (upload_consumer ops) (others_act ops) (start_workers uploadWorkers s) p"
  shows "upload_inv ops p"
  using assms(4)
proof (induction rule: pool_reachable.induct)
  case pool_start
  have "claimed (start_workers uploadWorkers s) = ({} :: nat set)"
    by (auto simp: claimed_def start_workers_def split: if_splits)
  then show ?case using assms(3) pool_inv_start
    by (auto simp: upload_inv_def in_stage_def start_workers_def)
qed (use upload_inv_worker upload_inv_event assms(1,2) in blast)+

section \<open>Properties\<close>



text \<open>The same message is delivered twice.\<close>

definition twice :: "((message mem_db, mem_redis, mem_broker, i64) logic, stage, unit) pool" where
  "twice = (start_workers uploadWorkers (mem_state [(route_key 2, ''g1'')] []))
     \<lparr>pl_arrived := [Some (marshal_upload hi_payload), Some (marshal_upload hi_payload)], pl_chan := [0, 1]\<rparr>"

lemma twice_reachable:
  "pool_reachable cs env (start_workers uploadWorkers (mem_state [(route_key 2, ''g1'')] [])) twice"
proof -
  let ?p = "start_workers uploadWorkers (mem_state [(route_key 2, ''g1'')] []) :: ((message mem_db, mem_redis, mem_broker, i64) logic, stage, unit) pool"
  let ?b = "Some (marshal_upload hi_payload)"
  have "pool_reachable cs env ?p (?p\<lparr>pl_arrived := [?b], pl_chan := [0]\<rparr>)"
    using pool_happens [OF pool_start pool_event.arrive [of ?p env ?b]] by (simp add: start_workers_def)
  from pool_happens [OF this pool_event.arrive [of _ env ?b]] show ?thesis by (simp add: start_workers_def twice_def)
qed

lemma twice_handled:
  "\<exists>p. pool_reachable (upload_consumer mem_logic) env (start_workers uploadWorkers (mem_state [(route_key 2, ''g1'')] [])) p
     \<and> pl_settled p = [(0, Ack), (1, Nack True)] \<and> pl_chan p = [] \<and> \<not> pl_closed p
     \<and> pl_arrived p = pl_arrived twice \<and> pl_workers p = replicate uploadWorkers Ranging"
proof -
  let ?h = "handleUploadDelivery mem_logic (Some (marshal_upload hi_payload))"
  let ?s = "mem_state [(route_key 2, ''g1'')] []"
  let ?s1 = "fst (?h ?s)"
  have kind: "up_ChatType hi_payload = ChatTypeSingle" by (simp add: hi_payload_def chat_types)
  have first: "snd (?h ?s) = Ack" and second: "snd (?h ?s1) = Nack True"
    unfolding handleUpload_single [OF kind]
    by (simp_all add: handleSingleChat_unfold insert_message_def InsertMessage_def lookup_route_def
        publish_down_def PublishDown_def publish_on_def getPublishCh_def single_row_def mem_amqp_def mb_fault_def mem_logic_simps Let_def)
  let ?p1 = "twice\<lparr>pl_shared := ?s1, pl_chan := [1], pl_settled := [(0, Ack)]\<rparr>"
  let ?p2 = "?p1\<lparr>pl_shared := fst (?h ?s1), pl_chan := [], pl_settled := [(0, Ack), (1, Nack True)]\<rparr>"
  let ?r = "pool_reachable (upload_consumer mem_logic) env (start_workers uploadWorkers ?s)"
  have one: "\<exists>k. alone (upload_consumer mem_logic) k (Parse (Some (marshal_upload hi_payload))) s = Some (fst (?h s), snd (?h s), None)" for s
    using worker_alone [of mem_logic "Some (marshal_upload hi_payload)" s] by (simp split: prod.splits)
  have idle: "0 < length (pl_workers twice)" "pl_workers twice ! 0 = Ranging" by (simp_all add: twice_def start_workers_def uploadWorkers_def)
  obtain k where "alone (upload_consumer mem_logic) k (Parse (Some (marshal_upload hi_payload))) ?s = Some (?s1, Ack, None)"
    using one [of ?s] first by auto
  with delivery_reachable [OF twice_reachable idle, of 0 "[1]" "upload_consumer mem_logic" k] have "?r ?p1"
    by (simp add: twice_def start_workers_def)
  moreover obtain j where "alone (upload_consumer mem_logic) j (Parse (Some (marshal_upload hi_payload))) ?s1 = Some (fst (?h ?s1), Nack True, None)"
    using one [of ?s1] second by auto
  ultimately have "?r ?p2"
    using delivery_reachable [of _ _ _ ?p1 0 1 "[]" j "fst (?h ?s1)" "Nack True" None] idle by (simp add: twice_def start_workers_def)
  then show ?thesis by (intro exI [of _ ?p2] conjI) (simp_all add: twice_def start_workers_def)
qed


text \<open>
  C20. Nothing is left lying about. Between two arrivals the workers can take only finitely many
  steps, whatever the interleaving, and when none of them can take another, every delivery that
  ever arrived has been settled, and once; if the channel was closed by then all workers have left.
\<close>

theorem upload_workers_settle_all:
  assumes "pool_reachable (upload_consumer ops) env (start_workers uploadWorkers s) p"
  shows "wf {(q', q). worker_step (upload_consumer ops) q q'}
    \<and> ((\<nexists>p'. worker_step (upload_consumer ops) p p') \<longrightarrow>
         distinct (map fst (pl_settled p)) \<and> fst ` set (pl_settled p) = {..<length (pl_arrived p)}
         \<and> (pl_closed p \<longrightarrow> set (pl_workers p) = {Finished}))"
proof (intro conjI [OF upload.workers_come_to_rest] impI)
  assume "\<nexists>p'. worker_step (upload_consumer ops) p p'"
  moreover have "pl_workers p \<noteq> []"
    using pool_workers_length [OF assms] by (auto simp: start_workers_def uploadWorkers_def)
  ultimately show "distinct (map fst (pl_settled p)) \<and> fst ` set (pl_settled p) = {..<length (pl_arrived p)}
     \<and> (pl_closed p \<longrightarrow> set (pl_workers p) = {Finished})"
    using upload.at_rest_all_settled pool_inv_reachable [OF assms pool_inv_start] by blast
qed

lemma upload_workers_settle_all_witness:
  "\<exists>p :: ((message mem_db, mem_redis, mem_broker, i64) logic, stage, unit) pool.
     (\<nexists>p'. worker_step (upload_consumer mem_logic) p p') \<and> fst ` set (pl_settled p) = {..<length (pl_arrived p)} \<and> length (pl_arrived p) = 2"
proof -
  obtain p where r: "pool_reachable (upload_consumer mem_logic) (others_act mem_logic) (start_workers uploadWorkers (mem_state [(route_key 2, ''g1'')] [])) p"
    and p: "pl_chan p = []" "\<not> pl_closed p" "pl_arrived p = pl_arrived twice" "pl_workers p = replicate uploadWorkers Ranging"
    using twice_handled by blast
  have "\<nexists>p'. worker_step (upload_consumer mem_logic) p p'" using p by (auto elim!: worker_stepE)
  with upload_workers_settle_all [OF r] show ?thesis by (intro exI [of _ p] conjI) (simp_all add: p(3) twice_def)
qed

end
