(* ===== verification/Down_Workers.thy ===== *)
theory Down_Workers
  imports Gateway Workers "HOL-Library.Sublist"
begin

text \<open>
  The eight goroutines of \<open>StartMQConsumer\<close> (\<open>apps/gateway/ws/mq_consumer.go\<close>): \<open>handleMQDelivery\<close> of
  theory \<open>Gateway\<close> statement by statement. Its last statement may start a goroutine that
  notifies the logic server, after the delivery has been acknowledged.
\<close>

datatype down_stage =
    DParse "json option"
  | DFind DownPayload
  | DSend DownPayload nat

fun down_next ::
    "('r, 'b, 'g, 'l) gateway_ops \<Rightarrow> down_stage \<Rightarrow> ('r, 'b, 'g, 'l) gateway \<Rightarrow>
     ('r, 'b, 'g, 'l) gateway \<times> (down_stage + disposition \<times> (i64 \<times> i64) option)" where
  "down_next ops (DParse body) s =
     (s, case unmarshal_down body of Inl e \<Rightarrow> Inr (Nack False, None) | Inr p \<Rightarrow> Inl (DFind p))"
| "down_next ops (DFind p) s =
     (s, case HubGet (fmt_int64 (dp_ReceiverID p)) (gw_hub s) of
           None \<Rightarrow> Inr (Ack, None)
         | Some i \<Rightarrow> Inl (DSend p i))"
| "down_next ops (DSend p i) s =
     (on_hub (on_ws i (SendMessage (Doc (marshalChatPush (dp_MsgID p) (dp_SeqID p) (dp_GroupID p) (dp_SenderID p) (dp_Content p))))) s,
      Inr (Ack, if go_notifies ops then Some (dp_SenderID p, dp_MsgID p) else None))"

definition down_consumer ::
    "('r, 'b, 'g, 'l) gateway_ops \<Rightarrow> (('r, 'b, 'g, 'l) gateway, down_stage, i64 \<times> i64) consumer" where
  "down_consumer ops = \<lparr>cs_start = DParse, cs_next = down_next ops\<rparr>"

definition downWorkers :: nat where "downWorkers = 8"

lemma down_consumer_sel [simp]:
  "cs_start (down_consumer ops) = DParse" "cs_next (down_consumer ops) = down_next ops"
  by (simp_all add: down_consumer_def)

fun down_left :: "down_stage \<Rightarrow> nat" where
  "down_left (DParse body) = 2"
| "down_left (DFind p) = 1"
| "down_left (DSend p i) = 0"

lemma down_next_onward: "down_next ops c s = (s', Inl c') \<Longrightarrow> (c', c) \<in> measure down_left"
  by (cases c) (auto split: sum.splits option.splits)

interpretation down: consumer_code "down_consumer ops" "measure down_left"
  for ops :: "('r, 'b, 'g, 'l) gateway_ops"
  by unfold_locales (auto dest: down_next_onward)

lemma down_alone: "alone (down_consumer ops) 3 (DParse body) s = Some (handleMQDelivery ops body s)"
  by (simp add: eval_nat_numeral handleMQDelivery_def split: sum.split option.split)

text \<open>
  A goroutine that looked a connection up still holds it when another one, or the user's next
  connection, has changed the table: \<open>down_stage_ok\<close> says what is known of a delivery at each stage.
\<close>

fun down_stage_ok :: "json option \<Rightarrow> down_stage \<Rightarrow> bool" where
  "down_stage_ok body (DParse b) \<longleftrightarrow> b = body"
| "down_stage_ok body (DFind p) \<longleftrightarrow> unmarshal_down body = Inr p"
| "down_stage_ok body (DSend p i) \<longleftrightarrow> unmarshal_down body = Inr p"

definition notice_of :: "json option \<Rightarrow> (i64 \<times> i64) option" where
  "notice_of body = (case unmarshal_down body of Inl e \<Rightarrow> None | Inr p \<Rightarrow> Some (dp_SenderID p, dp_MsgID p))"

lemma down_effect:
  "down_stage_ok body c \<Longrightarrow> down_next ops c s = (s', r) \<Longrightarrow>
   (case r of Inl c' \<Rightarrow> down_stage_ok body c' | Inr (d, x) \<Rightarrow> d = Ack \<and> (x = None \<or> x = notice_of body) \<or> x = None)"
  by (cases c) (auto simp: notice_of_def split: sum.splits option.splits if_splits)

definition noticed :: "(('r, 'b, 'g, 'l) gateway, down_stage, i64 \<times> i64) pool \<Rightarrow> nat list \<Rightarrow> bool" where
  "noticed p ns \<longleftrightarrow> subseq ns (map fst (filter (\<lambda>t. snd t = Ack) (pl_settled p)))
     \<and> map Some (pl_spawned p) = map (\<lambda>n. notice_of (pl_arrived p ! n)) ns"

fun down_worker_ok :: "json option list \<Rightarrow> (down_stage, i64 \<times> i64) worker \<Rightarrow> bool" where
  "down_worker_ok arrived (Handling n c) \<longleftrightarrow> down_stage_ok (arrived ! n) c"
| "down_worker_ok arrived (Settling n d x) \<longleftrightarrow> x = None \<or> d = Ack \<and> x = notice_of (arrived ! n)"
| "down_worker_ok arrived _ \<longleftrightarrow> True"

definition down_inv :: "(('r, 'b, 'g, 'l) gateway, down_stage, i64 \<times> i64) pool \<Rightarrow> bool" where
  [inv_defs]: "down_inv p \<longleftrightarrow> pool_inv p \<and> list_all (down_worker_ok (pl_arrived p)) (pl_workers p) \<and> (\<exists>ns. noticed p ns)"

lemma noticed_same:
  fixes p p' :: "(('r, 'b, 'g, 'l) gateway, down_stage, i64 \<times> i64) pool"
  shows "noticed p ns \<Longrightarrow> pl_settled p' = pl_settled p \<Longrightarrow> pl_spawned p' = pl_spawned p \<Longrightarrow> pl_arrived p' = pl_arrived p \<Longrightarrow> Ex (noticed p')"
  by (intro exI [of _ ns]) (simp add: noticed_def)

lemma list_all_update: "list_all P xs \<Longrightarrow> P x \<Longrightarrow> list_all P (xs[i := x])"
  using set_update_subset_insert [of xs i x] by (auto simp: list_all_iff)

lemma down_inv_worker:
  assumes step: "worker_step (down_consumer ops) p p'" and inv: "down_inv p"
  shows "down_inv p'"
proof -
  have pool: "pool_inv p'" using pool_inv_worker step inv by (auto simp: down_inv_def)
  obtain ns where ns: "noticed p ns" using inv by (auto simp: down_inv_def)
  have ok: "list_all (down_worker_ok (pl_arrived p)) (pl_workers p)" using inv by (simp add: down_inv_def)
  then have at: "down_worker_ok (pl_arrived p) (pl_workers p ! i)" if "i < length (pl_workers p)" for i
    using that by (simp add: list_all_length)
  from step show ?thesis
  proof cases
    case (receive i n t)
    with pool noticed_same [OF ns] list_all_update [OF ok] show ?thesis by (auto simp: down_inv_def)
  next
    case (leave i)
    with pool noticed_same [OF ns] list_all_update [OF ok] show ?thesis by (auto simp: down_inv_def)
  next
    case (statement i n c s' c')
    then have "down_stage_ok (pl_arrived p ! n) c'"
      using at [OF statement(2)] down_effect [of "pl_arrived p ! n" c ops "pl_shared p" s' "Inl c'"] by simp
    with statement pool noticed_same [OF ns] list_all_update [OF ok] show ?thesis by (auto simp: down_inv_def)
  next
    case (last_statement i n c s' d x)
    then have "down_worker_ok (pl_arrived p) (Settling n d x)"
      using at [OF last_statement(2)] down_effect [of "pl_arrived p ! n" c ops "pl_shared p" s' "Inr (d, x)"] by auto
    with last_statement pool noticed_same [OF ns] list_all_update [OF ok] show ?thesis by (auto simp: down_inv_def)
  next
    case (settle i n d x)
    with at [OF settle(2)] have x: "x = None \<or> d = Ack \<and> x = notice_of (pl_arrived p ! n)" by simp
    have "\<exists>ns. noticed p' ns"
    proof (cases x)
      case None
      with settle ns have "noticed p' ns" by (auto simp: noticed_def)
      then show ?thesis ..
    next
      case (Some y)
      with x have d: "d = Ack" and y: "notice_of (pl_arrived p ! n) = Some y" by simp_all
      from settle ns have "noticed p' (ns @ [n])" by (simp add: noticed_def d y Some)
      then show ?thesis ..
    qed
    with settle pool list_all_update [OF ok] show ?thesis by (auto simp: down_inv_def)
  qed
qed

lemma down_worker_ok_more:
  "down_worker_ok arrived w \<Longrightarrow> (\<And>n. n \<in> set (held w) \<Longrightarrow> n < length arrived) \<Longrightarrow> down_worker_ok (arrived @ [b]) w"
  by (cases w) (auto simp: nth_append)

lemma down_inv_event:
  assumes "pool_event env p p'" and inv: "down_inv p"
  shows "down_inv p'"
proof -
  have pool: "pool_inv p'" "pool_inv p" using pool_inv_event assms by (auto simp: down_inv_def)
  obtain ns where ns: "noticed p ns" using inv by (auto simp: down_inv_def)
  from assms(1) show ?thesis
  proof cases
    case (arrive body)
    have lt: "n < length (pl_arrived p)" if "n \<in> set (in_use p)" for n using in_use_tags(2) [OF pool(2)] that by auto
    have "n < length (pl_arrived p)" if "w \<in> set (pl_workers p)" "n \<in> set (held w)" for n w
      using lt that by (auto simp: in_use_def)
    then have "list_all (down_worker_ok (pl_arrived p')) (pl_workers p')"
      using inv arrive by (auto simp: down_inv_def list_all_iff intro: down_worker_ok_more)
    moreover have "n < length (pl_arrived p)" if "n \<in> set ns" for n
    proof -
      from ns that have "n \<in> set (map fst (filter (\<lambda>t. snd t = Ack) (pl_settled p)))"
        unfolding noticed_def by (metis notin_set_nthsI subseq_conv_nths)
      then show ?thesis by (intro lt) (auto simp: in_use_def)
    qed
    with ns arrive have "noticed p' ns" by (auto simp: noticed_def nth_append)
    ultimately show ?thesis using pool(1) by (auto simp: down_inv_def)
  next
    case close_chan
    with inv pool(1) noticed_same [OF ns] show ?thesis by (auto simp: down_inv_def)
  next
    case (outside s')
    with inv pool(1) noticed_same [OF ns] show ?thesis by (auto simp: down_inv_def)
  qed
qed

lemma down_inv_reachable:
  "pool_reachable (down_consumer ops) env (start_workers k s) p \<Longrightarrow> down_inv p"
proof (induction rule: pool_reachable.induct)
  case pool_start
  have "noticed (start_workers k s) []" by (simp add: noticed_def start_workers_def)
  then show ?case using pool_inv_start by (auto simp: down_inv_def start_workers_def list_all_iff)
qed (use down_inv_worker down_inv_event in blast)+

section \<open>Properties\<close>



definition down_msg :: "i64 \<Rightarrow> i64 \<Rightarrow> DownPayload" where
  "down_msg m q = hi_down\<lparr>dp_MsgID := m, dp_SeqID := q\<rparr>"

text \<open>
  The order of a queue is not the order on the connection. Two messages to one user, numbered one
  and two in their conversation and delivered in this order, can be written to his connection
  the other way round: one worker has taken the first when another takes the second and is
  faster. What is left to tell the order is the sequence number in the message.
\<close>

theorem down_workers_may_reorder:
  "\<exists>p. pool_reachable (down_consumer mem_gateway) env (start_workers downWorkers (gw_one [])) p
     \<and> pl_arrived p = [Some (marshal_down (down_msg 7 1)), Some (marshal_down (down_msg 8 2))]
     \<and> ws_sent (hub_heap (gw_hub (pl_shared p)) ! 0) =
         [Doc (marshalChatPush 8 2 0 3 ''yo''), Doc (marshalChatPush 7 1 0 3 ''yo'')]"
proof -
  let ?cs = "down_consumer mem_gateway"
  let ?b1 = "Some (marshal_down (down_msg 7 1))" and ?b2 = "Some (marshal_down (down_msg 8 2))"
  let ?s = "gw_one []"
  let ?h2 = "handleMQDelivery mem_gateway ?b2 ?s"
  let ?h1 = "handleMQDelivery mem_gateway ?b1 (fst ?h2)"
  let ?p0 = "start_workers downWorkers ?s :: ((mem_redis, mem_broker, i64, message mem_db) gateway, down_stage, i64 \<times> i64) pool"
  let ?r = "pool_reachable ?cs env ?p0"
  let ?p1 = "?p0\<lparr>pl_arrived := [?b1, ?b2], pl_chan := [0, 1]\<rparr>"
  have len: "length (pl_workers ?p0) = 8" "\<And>i. i < 8 \<Longrightarrow> pl_workers ?p0 ! i = Ranging"
    by (simp_all add: start_workers_def downWorkers_def)
  have "?r (?p0\<lparr>pl_arrived := [?b1], pl_chan := [0]\<rparr>)"
    using pool_happens [OF pool_start pool_event.arrive [of ?p0 env ?b1]] by (simp add: start_workers_def)
  from pool_happens [OF this pool_event.arrive [of _ env ?b2]] have p1: "?r ?p1" by (simp add: start_workers_def)
  let ?p2 = "?p1\<lparr>pl_chan := [1], pl_workers := (pl_workers ?p1)[0 := Handling 0 (DParse ?b1)]\<rparr>"
  have p2: "?r ?p2" using pool_works [OF p1 worker_step.receive [of 0 ?p1 0 "[1]" ?cs]] len by simp
  have "alone ?cs 3 (cs_start ?cs (pl_arrived ?p2 ! 1)) (pl_shared ?p2) = Some ?h2"
    by (simp add: down_alone start_workers_def)
  then obtain ys where p3: "?r (?p2\<lparr>pl_shared := fst ?h2, pl_chan := [], pl_settled := [(1, fst (snd ?h2))], pl_spawned := ys\<rparr>)" (is "pool_reachable _ _ _ ?p3")
    using delivery_reachable [OF p2, of 1 1 "[]" 3 "fst ?h2" "fst (snd ?h2)" "snd (snd ?h2)"] len
    by (simp add: start_workers_def)
  have "alone ?cs 3 (DParse ?b1) (pl_shared ?p3) = Some ?h1" by (simp add: down_alone)
  then have p4: "?r (?p3\<lparr>pl_shared := fst ?h1, pl_workers := (pl_workers ?p3)[0 := Settling 0 (fst (snd ?h1)) (snd (snd ?h1))]\<rparr>)" (is "pool_reachable _ _ _ ?p4")
    using alone_reachable [OF p3, of 0 0 "DParse ?b1" 3 "fst ?h1" "fst (snd ?h1)" "snd (snd ?h1)"] len by simp
  have "ws_sent (hub_heap (gw_hub (fst ?h1)) ! 0) = [Doc (marshalChatPush 8 2 0 3 ''yo''), Doc (marshalChatPush 7 1 0 3 ''yo'')]"
    by (simp add: handleMQDelivery_def down_msg_def hi_down_def HubGet_def gw_one_def NewWsClient_def on_hub_def on_ws_def SendMessage_def
        send_cap_def Let_def)
  with p4 show ?thesis by (intro exI [of _ ?p4] conjI) simp_all
qed

text \<open>
  A notice does not mean that the connection took the message: \<open>SendMessage\<close> tells nobody that
  it refused, so a message for a connection that is closed already, and still in the table, is
  reported as handed over.
\<close>

lemma refused_message_reported:
  assumes "unmarshal_down body = Inr q" and "HubGet (fmt_int64 (dp_ReceiverID q)) (gw_hub s) = Some i"
    and "i < length (hub_heap (gw_hub s))" and "go_notifies ops"
    and "ws_closed (hub_heap (gw_hub s) ! i)" and "\<And>n. \<not> ws_pick (hub_heap (gw_hub s) ! i) n"
  shows "\<exists>s'. handleMQDelivery ops body s = (s', Ack, Some (dp_SenderID q, dp_MsgID q))
    \<and> ws_accepted (hub_heap (gw_hub s') ! i) = ws_accepted (hub_heap (gw_hub s) ! i)"
  using assms by (simp add: handleMQDelivery_def on_hub_def on_ws_def SendMessage_def Let_def)

end
