(* ===== verification/Mailbox.thy ===== *)
theory Mailbox
  imports Upload_Workers Simulation
begin

text \<open>
  What the upload consumer is for, without goroutines, statements, Redis or a broker: a mailbox. Messages are
  offered to it, and of a message that has been offered it puts rows on its shelf, each under an id of
  its own. The pool of goroutines (\<open>apps/logic/service/upload_consumer.go\<close>) implements it: nothing else gets
  into the table, and nothing in it is changed but the marks of a message's progress.
\<close>

section \<open>The mailbox\<close>

record mailbox =
  mx_offered :: "UploadPayload set"
  mx_shelf :: "message set"

text \<open>
  The rows a message may get: for a single chat or a turn with the assistant one under the message's
  own id, for a group one for each receiver that is not the sender, under an id that was drawn.
\<close>

definition row_for :: "UploadPayload \<Rightarrow> message \<Rightarrow> bool" where
  "row_for q m \<longleftrightarrow>
     (up_ChatType q = ChatTypeSingle \<or> up_ChatType q = ChatTypeAI) \<and> m = single_row q
   \<or> up_ChatType q = ChatTypeGroup \<and> ReceiverId m \<noteq> up_SenderID q \<and> m = group_row q (MsgId m) (ReceiverId m)"

inductive mailbox_step :: "mailbox \<Rightarrow> mailbox \<Rightarrow> bool" where
  offer: "mailbox_step b (b\<lparr>mx_offered := insert q (mx_offered b)\<rparr>)"
| shelve: "q \<in> mx_offered b \<Longrightarrow> row_for q m \<Longrightarrow> MsgId m \<notin> MsgId ` mx_shelf b \<Longrightarrow>
    mailbox_step b (b\<lparr>mx_shelf := insert m (mx_shelf b)\<rparr>)"

text \<open>What there is to see of a pool.\<close>

definition offered :: "('s, stage, unit) pool \<Rightarrow> UploadPayload set" where
  "offered p = {q. \<exists>body \<in> set (pl_arrived p). unmarshal_upload body = Inr q}"

definition mailbox_of :: "('db, 'r, 'b, 'g) logic_ops \<Rightarrow> (('db, 'r, 'b, 'g) logic, stage, unit) pool \<Rightarrow> mailbox" where
  "mailbox_of ops p = \<lparr>mx_offered = offered p, mx_shelf = written_rows ops (pl_shared p)\<rparr>"

text \<open>The rest of the process, for the moment, sets marks only.\<close>

definition marks_only :: "('db, 'r, 'b, 'g) logic_ops \<Rightarrow> ('db, 'r, 'b, 'g) logic \<Rightarrow> ('db, 'r, 'b, 'g) logic \<Rightarrow> bool" where
  "marks_only ops s s' \<longleftrightarrow> written_rows ops s' = written_rows ops s"

inductive pool_move ::
    "('db, 'r, 'b, 'g) logic_ops \<Rightarrow> (('db, 'r, 'b, 'g) logic, stage, unit) pool \<Rightarrow> (('db, 'r, 'b, 'g) logic, stage, unit) pool \<Rightarrow> bool"
  for ops where
  by_worker: "worker_step (upload_consumer ops) p p' \<Longrightarrow> pool_move ops p p'"
| by_others: "pool_event (marks_only ops) p p' \<Longrightarrow> pool_move ops p p'"

section \<open>What a goroutine holds in its hands\<close>

fun holds :: "json option \<Rightarrow> stage \<Rightarrow> bool" where
  "holds body (Parse b) \<longleftrightarrow> b = body"
| "holds body (SDraw p) \<longleftrightarrow> unmarshal_upload body = Inr p \<and> up_ChatType p = ChatTypeSingle"
| "holds body (SInsert p m) \<longleftrightarrow> unmarshal_upload body = Inr p \<and> up_ChatType p = ChatTypeSingle \<and> written m = single_row p"
| "holds body (ADraw p) \<longleftrightarrow> unmarshal_upload body = Inr p \<and> up_ChatType p = ChatTypeAI"
| "holds body (AInsert p m) \<longleftrightarrow> unmarshal_upload body = Inr p \<and> up_ChatType p = ChatTypeAI \<and> written m = single_row p"
| "holds body (GDraw p u rest) \<longleftrightarrow> unmarshal_upload body = Inr p \<and> up_ChatType p = ChatTypeGroup \<and> u \<noteq> up_SenderID p"
| "holds body (GRedraw p m rest) \<longleftrightarrow> unmarshal_upload body = Inr p \<and> up_ChatType p = ChatTypeGroup
     \<and> ReceiverId m \<noteq> up_SenderID p \<and> (\<forall>i. m\<lparr>MsgId := i, SeqId := up_SeqID p\<rparr> = group_row p i (ReceiverId m))"
| "holds body (GInsert p m rest) \<longleftrightarrow> unmarshal_upload body = Inr p \<and> up_ChatType p = ChatTypeGroup
     \<and> ReceiverId m \<noteq> up_SenderID p \<and> m = group_row p (MsgId m) (ReceiverId m)"
| "holds body (SRoute p) \<longleftrightarrow> True"
| "holds body (SPublish p addr) \<longleftrightarrow> True"
| "holds body (GList p) \<longleftrightarrow> unmarshal_upload body = Inr p \<and> up_ChatType p = ChatTypeGroup"
| "holds body (GMember p rest) \<longleftrightarrow> unmarshal_upload body = Inr p \<and> up_ChatType p = ChatTypeGroup"
| "holds body (GRoute p m rest) \<longleftrightarrow> unmarshal_upload body = Inr p \<and> up_ChatType p = ChatTypeGroup"
| "holds body (GPublish p m addr rest) \<longleftrightarrow> unmarshal_upload body = Inr p \<and> up_ChatType p = ChatTypeGroup"

lemma written_drawn:
  "written ((NewMessages i (up_SenderID p) (up_ReceiverID p) (up_GroupID p) (up_Content p) r)\<lparr>MsgId := up_MsgID p, SeqId := up_SeqID p\<rparr>)
     = single_row p"
  by (simp add: written_def NewMessages_def single_row_def)

lemma written_group: "written (group_row p i u) = group_row p i u" "written (single_row p) = single_row p"
  by (simp_all add: written_def group_row_def single_row_def)

lemma written_MsgId [simp]: "MsgId (written m) = MsgId m"
  by (simp add: written_def)

lemma row_for_id: "row_for q m \<Longrightarrow> written m = m"
  unfolding row_for_def using written_group by metis

text \<open>What a statement may do to the table.\<close>

definition shelves :: "('db, 'r, 'b, 'g) logic_ops \<Rightarrow> json option \<Rightarrow> ('db, 'r, 'b, 'g) logic \<Rightarrow> ('db, 'r, 'b, 'g) logic \<Rightarrow> bool" where
  "shelves ops body s s' \<longleftrightarrow> written_rows ops s' = written_rows ops s
     \<or> (\<exists>q m. unmarshal_upload body = Inr q \<and> row_for q m \<and> MsgId m \<notin> MsgId ` written_rows ops s
          \<and> written_rows ops s' = insert m (written_rows ops s))"

lemma shelves_same: "tb_rows (lo_msgs ops) (lg_db s') = tb_rows (lo_msgs ops) (lg_db s) \<Longrightarrow> shelves ops body s s'"
  by (simp add: shelves_def written_rows_def)

lemma shelves_insert:
  assumes "table_laws MsgId (lo_msgs ops)" and "insert_message ops m s = (s', e)"
    and "unmarshal_upload body = Inr q" and "row_for q (written m)"
  shows "shelves ops body s s'"
proof -
  from insert_message_sel [OF assms(2)] have "tb_create (lo_msgs ops) m (lg_db s) = (lg_db s', e)" by blast
  from db_table.create_any [OF db_table_of [OF assms(1)] this] show ?thesis
  proof
    assume new: "MsgId m \<notin> MsgId ` set (tb_rows (lo_msgs ops) (lg_db s))
        \<and> tb_rows (lo_msgs ops) (lg_db s') = tb_rows (lo_msgs ops) (lg_db s) @ [m]"
    then have "MsgId (written m) \<notin> MsgId ` written_rows ops s"
      and "written_rows ops s' = insert (written m) (written_rows ops s)" by (auto simp: written_rows_def image_image)
    with assms(3,4) show ?thesis unfolding shelves_def by blast
  qed (rule shelves_same)
qed

lemma upload_shelves:
  assumes laws: "table_laws MsgId (lo_msgs ops)" and apart: "members_apart ops"
    and st: "holds body c" and run: "upload_next ops c s = (s', r)"
  shows "shelves ops body s s' \<and> (\<forall>c'. r = Inl c' \<longrightarrow> holds body c')"
proof (cases c)
  case (Parse b)
  with st run show ?thesis by (auto simp: shelves_same split: sum.splits if_splits)
next
  case (SDraw p)
  with st run show ?thesis by (auto simp: new_message_def written_drawn shelves_same split: prod.splits)
next
  case (SInsert p m)
  with run obtain e where ins: "insert_message ops m s = (s', e)" by (auto split: prod.splits option.splits)
  from SInsert st have "unmarshal_upload body = Inr p" "row_for p (written m)" by (simp_all add: row_for_def)
  from shelves_insert [OF laws ins this] SInsert run ins show ?thesis by (cases e) (auto simp: ended_def)
next
  case (SRoute p)
  obtain s1 v where look: "lookup_route ops (up_ReceiverID p) s = (s1, v)" by fastforce
  with SRoute st run lookup_route_sel [OF look] show ?thesis
    by (auto simp: shelves_same ended_def split: sum.splits option.splits)
next
  case (SPublish p addr)
  with st run show ?thesis by (auto simp: shelves_same publish_down_sel ended_def)
next
  case (GList p)
  obtain db v where g: "GetGroupMembers (lo_members ops) (up_GroupID p) (lg_db s) = (db, v)" by fastforce
  then have "fst (tb_find (lo_members ops) (\<lambda>g. gm_GroupID g = up_GroupID p) (lg_db s)) = db"
    by (auto simp: GetGroupMembers_def split: prod.splits sum.splits)
  then have "tb_rows (lo_msgs ops) db = tb_rows (lo_msgs ops) (lg_db s)" using apart by (auto simp: members_apart_def)
  with GList st run g show ?thesis by (auto simp: shelves_same ended_def split: sum.splits)
next
  case (GMember p members)
  with st run show ?thesis by (cases members) (auto simp: shelves_same ended_def)
next
  case (GDraw p u rest)
  with st run show ?thesis by (auto simp: new_message_def NewMessages_def group_row_def shelves_same split: prod.splits)
next
  case (GRedraw p m rest)
  with st run show ?thesis by (auto simp: shelves_same group_row_def split: prod.splits)
next
  case (GInsert p m rest)
  with run obtain e where ins: "insert_message ops m s = (s', e)" by (auto split: prod.splits option.splits)
  have "written m = m" using GInsert st written_group(1) by (metis holds.simps(8))
  with GInsert st have "unmarshal_upload body = Inr p" "row_for p (written m)" by (simp_all add: row_for_def)
  from shelves_insert [OF laws ins this] GInsert st run ins show ?thesis by (cases e) auto
next
  case (GRoute p m rest)
  obtain s1 v where look: "lookup_route ops (ReceiverId m) s = (s1, v)" by fastforce
  with GRoute st run lookup_route_sel [OF look] show ?thesis
    by (auto simp: shelves_same split: sum.splits option.splits)
next
  case (GPublish p m addr rest)
  with st run show ?thesis by (auto simp: shelves_same publish_down_sel)
next
  case (ADraw p)
  with st run show ?thesis by (auto simp: new_message_def written_drawn shelves_same split: prod.splits)
next
  case (AInsert p m)
  with run obtain e where ins: "insert_message ops m s = (s', e)" by (auto split: prod.splits)
  from AInsert st have "unmarshal_upload body = Inr p" "row_for p (written m)" by (simp_all add: row_for_def)
  from shelves_insert [OF laws ins this] AInsert run ins show ?thesis by (cases e) (auto simp: ended_def)
qed

section \<open>The pool implements the mailbox\<close>

definition in_hands :: "('s, stage, 'x) pool \<Rightarrow> bool" where
  "in_hands p \<longleftrightarrow> (\<forall>n c. Handling n c \<in> set (pl_workers p) \<longrightarrow> n < length (pl_arrived p) \<and> holds (pl_arrived p ! n) c)"

definition at_work :: "('db, 'r, 'b, 'g) logic_ops \<Rightarrow> (('db, 'r, 'b, 'g) logic, stage, unit) pool \<Rightarrow> bool" where
  [inv_defs]: "at_work ops p \<longleftrightarrow> table_laws MsgId (lo_msgs ops) \<and> members_apart ops \<and> pool_inv p \<and> in_hands p"

lemma in_hands_update:
  "in_hands p \<Longrightarrow> set (pl_workers p') \<subseteq> insert w (set (pl_workers p)) \<Longrightarrow> pl_arrived p' = pl_arrived p \<Longrightarrow>
   (\<And>n c. w = Handling n c \<Longrightarrow> n < length (pl_arrived p) \<and> holds (pl_arrived p ! n) c) \<Longrightarrow> in_hands p'"
  by (auto simp: in_hands_def)

lemma mailbox_same: "pl_arrived p' = pl_arrived p \<Longrightarrow> written_rows ops (pl_shared p') = written_rows ops (pl_shared p) \<Longrightarrow>
    mailbox_of ops p' = mailbox_of ops p"
  by (simp add: mailbox_of_def offered_def)

lemma mailbox_shelves:
  assumes "shelves ops (pl_arrived p ! n) (pl_shared p) (pl_shared p')" and "n < length (pl_arrived p)"
    and "pl_arrived p' = pl_arrived p"
  shows "mailbox_of ops p' = mailbox_of ops p \<or> mailbox_step (mailbox_of ops p) (mailbox_of ops p')"
  using assms(1) unfolding shelves_def
proof (elim disjE exE conjE)
  assume "written_rows ops (pl_shared p') = written_rows ops (pl_shared p)"
  with mailbox_same [of p' p ops] assms(3) show ?thesis by simp
next
  fix q m assume q: "unmarshal_upload (pl_arrived p ! n) = Inr q" "row_for q m"
    and m: "MsgId m \<notin> MsgId ` written_rows ops (pl_shared p)"
    and new: "written_rows ops (pl_shared p') = insert m (written_rows ops (pl_shared p))"
  have "pl_arrived p ! n \<in> set (pl_arrived p)" using assms(2) by simp
  with q(1) have "q \<in> mx_offered (mailbox_of ops p)" by (auto simp: mailbox_of_def offered_def)
  from shelve [OF this q(2)] m have
    "mailbox_step (mailbox_of ops p) ((mailbox_of ops p)\<lparr>mx_shelf := insert m (mx_shelf (mailbox_of ops p))\<rparr>)"
    by (simp add: mailbox_of_def)
  with new assms(3) show ?thesis by (simp add: mailbox_of_def offered_def)
qed

lemma at_work_worker:
  assumes work: "at_work ops p" and step: "worker_step (upload_consumer ops) p p'"
  shows "at_work ops p' \<and> (mailbox_of ops p' = mailbox_of ops p \<or> mailbox_step (mailbox_of ops p) (mailbox_of ops p'))"
proof -
  have laws: "table_laws MsgId (lo_msgs ops)" "members_apart ops" and inv: "pool_inv p" "in_hands p"
    using work by (simp_all add: at_work_def)
  have next_inv: "pool_inv p'" by (rule pool_inv_worker [OF step inv(1)])
  have sub: "set ((pl_workers p)[i := w]) \<subseteq> insert w (set (pl_workers p))" for i w by (rule set_update_subset_insert)
  from step show ?thesis
  proof cases
    case (receive i n ns)
    have "n \<in> set (in_use p)" using receive(4) by (simp add: in_use_def)
    then have n: "n < length (pl_arrived p)" using in_use_tags(2) [OF inv(1)] by simp
    have "in_hands p'"
      by (rule in_hands_update [OF inv(2), of _ "Handling n (Parse (pl_arrived p ! n))"]) (use receive sub n in auto)
    with laws next_inv receive mailbox_same [of p' p ops] show ?thesis by (simp add: at_work_def)
  next
    case (leave i)
    have "in_hands p'" by (rule in_hands_update [OF inv(2), of _ Finished]) (use leave sub in auto)
    with laws next_inv leave mailbox_same [of p' p ops] show ?thesis by (simp add: at_work_def)
  next
    case (statement i n c s' c')
    have "Handling n c \<in> set (pl_workers p)" using statement(2,3) nth_mem by metis
    with inv(2) have ok: "n < length (pl_arrived p)" "holds (pl_arrived p ! n) c" by (auto simp: in_hands_def)
    from upload_shelves [OF laws ok(2)] statement(4) have eff: "shelves ops (pl_arrived p ! n) (pl_shared p) s'"
      "holds (pl_arrived p ! n) c'" by auto
    have "in_hands p'" by (rule in_hands_update [OF inv(2), of _ "Handling n c'"]) (use statement sub ok(1) eff(2) in auto)
    with laws next_inv mailbox_shelves [OF _ ok(1), of ops p'] eff(1) statement show ?thesis by (simp add: at_work_def)
  next
    case (last_statement i n c s' d x)
    have "Handling n c \<in> set (pl_workers p)" using last_statement(2,3) nth_mem by metis
    with inv(2) have ok: "n < length (pl_arrived p)" "holds (pl_arrived p ! n) c" by (auto simp: in_hands_def)
    from upload_shelves [OF laws ok(2)] last_statement(4) have eff: "shelves ops (pl_arrived p ! n) (pl_shared p) s'" by auto
    have "in_hands p'" by (rule in_hands_update [OF inv(2), of _ "Settling n d x"]) (use last_statement sub in auto)
    with laws next_inv mailbox_shelves [OF _ ok(1), of ops p'] eff last_statement show ?thesis by (simp add: at_work_def)
  next
    case (settle i n d x)
    have "in_hands p'" by (rule in_hands_update [OF inv(2), of _ Ranging]) (use settle sub in auto)
    with laws next_inv settle mailbox_same [of p' p ops] show ?thesis by (simp add: at_work_def)
  qed
qed

lemma at_work_event:
  assumes work: "at_work ops p" and step: "pool_event (marks_only ops) p p'"
  shows "at_work ops p' \<and> (mailbox_of ops p' = mailbox_of ops p \<or> mailbox_step (mailbox_of ops p) (mailbox_of ops p'))"
proof -
  have inv: "pool_inv p'" "in_hands p" using work pool_inv_event [OF step] by (simp_all add: at_work_def)
  from step show ?thesis
  proof cases
    case (arrive body)
    have "in_hands p'" using inv(2) by (auto simp: in_hands_def arrive(1) nth_append less_Suc_eq)
    moreover have "mailbox_of ops p' = mailbox_of ops p \<or> mailbox_step (mailbox_of ops p) (mailbox_of ops p')"
    proof (cases "unmarshal_upload body")
      case (Inl e)
      then show ?thesis by (auto simp: arrive(1) mailbox_of_def offered_def)
    next
      case (Inr q)
      then have "mailbox_of ops p' = (mailbox_of ops p)\<lparr>mx_offered := insert q (mx_offered (mailbox_of ops p))\<rparr>"
        by (auto simp: arrive(1) mailbox_of_def offered_def)
      then show ?thesis using offer by metis
    qed
    ultimately show ?thesis using work inv(1) by (simp add: at_work_def)
  qed (use work inv in \<open>auto simp: at_work_def in_hands_def mailbox_of_def offered_def marks_only_def\<close>)
qed

interpretation shelving: refinement "at_work ops" "pool_move ops" "mailbox_of ops" mailbox_step
  for ops :: "('db, 'r, 'b, 'g) logic_ops"
  by unfold_locales (use at_work_worker at_work_event in \<open>blast elim: pool_move.cases\<close>)+

lemma reachable_moves:
  "pool_reachable (upload_consumer ops) (marks_only ops) p0 p \<Longrightarrow> (pool_move ops)\<^sup>*\<^sup>* p0 p"
  by (induction rule: pool_reachable.induct) (auto intro: rtranclp.rtrancl_into_rtrancl by_worker by_others)

lemma at_work_start: "table_laws MsgId (lo_msgs ops) \<Longrightarrow> members_apart ops \<Longrightarrow> at_work ops (start_workers n s)"
  by (simp add: at_work_def pool_inv_start) (auto simp: in_hands_def start_workers_def)

text \<open>The statements of the chat service that set marks are such moves of the others.\<close>

lemma marking_statements:
  assumes laws: "table_laws MsgId (lo_msgs ops)" and st: "lg_db s' = run_stmt (lo_msgs ops) st (lg_db s)"
    and "\<And>m. st \<noteq> StInsert m"
  shows "marks_only ops s s'"
proof -
  have upd: "written ` set (update_rows P f rs) = written ` set rs" if "\<And>m. written (f m) = written m" for P f rs
  proof -
    have "map written (update_rows P f rs) = map written rs" by (simp add: update_rows_def that)
    then show ?thesis by (metis list.set_map)
  qed
  have marks: "written (confirm m) = written m" "written (m\<lparr>SendStatus := x\<rparr>) = written m" for m x
    by (simp_all add: written_def confirm_def)
  show ?thesis
  proof (cases st)
    case (StInsert m)
    with assms(3) show ?thesis by blast
  next
    case (StDelivered i)
    then have "lg_db s' = fst (MarkSendTransportDelivered (lo_msgs ops) i (lg_db s))"
      using st by (simp add: run_stmt_def NotifyDelivered_def split: prod.split option.split)
    with marks_cases(3) [OF laws, of i "lg_db s"] show ?thesis unfolding insert_iff empty_iff
      by (elim disjE) (simp_all add: marks_only_def written_rows_def upd marks)
  next
    case (StAck i)
    then have "lg_db s' = fst (MarkMessageAsRead (lo_msgs ops) i (lg_db s))"
      using st by (simp add: run_stmt_def AckMessage_def split: prod.split option.split)
    with marks_cases(2) [OF laws, of i "lg_db s"] show ?thesis unfolding insert_iff empty_iff
      by (elim disjE) (simp_all add: marks_only_def written_rows_def upd marks)
  next
    case (StReadAll u)
    then have "lg_db s' = fst (MarkMessagesAsRead (lo_msgs ops) u (lg_db s))"
      using st by (simp add: run_stmt_def ReadMessages_def split: prod.split option.split)
    with marks_cases(1) [OF laws, of u "lg_db s"] show ?thesis unfolding insert_iff empty_iff
      by (elim disjE) (simp_all add: marks_only_def written_rows_def upd marks)
  qed
qed

text \<open>What the mailbox promises: the shelf holds what it held and rows of what was offered.\<close>

lemma mailbox_keeps:
  assumes "mailbox_step b b'" and "old \<subseteq> mx_shelf b \<and> (\<forall>m \<in> mx_shelf b - old. \<exists>q \<in> mx_offered b. row_for q m)"
  shows "old \<subseteq> mx_shelf b' \<and> (\<forall>m \<in> mx_shelf b' - old. \<exists>q \<in> mx_offered b'. row_for q m)"
  using assms by cases auto

section \<open>Property\<close>

text \<open>
  C10. The consumer is a mailbox. While the rest of the process only sets marks, every run of the goroutines,
  with the deliveries and redeliveries that arrive, is a run of the mailbox, from an empty offer
  and the table as it was found. So nothing is invented or altered: a row that was not in the table
  before is the one a message that arrived asks for, with its sender, receiver, sequence number and
  text, and a group's message has none for its sender; and the rows that were there still are.
\<close>

theorem upload_refines_mailbox:
  assumes "table_laws MsgId (lo_msgs ops)" and "members_apart ops"
    and "pool_reachable (upload_consumer ops) (marks_only ops) (start_workers n s) p"
  shows "mailbox_step\<^sup>*\<^sup>* \<lparr>mx_offered = {}, mx_shelf = written_rows ops s\<rparr> (mailbox_of ops p)
    \<and> written_rows ops s \<subseteq> written_rows ops (pl_shared p)
    \<and> (\<forall>m \<in> written_rows ops (pl_shared p) - written_rows ops s.
         \<exists>body \<in> set (pl_arrived p). \<exists>q. unmarshal_upload body = Inr q \<and> row_for q m)"
proof -
  note moves = reachable_moves [OF assms(3)] and start = at_work_start [OF assms(1,2), of n s]
  have view: "mailbox_of ops (start_workers n s) = \<lparr>mx_offered = {}, mx_shelf = written_rows ops s\<rparr>"
    by (simp add: mailbox_of_def offered_def start_workers_def)
  have "written_rows ops s \<subseteq> mx_shelf (mailbox_of ops p)
      \<and> (\<forall>m \<in> mx_shelf (mailbox_of ops p) - written_rows ops s. \<exists>q \<in> mx_offered (mailbox_of ops p). row_for q m)"
    by (rule shelving.carried_over [OF moves start]) (auto simp: view dest: mailbox_keeps)
  then have kept: "written_rows ops s \<subseteq> written_rows ops (pl_shared p)"
    and new: "\<forall>m \<in> written_rows ops (pl_shared p) - written_rows ops s.
        \<exists>body \<in> set (pl_arrived p). \<exists>q. unmarshal_upload body = Inr q \<and> row_for q m"
    by (simp_all add: mailbox_of_def offered_def) blast
  moreover have "mailbox_step\<^sup>*\<^sup>* \<lparr>mx_offered = {}, mx_shelf = written_rows ops s\<rparr> (mailbox_of ops p)"
    using shelving.run [OF moves start] by (simp add: view)
  ultimately show ?thesis by blast
qed

lemma upload_refines_mailbox_witness:
  "\<exists>p :: ((message mem_db, mem_redis, mem_broker, i64) logic, stage, unit) pool.
     pl_settled p = [(0, Ack), (1, Nack True)]
   \<and> mailbox_step\<^sup>*\<^sup>* \<lparr>mx_offered = {}, mx_shelf = written_rows mem_logic (mem_state [(route_key 2, ''g1'')] [])\<rparr> (mailbox_of mem_logic p)"
proof -
  obtain p where r: "pool_reachable (upload_consumer mem_logic) (marks_only mem_logic)
      (start_workers uploadWorkers (mem_state [(route_key 2, ''g1'')] [])) p"
    and p: "pl_settled p = [(0, Ack), (1, Nack True)]" using twice_handled by blast
  have "members_apart mem_logic" by (simp add: members_apart_def mem_logic_def mem_state_def mem_table_def)
  from upload_refines_mailbox [OF mem_logic_laws(1) this r] p show ?thesis by blast
qed

end
