(* ===== verification/Presence.thy ===== *)
theory Presence
  imports Gateway "HOL-Library.Multiset"
begin

text \<open>
  Where a user can be reached: the connection tables of several gateways
  (\<open>apps/gateway/ws/manager.go\<close>), the routing table in Redis they share, and the steps of \<open>Handler\<close>
  (\<open>handler.go\<close>) and \<open>ReadPump\<close> (\<open>client.go\<close>) that write them: registering a connection and
  setting the route are two steps, a ping renews the route for thirty seconds, and the end of a
  connection removes both. Time passes, and keys expire.
\<close>

section \<open>Keys that expire\<close>

text \<open>
  What the sources rely on in Redis beyond theory \<open>Redis\<close>: \<open>SET\<close> with a duration and \<open>EXPIRE\<close> on
  a key that exists give it a deadline, \<open>EXPIRE\<close> on any other key does nothing, and a key whose
  deadline has come is gone.
\<close>

record 'r ttl_ops =
  tt_now :: "'r \<Rightarrow> time"
  tt_deadline :: "'r \<Rightarrow> gostring \<Rightarrow> time option"
  tt_wait :: "time \<Rightarrow> 'r \<Rightarrow> 'r"

definition ttl_laws :: "'r redis_ops \<Rightarrow> 'r ttl_ops \<Rightarrow> bool" where
  "ttl_laws rd tt \<longleftrightarrow>
     (\<forall>k v d r r'. 0 < d \<longrightarrow> rd_set rd k v d r = (r', None) \<longrightarrow>
        tt_now tt r' = tt_now tt r \<and> tt_deadline tt r' = (tt_deadline tt r)(k \<mapsto> tt_now tt r + d))
   \<and> (\<forall>k d r r'. 0 < d \<longrightarrow> rd_expire rd k d r = (r', None) \<longrightarrow>
        tt_now tt r' = tt_now tt r \<and> (\<forall>j. j \<noteq> k \<longrightarrow> tt_deadline tt r' j = tt_deadline tt r j)
        \<and> (rd_value rd r k \<noteq> None \<longrightarrow> tt_deadline tt r' k = Some (tt_now tt r + d)))
   \<and> (\<forall>k r r'. rd_del rd k r = (r', None) \<longrightarrow>
        tt_now tt r' = tt_now tt r \<and> tt_deadline tt r' = (tt_deadline tt r)(k := None))
   \<and> (\<forall>t r. 0 \<le> t \<longrightarrow> tt_now tt (tt_wait tt t r) = tt_now tt r + t
        \<and> (\<forall>k. case tt_deadline tt r k of
              Some x \<Rightarrow> if x \<le> tt_now tt r + t then rd_value rd (tt_wait tt t r) k = None \<and> tt_deadline tt (tt_wait tt t r) k = None
                        else rd_value rd (tt_wait tt t r) k = rd_value rd r k \<and> tt_deadline tt (tt_wait tt t r) k = Some x
            | None \<Rightarrow> rd_value rd (tt_wait tt t r) k = rd_value rd r k \<and> tt_deadline tt (tt_wait tt t r) k = None))"

locale ttl_redis = redis_client rd for rd :: "'r redis_ops" +
  fixes tt :: "'r ttl_ops"
  assumes ttl: "ttl_laws rd tt"
begin

lemma set_deadline:
  "rd_set rd k v d r = (r', None) \<Longrightarrow> 0 < d \<Longrightarrow>
     tt_now tt r' = tt_now tt r \<and> tt_deadline tt r' = (tt_deadline tt r)(k \<mapsto> tt_now tt r + d)"
  using ttl unfolding ttl_laws_def by (elim conjE) blast

lemma expire_deadline:
  "rd_expire rd k d r = (r', None) \<Longrightarrow> 0 < d \<Longrightarrow> tt_now tt r' = tt_now tt r
    \<and> (\<forall>j. j \<noteq> k \<longrightarrow> tt_deadline tt r' j = tt_deadline tt r j)
    \<and> (rd_value rd r k \<noteq> None \<longrightarrow> tt_deadline tt r' k = Some (tt_now tt r + d))"
  using ttl unfolding ttl_laws_def by (elim conjE) blast

lemma expire_value: "rd_expire rd k d r = (r', e) \<Longrightarrow> 0 < d \<Longrightarrow> rd_value rd r' = rd_value rd r"
  using redis unfolding redis_laws_def by (elim conjE) blast

lemma del_deadline:
  "rd_del rd k r = (r', None) \<Longrightarrow> tt_now tt r' = tt_now tt r \<and> tt_deadline tt r' = (tt_deadline tt r)(k := None)"
  using ttl unfolding ttl_laws_def by (elim conjE) blast

lemma wait_now: "0 \<le> t \<Longrightarrow> tt_now tt (tt_wait tt t r) = tt_now tt r + t"
  using ttl unfolding ttl_laws_def by (elim conjE) blast

lemma wait_later:
  "0 \<le> t \<Longrightarrow> tt_deadline tt r k = Some x \<Longrightarrow> tt_now tt r + t < x \<Longrightarrow>
   rd_value rd (tt_wait tt t r) k = rd_value rd r k \<and> tt_deadline tt (tt_wait tt t r) k = Some x"
  using ttl unfolding ttl_laws_def by (elim conjE) (drule spec [of _ t], drule spec [of _ r], auto split: option.splits dest: spec [of _ k])

end

section \<open>Several gateways\<close>

text \<open>
  \<open>fl_hubs\<close> are the tables of the gateways, \<open>fl_setting\<close> the handlers between \<open>Register\<close> and the write
  of the route. The last three components are for the statements: which users ever connected
  where, when a user's route was last written or renewed, and who let thirty seconds pass since.
\<close>

record 'r fleet =
  fl_hubs :: "nat \<Rightarrow> 'r hub"
  fl_redis :: 'r
  fl_setting :: "(nat \<times> i64) multiset"
  fl_seen :: "(nat \<times> i64) set"
  fl_last :: "i64 \<Rightarrow> time"
  fl_silent :: "i64 set"

definition start_fleet :: "'r \<Rightarrow> 'r fleet" where
  "start_fleet r =
     \<lparr>fl_hubs = \<lambda>g. NewCliMap r, fl_redis = r, fl_setting = {#}, fl_seen = {}, fl_last = \<lambda>u. 0, fl_silent = {}\<rparr>"

definition pingExpiry :: time where "pingExpiry = 30 * second"

text \<open>An operation on one gateway's table with the shared Redis.\<close>

definition at_gateway :: "nat \<Rightarrow> ('r hub \<Rightarrow> 'r hub) \<Rightarrow> 'r fleet \<Rightarrow> 'r fleet" where
  "at_gateway g f F =
     (let h = f ((fl_hubs F g)\<lparr>hub_redis := fl_redis F\<rparr>) in F\<lparr>fl_hubs := (fl_hubs F)(g := h), fl_redis := hub_redis h\<rparr>)"

text \<open>The steps, as long as Redis does not fail; \<open>addr\<close> gives each gateway's address.\<close>

inductive fleet_step :: "'r redis_ops \<Rightarrow> 'r ttl_ops \<Rightarrow> (nat \<Rightarrow> gostring) \<Rightarrow> 'r fleet \<Rightarrow> 'r fleet \<Rightarrow> bool" for rd tt addr where
  registers: "fleet_step rd tt addr F ((at_gateway g (hub_connect pick u) F)
    \<lparr>fl_setting := add_mset (g, u) (fl_setting F), fl_seen := insert (g, u) (fl_seen F)\<rparr>)"
| sets_route: "(g, u) \<in># fl_setting F \<Longrightarrow> rd_set rd (route_key u) (addr g) (24 * hour) (fl_redis F) = (r', None) \<Longrightarrow>
    fleet_step rd tt addr F (F\<lparr>fl_redis := r', fl_setting := fl_setting F - {#(g, u)#},
      fl_last := (fl_last F)(u := tt_now tt (fl_redis F)), fl_silent := fl_silent F - {u}\<rparr>)"
| pings: "i < length (hub_heap (fl_hubs F g)) \<Longrightarrow> u = Uid (hub_heap (fl_hubs F g) ! i) \<Longrightarrow>
    rd_expire rd (route_key u) pingExpiry (fl_redis F) = (r', None) \<Longrightarrow>
    fleet_step rd tt addr F ((at_gateway g (on_ws i (SendMessage pong)) F)
      \<lparr>fl_redis := r', fl_last := (fl_last F)(u := tt_now tt (fl_redis F))\<rparr>)"
| moves: "i < length (hub_heap (fl_hubs F g)) \<Longrightarrow> ws_step (hub_heap (fl_hubs F g) ! i) c \<Longrightarrow>
    fleet_step rd tt addr F (at_gateway g (on_ws i (\<lambda>_. c)) F)"
| leaves: "i < length (hub_heap (fl_hubs F g)) \<Longrightarrow> u = Uid (hub_heap (fl_hubs F g) ! i) \<Longrightarrow>
    snd (rd_del rd (route_key u) (fl_redis F)) = None \<Longrightarrow>
    fleet_step rd tt addr F (at_gateway g (HubRemove rd (fmt_int64 u) i) F)"
| waits: "0 \<le> t \<Longrightarrow>
    fleet_step rd tt addr F (F\<lparr>fl_redis := tt_wait tt t (fl_redis F),
      fl_silent := fl_silent F \<union> {u. fl_last F u + pingExpiry \<le> tt_now tt (fl_redis F) + t}\<rparr>)"

inductive fleet_reachable :: "'r redis_ops \<Rightarrow> 'r ttl_ops \<Rightarrow> (nat \<Rightarrow> gostring) \<Rightarrow> 'r fleet \<Rightarrow> 'r fleet \<Rightarrow> bool" for rd tt addr F0 where
  fleet_start: "fleet_reachable rd tt addr F0 F0"
| fleet_next: "fleet_reachable rd tt addr F0 F \<Longrightarrow> fleet_step rd tt addr F F' \<Longrightarrow> fleet_reachable rd tt addr F0 F'"

definition online :: "nat \<Rightarrow> i64 \<Rightarrow> 'r fleet \<Rightarrow> bool" where
  "online g u F \<longleftrightarrow> HubGet (fmt_int64 u) (fl_hubs F g) \<noteq> None"

definition route :: "'r redis_ops \<Rightarrow> 'r fleet \<Rightarrow> i64 \<Rightarrow> gostring option" where
  "route rd F u = rd_value rd (fl_redis F) (route_key u)"

section \<open>Lemmas\<close>

lemma expiries_positive: "0 < pingExpiry" "0 < 24 * hour" "pingExpiry \<le> 24 * hour"
  by (simp_all add: pingExpiry_def hour_def minute_def second_def)

lemma at_gateway_sel [simp]:
  "fl_setting (at_gateway g f F) = fl_setting F" "fl_seen (at_gateway g f F) = fl_seen F"
  "fl_last (at_gateway g f F) = fl_last F" "fl_silent (at_gateway g f F) = fl_silent F"
  by (simp_all add: at_gateway_def Let_def)

lemma connect_clients:
  "map_of (Clients (hub_connect pick u h)) = (map_of (Clients h))(fmt_int64 u \<mapsto> length (hub_heap h))"
  "hub_redis (hub_connect pick u h) = hub_redis h"
  by (auto simp: hub_connect_def HubRegister_def Let_def split: option.split)

lemma connect_heap:
  "length (hub_heap (hub_connect pick u h)) = Suc (length (hub_heap h))"
  "i < Suc (length (hub_heap h)) \<Longrightarrow>
     Uid (hub_heap (hub_connect pick u h) ! i) = (if i < length (hub_heap h) then Uid (hub_heap h ! i) else u)"
  by (auto simp: hub_connect_def HubRegister_def Let_def nth_list_update nth_append NewWsClient_def split: option.split)

lemma remove_sel:
  "hub_heap (HubRemove rd k i h) = hub_heap h"
  "map_of (Clients (HubRemove rd k i h)) = (if map_of (Clients h) k = Some i then (map_of (Clients h))(k := None) else map_of (Clients h))"
  by (simp_all add: HubRemove_def)

text \<open>Every trace of a user at a gateway goes back to a connection.\<close>

definition known :: "'r fleet \<Rightarrow> bool" where
  "known F \<longleftrightarrow> (\<forall>g u. online g u F \<longrightarrow> (g, u) \<in> fl_seen F)
     \<and> (\<forall>g i. i < length (hub_heap (fl_hubs F g)) \<longrightarrow> (g, Uid (hub_heap (fl_hubs F g) ! i)) \<in> fl_seen F)
     \<and> set_mset (fl_setting F) \<subseteq> fl_seen F"

lemma known_step:
  assumes "fleet_step rd tt addr F F'" and "known F"
  shows "known F'"
  using assms
proof cases
  case (registers g u pick)
  have "online g' w F' \<Longrightarrow> (g', w) \<in> fl_seen F'" for g' w
    using registers assms(2) by (auto simp: known_def online_def HubGet_def at_gateway_def Let_def connect_clients split: if_splits)
  moreover have "(g', Uid (hub_heap (fl_hubs F' g') ! i)) \<in> fl_seen F'" if "i < length (hub_heap (fl_hubs F' g'))" for g' i
    using registers assms(2) that
    by (auto simp: known_def at_gateway_def Let_def connect_heap(1) connect_heap(2) [where h = "fl_hubs F g\<lparr>hub_redis := fl_redis F\<rparr>", simplified] split: if_splits)
  ultimately show ?thesis using registers assms(2) by (auto simp: known_def)
next
  case (sets_route g u r')
  with assms(2) show ?thesis by (auto simp: known_def online_def dest: in_diffD)
next
  case (pings i g u r')
  with assms(2) show ?thesis
    by (auto simp: known_def online_def HubGet_def at_gateway_def Let_def nth_list_update split: if_splits)
next
  case (moves i g c)
  with assms(2) ws_step_mono [OF moves(3)] show ?thesis
    by (auto simp: known_def online_def HubGet_def at_gateway_def Let_def nth_list_update split: if_splits)
next
  case (leaves i g u)
  with assms(2) show ?thesis
    by (auto simp: known_def online_def HubGet_def at_gateway_def Let_def remove_sel split: if_splits)
next
  case (waits t)
  with assms(2) show ?thesis by (auto simp: known_def online_def)
qed

definition reachable_at :: "'r redis_ops \<Rightarrow> 'r ttl_ops \<Rightarrow> (nat \<Rightarrow> gostring) \<Rightarrow> nat \<Rightarrow> i64 \<Rightarrow> 'r fleet \<Rightarrow> bool" where
  "reachable_at rd tt addr g u F \<longleftrightarrow> route rd F u = Some (addr g)
     \<and> (\<exists>x. tt_deadline tt (fl_redis F) (route_key u) = Some x \<and> fl_last F u + pingExpiry \<le> x)"

definition settled_in :: "nat \<Rightarrow> i64 \<Rightarrow> 'r fleet \<Rightarrow> bool" where
  "settled_in g u F \<longleftrightarrow> online g u F \<and> (g, u) \<notin># fl_setting F \<and> u \<notin> fl_silent F"

lemma route_key_fresh: "u \<noteq> w \<Longrightarrow> route_key u \<noteq> route_key w"
  by simp

lemma in_diff_other: "x \<noteq> y \<Longrightarrow> x \<in># M - {#y#} \<longleftrightarrow> x \<in># M"
  by (auto simp flip: count_greater_zero_iff)

text \<open>What a step on one user's key leaves of another's.\<close>

lemma settled_before:
  "settled_in g u F' \<Longrightarrow> (online g u F' \<Longrightarrow> online g u F) \<Longrightarrow> (g, u) \<notin># fl_setting F \<Longrightarrow>
   (u \<in> fl_silent F \<Longrightarrow> u \<in> fl_silent F') \<Longrightarrow> settled_in g u F"
  by (auto simp: settled_in_def)

lemma reachable_same:
  "reachable_at rd tt addr g u F \<Longrightarrow> rd_value rd (fl_redis F') (route_key u) = rd_value rd (fl_redis F) (route_key u) \<Longrightarrow>
   tt_deadline tt (fl_redis F') (route_key u) = tt_deadline tt (fl_redis F) (route_key u) \<Longrightarrow> fl_last F' u = fl_last F u \<Longrightarrow>
   reachable_at rd tt addr g u F'"
  by (simp add: reachable_at_def route_def)

context ttl_redis
begin

lemma set_other: "rd_set rd k v d r = (r', None) \<Longrightarrow> 0 < d \<Longrightarrow> j \<noteq> k \<Longrightarrow>
    rd_value rd r' j = rd_value rd r j \<and> tt_deadline tt r' j = tt_deadline tt r j"
  using set_value set_deadline by fastforce

lemma del_other: "rd_del rd k r = (r', None) \<Longrightarrow> j \<noteq> k \<Longrightarrow>
    rd_value rd r' j = rd_value rd r j \<and> tt_deadline tt r' j = tt_deadline tt r j"
  using del_value del_deadline by fastforce

lemma expire_other: "rd_expire rd k d r = (r', None) \<Longrightarrow> 0 < d \<Longrightarrow> j \<noteq> k \<Longrightarrow>
    rd_value rd r' j = rd_value rd r j \<and> tt_deadline tt r' j = tt_deadline tt r j"
  using expire_value expire_deadline by fastforce

end

text \<open>Steps that touch another user's key, or none: the connection was settled before, and the route is as it was.\<close>

lemma reachable_elsewhere:
  assumes "settled_in g u F \<Longrightarrow> reachable_at rd tt addr g u F" and "settled_in g u F'"
    and "online g u F' \<Longrightarrow> online g u F" and "(g, u) \<notin># fl_setting F" and "u \<in> fl_silent F \<Longrightarrow> u \<in> fl_silent F'"
    and "rd_value rd (fl_redis F') (route_key u) = rd_value rd (fl_redis F) (route_key u)"
    and "tt_deadline tt (fl_redis F') (route_key u) = tt_deadline tt (fl_redis F) (route_key u)"
    and "fl_last F' u = fl_last F u"
  shows "reachable_at rd tt addr g u F'"
  using reachable_same [OF assms(1) [OF settled_before [OF assms(2-5)]] assms(6-8)] .

lemmas gateway_defs = online_def HubGet_def at_gateway_def Let_def

text \<open>The end of a connection takes no route but that of its own user.\<close>

lemma leaves_others:
  assumes tr: "ttl_redis rd tt" and "known F" and "\<And>g'. (g', u) \<in> fl_seen F \<Longrightarrow> g' = g"
    and "w = Uid (hub_heap (fl_hubs F h) ! i)" and "snd (rd_del rd (route_key w) (fl_redis F)) = None"
    and F': "F' = at_gateway h (HubRemove rd (fmt_int64 w) i) F" and "online g u F'"
  shows "rd_value rd (fl_redis F') (route_key u) = rd_value rd (fl_redis F) (route_key u)
    \<and> tt_deadline tt (fl_redis F') (route_key u) = tt_deadline tt (fl_redis F) (route_key u)"
proof (cases "map_of (Clients (fl_hubs F h)) (fmt_int64 w) = Some i")
  case True
  have "w \<noteq> u"
  proof
    assume "w = u"
    with True have "online h u F" by (simp add: online_def HubGet_def)
    with assms(2,3) have "h = g" by (auto simp: known_def)
    with True \<open>w = u\<close> assms(7) show False by (auto simp: F' gateway_defs remove_sel)
  qed
  moreover obtain r' where "rd_del rd (route_key w) (fl_redis F) = (r', None)" using assms(5) by (metis prod.collapse)
  ultimately show ?thesis
    using ttl_redis.del_other [OF tr, of "route_key w" "fl_redis F" r' "route_key u"] True
    by (auto simp: F' at_gateway_def Let_def HubRemove_def route_key_def)
next
  case False
  then show ?thesis by (simp add: F' at_gateway_def Let_def HubRemove_def)
qed

text \<open>A wait that leaves the user unsilenced does not reach his deadline.\<close>

lemma waits_unsilenced:
  assumes tr: "ttl_redis rd tt" and "reachable_at rd tt addr g u F" and "0 \<le> t"
    and "\<not> fl_last F u + pingExpiry \<le> tt_now tt (fl_redis F) + t"
    and "fl_redis F' = tt_wait tt t (fl_redis F)" and "fl_last F' = fl_last F"
  shows "reachable_at rd tt addr g u F'"
proof -
  from assms(2) obtain x where r: "route rd F u = Some (addr g)" "tt_deadline tt (fl_redis F) (route_key u) = Some x"
      "fl_last F u + pingExpiry \<le> x"
    by (auto simp: reachable_at_def)
  with assms(4) have "tt_now tt (fl_redis F) + t < x" by simp
  from ttl_redis.wait_later [OF tr assms(3) r(2) this] r assms(5,6) show ?thesis by (simp add: reachable_at_def route_def)
qed

text \<open>
  As long as a user has used one gateway only, and his clients do not fall silent, his route stays
  where his connection is.
\<close>

lemma reachable_step:
  assumes rd: "redis_laws rd" and tt: "ttl_laws rd tt"
    and step: "fleet_step rd tt addr F F'" and known: "known F"
    and here: "\<And>g'. (g', u) \<in> fl_seen F' \<Longrightarrow> g' = g"
    and before: "settled_in g u F \<Longrightarrow> reachable_at rd tt addr g u F"
    and settled: "settled_in g u F'"
  shows "reachable_at rd tt addr g u F'"
proof -
  note tr = ttl_redis.intro [OF redis_client.intro [OF rd] ttl_redis_axioms.intro [OF tt]]
  note elsewhere = reachable_elsewhere [OF before settled]
  from settled have on: "online g u F'" "(g, u) \<notin># fl_setting F'" by (simp_all add: settled_in_def)
  from step show ?thesis
  proof cases
    case (registers h w pick)
    have "w \<noteq> u" using on here [of h] registers by auto
    then show ?thesis using registers on by (intro elsewhere) (auto simp: gateway_defs connect_clients split: if_splits)
  next
    case (sets_route h w r')
    show ?thesis
    proof (cases "w = u")
      case True
      with sets_route known here have "h = g" by (auto simp: known_def)
      with True sets_route ttl_redis.set_deadline [OF tr sets_route(3) expiries_positive(2)]
        redis_client.set_value [OF redis_client.intro [OF rd] sets_route(3)] expiries_positive(3)
      show ?thesis by (auto simp: reachable_at_def route_def)
    next
      case False
      with sets_route on ttl_redis.set_other [OF tr sets_route(3) expiries_positive(2)] show ?thesis
        by (intro elsewhere) (auto simp: online_def in_diff_other)
    qed
  next
    case (pings i h w r')
    show ?thesis
    proof (cases "w = u")
      case True
      have "reachable_at rd tt addr g u F"
        by (intro before settled_before [OF settled]) (use pings on in \<open>auto simp: gateway_defs split: if_splits\<close>)
      with True pings ttl_redis.expire_deadline [OF tr pings(4) expiries_positive(1)]
        ttl_redis.expire_value [OF tr pings(4) expiries_positive(1)]
      show ?thesis by (auto simp: reachable_at_def route_def)
    next
      case False
      with pings on ttl_redis.expire_other [OF tr pings(4) expiries_positive(1)] show ?thesis
        by (intro elsewhere) (auto simp: gateway_defs split: if_splits)
    qed
  next
    case (moves i h c)
    then show ?thesis using on by (intro elsewhere) (auto simp: gateway_defs split: if_splits)
  next
    case (leaves i h w)
    from leaves_others [OF tr known _ leaves(3,4,1) on(1)] here leaves(1) have
      "rd_value rd (fl_redis F') (route_key u) = rd_value rd (fl_redis F) (route_key u)"
      "tt_deadline tt (fl_redis F') (route_key u) = tt_deadline tt (fl_redis F) (route_key u)" by auto
    then show ?thesis using leaves on by (intro elsewhere) (auto simp: gateway_defs remove_sel split: if_splits)
  next
    case (waits t)
    have "reachable_at rd tt addr g u F"
      by (intro before settled_before [OF settled]) (use waits on in \<open>auto simp: online_def\<close>)
    then show ?thesis
      by (rule waits_unsilenced [OF tr _ waits(2)]) (use waits settled in \<open>auto simp: settled_in_def\<close>)
  qed
qed

lemma fleet_known:
  assumes "fleet_reachable rd tt addr (start_fleet r0) F"
  shows "known F"
  using assms
proof (induction rule: fleet_reachable.induct)
  case fleet_start
  show ?case by (simp add: known_def online_def HubGet_def start_fleet_def NewCliMap_def)
next
  case (fleet_next F F')
  then show ?case by (blast intro: known_step)
qed

lemma seen_grows: "fleet_step rd tt addr F F' \<Longrightarrow> fl_seen F \<subseteq> fl_seen F'"
  by (induction rule: fleet_step.induct) auto

lemma fleet_route:
  assumes "redis_laws rd" and "ttl_laws rd tt" and "fleet_reachable rd tt addr (start_fleet r0) F"
    and "\<And>g'. (g', u) \<in> fl_seen F \<Longrightarrow> g' = g" and "settled_in g u F"
  shows "reachable_at rd tt addr g u F"
  using assms(3-)
proof (induction rule: fleet_reachable.induct)
  case fleet_start
  then show ?case by (simp add: settled_in_def online_def HubGet_def start_fleet_def NewCliMap_def)
next
  case (fleet_next F F')
  show ?case
  proof (rule reachable_step [OF assms(1,2) fleet_next.hyps(2) fleet_known [OF fleet_next.hyps(1)] fleet_next.prems(1)])
    show "reachable_at rd tt addr g u F" if "settled_in g u F"
      using fleet_next.IH [OF fleet_next.prems(1) that] seen_grows [OF fleet_next.hyps(2)] by blast
  qed (use fleet_next.prems in auto)
qed

section \<open>A Redis in memory whose keys expire\<close>

record ttl_mem =
  tm_now :: time
  tm_keys :: "gostring \<Rightarrow> (gostring \<times> time) option"
  tm_counters :: "gostring \<Rightarrow> i64"

definition expiring_redis :: "ttl_mem redis_ops" where
  "expiring_redis =
     \<lparr>rd_get = \<lambda>k r. (r, Inr (map_option fst (tm_keys r k))),
      rd_set = \<lambda>k v d r. (r\<lparr>tm_keys := (tm_keys r)(k \<mapsto> (v, tm_now r + d))\<rparr>, None),
      rd_expire = \<lambda>k d r.
        (case tm_keys r k of
           None \<Rightarrow> (r, None)
         | Some (v, x) \<Rightarrow> (r\<lparr>tm_keys := (tm_keys r)(k \<mapsto> (v, tm_now r + d))\<rparr>, None)),
      rd_del = \<lambda>k r. (r\<lparr>tm_keys := (tm_keys r)(k := None)\<rparr>, None),
      rd_incr = \<lambda>k r. (let n = tm_counters r k + 1 in (r\<lparr>tm_counters := (tm_counters r)(k := n)\<rparr>, Inr n)),
      rd_value = \<lambda>r k. map_option fst (tm_keys r k),
      rd_counter = tm_counters\<rparr>"

definition live :: "time \<Rightarrow> (gostring \<times> time) option \<Rightarrow> (gostring \<times> time) option" where
  "live now v = (case v of Some (x, deadline) \<Rightarrow> if deadline \<le> now then None else v | None \<Rightarrow> None)"

definition expiring_ttl :: "ttl_mem ttl_ops" where
  "expiring_ttl =
     \<lparr>tt_now = tm_now, tt_deadline = \<lambda>r k. map_option snd (tm_keys r k),
      tt_wait = \<lambda>t r. r\<lparr>tm_now := tm_now r + t, tm_keys := \<lambda>k. live (tm_now r + t) (tm_keys r k)\<rparr>\<rparr>"

lemma expiring_redis_laws: "redis_laws expiring_redis"
  unfolding redis_laws_def
  by (auto simp: expiring_redis_def Let_def fun_eq_iff split: option.splits prod.splits)

lemma expiring_ttl_laws: "ttl_laws expiring_redis expiring_ttl"
  unfolding ttl_laws_def
  by (auto simp: expiring_redis_def expiring_ttl_def live_def Let_def fun_eq_iff split: option.splits prod.splits)

interpretation expiring: ttl_redis expiring_redis expiring_ttl
  by unfold_locales (rule expiring_redis_laws expiring_ttl_laws)+

section \<open>The route and the connection\<close>

text \<open>
  C13. The route follows the connection. As long as Redis does not fail, a user with a connection in the
  table of the only gateway he has ever connected to, whose handler has written the route, and who
  never let thirty seconds pass without a ping since, has the address of this gateway as his
  route, whatever other users, other connections of his own on this gateway and their ends do. So
  the messages pushed to the user go where the connection is.
\<close>

theorem route_follows_connection:
  assumes "redis_laws rd" and "ttl_laws rd tt" and "fleet_reachable rd tt addr (start_fleet r0) F"
    and "\<forall>g'. (g', u) \<in> fl_seen F \<longrightarrow> g' = g"
    and "online g u F" and "(g, u) \<notin># fl_setting F" and "u \<notin> fl_silent F"
  shows "route rd F u = Some (addr g)"
proof -
  have "settled_in g u F" using assms(5-) by (simp add: settled_in_def)
  from fleet_route [OF assms(1-3) _ this] assms(4) show ?thesis by (auto simp: reachable_at_def)
qed

text \<open>Two gateways, and what users do there.\<close>

definition two_addr :: "nat \<Rightarrow> gostring" where
  "two_addr g = (if g = 0 then ''g0'' else ''g1'')"

definition joins :: "nat \<Rightarrow> i64 \<Rightarrow> ttl_mem fleet \<Rightarrow> ttl_mem fleet" where
  "joins g u F =
     (let F1 = (at_gateway g (hub_connect (\<lambda>_. True) u) F)
             \<lparr>fl_setting := add_mset (g, u) (fl_setting F), fl_seen := insert (g, u) (fl_seen F)\<rparr>
      in F1\<lparr>fl_redis := fst (rd_set expiring_redis (route_key u) (two_addr g) (24 * hour) (fl_redis F1)),
            fl_setting := fl_setting F1 - {#(g, u)#},
            fl_last := (fl_last F1)(u := tt_now expiring_ttl (fl_redis F1)), fl_silent := fl_silent F1 - {u}\<rparr>)"

definition sends_ping :: "nat \<Rightarrow> nat \<Rightarrow> ttl_mem fleet \<Rightarrow> ttl_mem fleet" where
  "sends_ping g i F =
     (let u = Uid (hub_heap (fl_hubs F g) ! i)
      in (at_gateway g (on_ws i (SendMessage pong)) F)
           \<lparr>fl_redis := fst (rd_expire expiring_redis (route_key u) pingExpiry (fl_redis F)),
            fl_last := (fl_last F)(u := tt_now expiring_ttl (fl_redis F))\<rparr>)"

definition hangs_up :: "nat \<Rightarrow> nat \<Rightarrow> ttl_mem fleet \<Rightarrow> ttl_mem fleet" where
  "hangs_up g i F = at_gateway g (HubRemove expiring_redis (fmt_int64 (Uid (hub_heap (fl_hubs F g) ! i))) i) F"

definition passes :: "time \<Rightarrow> ttl_mem fleet \<Rightarrow> ttl_mem fleet" where
  "passes t F = F\<lparr>fl_redis := tt_wait expiring_ttl t (fl_redis F),
      fl_silent := fl_silent F \<union> {u. fl_last F u + pingExpiry \<le> tt_now expiring_ttl (fl_redis F) + t}\<rparr>"

abbreviation fleet_run :: "ttl_mem fleet \<Rightarrow> bool" where
  "fleet_run \<equiv> fleet_reachable expiring_redis expiring_ttl two_addr
     (start_fleet \<lparr>tm_now = 0, tm_keys = \<lambda>_. None, tm_counters = \<lambda>_. 0\<rparr>)"

lemma redis_never_fails:
  "rd_set expiring_redis k v d r = (fst (rd_set expiring_redis k v d r), None)"
  "rd_expire expiring_redis k d r = (fst (rd_expire expiring_redis k d r), None)"
  "snd (rd_del expiring_redis k r) = None"
  by (simp_all add: expiring_redis_def split: option.split prod.split)

lemma joins_run [intro]: "fleet_run F \<Longrightarrow> fleet_run (joins g u F)"
  unfolding joins_def Let_def
  by (rule fleet_next, erule fleet_next, rule registers, rule sets_route) (simp, rule redis_never_fails)

lemma sends_ping_run [intro]: "fleet_run F \<Longrightarrow> i < length (hub_heap (fl_hubs F g)) \<Longrightarrow> fleet_run (sends_ping g i F)"
  unfolding sends_ping_def Let_def
  by (erule fleet_next, rule pings, assumption, rule refl, rule redis_never_fails)

lemma hangs_up_run [intro]: "fleet_run F \<Longrightarrow> i < length (hub_heap (fl_hubs F g)) \<Longrightarrow> fleet_run (hangs_up g i F)"
  unfolding hangs_up_def
  by (erule fleet_next, rule leaves, assumption, rule refl, rule redis_never_fails)

lemma passes_run [intro]: "fleet_run F \<Longrightarrow> 0 \<le> t \<Longrightarrow> fleet_run (passes t F)"
  unfolding passes_def by (erule fleet_next, erule waits)

lemmas fleet_defs = joins_def sends_ping_def hangs_up_def passes_def at_gateway_def Let_def start_fleet_def NewCliMap_def
  hub_connect_def HubRegister_def HubRemove_def HubGet_def online_def route_def expiring_redis_def expiring_ttl_def
  live_def two_addr_def NewWsClient_def pingExpiry_def hour_def minute_def second_def route_key_def

lemma route_follows_connection_witness:
  "\<exists>F. fleet_run F \<and> route expiring_redis F 5 = Some ''g0'' \<and> tm_now (fl_redis F) = 40 * second"
proof -
  let ?S = "start_fleet \<lparr>tm_now = 0, tm_keys = \<lambda>_. None, tm_counters = \<lambda>_. 0\<rparr>"
  let ?F = "passes (20 * second) (sends_ping 0 0 (passes (20 * second) (joins 0 5 ?S)))"
  have run: "fleet_run ?F"
    by (intro passes_run sends_ping_run joins_run fleet_start) (simp_all add: fleet_defs)
  have "fl_seen ?F = {(0, 5)}" "online 0 5 ?F" "fl_setting ?F = {#}" "5 \<notin> fl_silent ?F" "tm_now (fl_redis ?F) = 40 * second"
    by (simp_all add: fleet_defs)
  with route_follows_connection [OF expiring_redis_laws expiring_ttl_laws run, of 5 0] run show ?thesis
    by (auto simp: two_addr_def intro!: exI [of _ ?F])
qed

text \<open>
  A user who moves becomes unreachable. User 5 connects to gateway 0, then to gateway 1, which
  writes the new route; then the first connection ends, and \<open>Remove\<close> at gateway 0, where it is
  still the user's connection, deletes the route gateway 1 has written. He is connected, no
  handler is about to write, nobody was silent, and there is no route.
\<close>

theorem move_loses_route:
  "\<exists>F. fleet_run F \<and> online 1 5 F \<and> \<not> online 0 5 F \<and> fl_setting F = {#} \<and> fl_silent F = {}
     \<and> route expiring_redis F 5 = None"
proof -
  let ?S = "start_fleet \<lparr>tm_now = 0, tm_keys = \<lambda>_. None, tm_counters = \<lambda>_. 0\<rparr>"
  let ?F = "hangs_up 0 0 (joins 1 5 (joins 0 5 ?S))"
  have run: "fleet_run ?F"
    by (intro hangs_up_run joins_run fleet_start) (simp_all add: fleet_defs)
  have "online 1 5 ?F" "\<not> online 0 5 ?F" "fl_setting ?F = {#}" "fl_silent ?F = {}" "route expiring_redis ?F 5 = None"
    by (simp_all add: fleet_defs)
  with run show ?thesis by blast
qed

text \<open>
  A route that has lapsed does not come back. The first ping cuts the route's life from a day to
  thirty seconds; when the next ping is late the key is gone, and \<open>EXPIRE\<close> does nothing on a key
  that is gone: the user is connected and pings as often as you like, and has no route.
\<close>

theorem route_lapses_for_good:
  "\<exists>F. fleet_run F \<and> (\<forall>n. let F' = (sends_ping 0 0 ^^ n) F in fleet_run F' \<and> online 0 5 F' \<and> route expiring_redis F' 5 = None)"
proof -
  let ?S = "start_fleet \<lparr>tm_now = 0, tm_keys = \<lambda>_. None, tm_counters = \<lambda>_. 0\<rparr>"
  let ?F = "passes (31 * second) (sends_ping 0 0 (joins 0 5 ?S))"
  have run: "fleet_run ?F"
    by (intro passes_run sends_ping_run joins_run fleet_start) (simp_all add: fleet_defs)
  have start: "online 0 5 ?F" "route expiring_redis ?F 5 = None" "length (hub_heap (fl_hubs ?F 0)) = 1"
    by (simp_all add: fleet_defs)
  have ping: "online 0 5 (sends_ping 0 0 F) = online 0 5 F" "route expiring_redis (sends_ping 0 0 F) 5 = route expiring_redis F 5"
      "length (hub_heap (fl_hubs (sends_ping 0 0 F) 0)) = length (hub_heap (fl_hubs F 0))" for F
    by (simp_all add: sends_ping_def Let_def online_def HubGet_def at_gateway_def route_def expiring.expire_value
        [OF redis_never_fails(2) expiries_positive(1)])
  have "fleet_run ((sends_ping 0 0 ^^ n) ?F) \<and> online 0 5 ((sends_ping 0 0 ^^ n) ?F)
      \<and> route expiring_redis ((sends_ping 0 0 ^^ n) ?F) 5 = None
      \<and> length (hub_heap (fl_hubs ((sends_ping 0 0 ^^ n) ?F) 0)) = 1" for n
    by (induction n) (use run start in \<open>auto simp: ping\<close>)
  with run show ?thesis by (auto simp: Let_def intro!: exI [of _ ?F])
qed

end
