(* ===== verification/Im_System.thy ===== *)
theory Im_System
  imports Gateway Logic_Upload Agent_Chat
begin

text \<open>
  Whole journeys of a message: from the sender's websocket through his gateway
  (\<open>apps/gateway/ws/chat.go\<close>), the upload queue, the logic server
  (\<open>apps/logic/service/upload_consumer.go\<close>), the receiver's queue and gateway
  (\<open>apps/gateway/ws/mq_consumer.go\<close>) to the receiver's websocket; and, for a receiver who is offline,
  through the table to his next connection (\<open>apps/gateway/ws/handler.go\<close>).
\<close>

lemma gateway_single_chat: "Gateway.handleSingleChat ops u doc s = run_chat ops SingleChat u doc s"
  by (simp add: run_chat_def)

text \<open>The sender is sent something only with the message in the upload queue.\<close>

lemma told_means_queued:
  assumes "amqp_laws (go_amqp ops) v" and "unmarshal_request doc = Inr rq" and "HubGet (fmt_int64 u) (gw_hub s) = Some i"
    and "s' = run_chat ops SingleChat u doc s" and "hub_heap (gw_hub s') \<noteq> hub_heap (gw_hub s)"
  obtains m q p where "p = upload_of SingleChat u (conv_of ops SingleChat u rq) rq m q"
    "bk_queue v (mq_broker (gw_mq s')) = routed v uploadExchangeName ''upload.all'' (marshal_upload p) (mq_broker (gw_mq s))"
    "hub_heap (gw_hub s') = (hub_heap (gw_hub s))[i := SendMessage (server_ack m q) (hub_heap (gw_hub s) ! i)]"
proof -
  have kind: "SingleChat \<noteq> AIChat" by simp
  obtain s1 res where a: "assign_ids ops (conv_of ops SingleChat u rq) u s = (s1, res)" by fastforce
  note sel = assign_ids_sel [OF a]
  from assms(2,4,5) a sel obtain m q where res: "res = Inr (m, q)"
    by (cases res) (auto simp: run_chat_unfold [OF kind])
  define p where "p = upload_of SingleChat u (conv_of ops SingleChat u rq) rq m q"
  have ids: "up_MsgID p = m" "up_SeqID p = q" by (simp_all add: p_def upload_of_def)
  have s': "s' = fst (publish_and_ack ops u p s1)"
    using a res assms(2,4) by (simp add: run_chat_unfold [OF kind] p_def)
  obtain q' e where pub: "publish_on (go_amqp ops) uploadExchangeName ''upload.all'' (marshal_upload p) (gw_mq s) = (q', e)" by fastforce
  with s' sel assms(5) have e: "e = None" by (cases e) (auto simp: publish_and_ack_def PublishUpload_def)
  have "bk_queue v (mq_broker q') = routed v uploadExchangeName ''upload.all'' (marshal_upload p) (mq_broker (gw_mq s))"
    using amqp_broker.publish_routed [OF amqp_broker.intro [OF assms(1)]] pub e by blast
  moreover have "gw_mq s' = q'" "hub_heap (gw_hub s') = hub_heap (send_to (fmt_int64 u) (server_ack m q) (gw_hub s1))"
    using s' pub e sel by (simp_all add: publish_and_ack_def PublishUpload_def ids)
  moreover have "hub_heap (send_to (fmt_int64 u) (server_ack m q) (gw_hub s1)) =
      (hub_heap (gw_hub s))[i := SendMessage (server_ack m q) (hub_heap (gw_hub s) ! i)]"
    using assms(3) sel by (simp add: send_to_def HubGet_def)
  ultimately show ?thesis using that p_def by auto
qed

text \<open>An acknowledged delivery of a single chat.\<close>

lemma acked_means_stored:
  assumes "table_laws MsgId (lo_msgs ops)" and "redis_laws (lo_redis ops)" and "up_ChatType p = ChatTypeSingle"
    and "handleUploadDelivery ops (Some (marshal_upload p)) s = (s', Ack)"
  shows "tb_rows (lo_msgs ops) (lg_db s') = tb_rows (lo_msgs ops) (lg_db s) @ [single_row p]"
    and "rd_value (lo_redis ops) (lg_redis s) (route_key (up_ReceiverID p)) = Some addr \<Longrightarrow>
      lg_mq s' = fst (PublishDown (lo_amqp ops) addr (marshal_down (single_down p)) (lg_mq s))"
    and "rd_value (lo_redis ops) (lg_redis s) (route_key (up_ReceiverID p)) = None \<Longrightarrow> lg_mq s' = lg_mq s"
proof -
  let ?s1 = "s\<lparr>lg_gen := snd (lo_next ops (lg_gen s))\<rparr>"
  from assms(4) have ok: "Logic_Upload.handleSingleChat ops p s = (s', None)"
    by (cases "Logic_Upload.handleSingleChat ops p s") (auto simp: handleUpload_single [OF assms(3)] split: if_splits)
  then obtain s2 where ins: "insert_message ops (single_row p) ?s1 = (s2, None)"
    by (auto simp: handleSingleChat_unfold Let_def split: prod.splits option.splits)
  note i = insert_message_sel [OF ins]
  from i db_table.create_ok [OF db_table_of [OF assms(1)], of "single_row p" "lg_db s" "lg_db s2"]
  have rows: "tb_rows (lo_msgs ops) (lg_db s2) = tb_rows (lo_msgs ops) (lg_db s) @ [single_row p]" by simp
  from ok ins obtain s3 v where look: "lookup_route ops (up_ReceiverID p) s2 = (s3, Inr v)"
    and fin: "s' = (case v of None \<Rightarrow> s3 | Some addr \<Rightarrow> fst (publish_down ops addr (single_down p) s3))"
    by (auto simp: handleSingleChat_unfold Let_def split: prod.splits sum.splits option.splits)
  note l = lookup_route_sel [OF look]
  have "v = rd_value (lo_redis ops) (lg_redis s2) (route_key (up_ReceiverID p))"
    using redis_client.get_value [OF redis_client.intro [OF assms(2)]] l by blast
  with i l rows fin show "tb_rows (lo_msgs ops) (lg_db s') = tb_rows (lo_msgs ops) (lg_db s) @ [single_row p]"
    and "rd_value (lo_redis ops) (lg_redis s) (route_key (up_ReceiverID p)) = Some addr \<Longrightarrow>
      lg_mq s' = fst (PublishDown (lo_amqp ops) addr (marshal_down (single_down p)) (lg_mq s))"
    and "rd_value (lo_redis ops) (lg_redis s) (route_key (up_ReceiverID p)) = None \<Longrightarrow> lg_mq s' = lg_mq s"
    by (auto simp: publish_down_sel split: option.split)
qed

text \<open>What a queue may gain by a publish, reported as done or not, is the published document.\<close>

lemma queue_gain:
  assumes "amqp_laws am v" and "bk_queue v (mq_broker (fst (publish_on am ex key body q))) qn = bk_queue v (mq_broker q) qn @ [x]"
  shows "x = body"
  using amqp_broker.publish_any [OF amqp_broker.intro [OF assms(1)], of ex key body q] assms(2)
  by (cases "publish_on am ex key body q") (auto simp: routed_def split: if_splits)

section \<open>Properties\<close>

text \<open>
  C4. One message from end to end. A user's request reaches his gateway, and he is told something; the
  logic server acknowledges the document that was appended to the upload queue; the routing table
  knows the receiver's gateway, whose queue gains a document; and the receiver is connected there
  when that is delivered. Then, with one message id and one sequence number throughout: the sender
  was sent the acknowledgement with these ids, the table gained one row with the sender, the
  receiver and the text as he wrote it, unread, and the receiver's connection was handed one
  \<open>chat_push\<close> with the ids, the sender and the text.
\<close>

theorem single_chat_end_to_end:
  assumes laws: "amqp_laws (go_amqp opsA) v" "lo_amqp opsL = go_amqp opsA" "table_laws MsgId (lo_msgs opsL)" "redis_laws (lo_redis opsL)"
    and request: "unmarshal_request doc = Inr rq" "HubGet (fmt_int64 u) (gw_hub a) = Some i"
    and sending: "a' = Gateway.handleSingleChat opsA u doc a" "hub_heap (gw_hub a') \<noteq> hub_heap (gw_hub a)"
    and upload: "bk_queue v (mq_broker (gw_mq a')) qu = bk_queue v (mq_broker (gw_mq a)) qu @ [up]"
    and stored: "handleUploadDelivery opsL (Some up) l = (l', Ack)"
    and route: "rd_value (lo_redis opsL) (lg_redis l) (route_key (cr_Receiver rq)) = Some addr"
    and down: "bk_queue v (mq_broker (lg_mq l')) qd = bk_queue v (mq_broker (lg_mq l)) qd @ [dn]"
    and receiving: "handleMQDelivery opsB (Some dn) b = (b', disp, notice)" "HubGet (fmt_int64 (cr_Receiver rq)) (gw_hub b) = Some j"
  shows "\<exists>m q.
      hub_heap (gw_hub a') = (hub_heap (gw_hub a))[i := SendMessage (server_ack m q) (hub_heap (gw_hub a) ! i)]
    \<and> tb_rows (lo_msgs opsL) (lg_db l') = tb_rows (lo_msgs opsL) (lg_db l)
        @ [\<lparr>MsgId = m, SeqId = q, SenderId = u, ReceiverId = cr_Receiver rq, GroupId = 0, IsRead = False,
            Content = cr_Message rq, SendStatus = SendStatusUnsent\<rparr>]
    \<and> hub_heap (gw_hub b') = (hub_heap (gw_hub b))[j := SendMessage (Doc (marshalChatPush m q 0 u (cr_Message rq))) (hub_heap (gw_hub b) ! j)]
    \<and> disp = Ack"
proof -
  from sending(1) have a': "a' = run_chat opsA SingleChat u doc a" by (simp add: gateway_single_chat)
  from told_means_queued [OF laws(1) request a' sending(2)] obtain m q p
    where p: "p = upload_of SingleChat u (conv_of opsA SingleChat u rq) rq m q"
      and queue: "bk_queue v (mq_broker (gw_mq a')) = routed v uploadExchangeName ''upload.all'' (marshal_upload p) (mq_broker (gw_mq a))"
      and told: "hub_heap (gw_hub a') = (hub_heap (gw_hub a))[i := SendMessage (server_ack m q) (hub_heap (gw_hub a) ! i)]" .
  from upload queue have up: "up = marshal_upload p" by (auto simp: routed_def split: if_splits)
  have kind: "up_ChatType p = ChatTypeSingle" and to: "up_ReceiverID p = cr_Receiver rq" by (simp_all add: p upload_of_def)
  note st = acked_means_stored [OF laws(3,4) kind stored [unfolded up]]
  have "lg_mq l' = fst (publish_on (go_amqp opsA) downExchangeName addr (marshal_down (single_down p)) (lg_mq l))"
    using st(2) [of addr] route to laws(2) by (simp add: PublishDown_def)
  with queue_gain [OF laws(1)] down have dn: "dn = marshal_down (single_down p)" by simp
  have "hub_heap (gw_hub b') = (hub_heap (gw_hub b))[j := SendMessage (Doc (marshalChatPush m q 0 u (cr_Message rq))) (hub_heap (gw_hub b) ! j)]
      \<and> disp = Ack"
    using receiving by (auto simp: handleMQDelivery_def dn single_down_def p upload_of_def marshalChatPush_def)
  with told st(1) show ?thesis by (auto simp: single_row_def p upload_of_def)
qed

text \<open>User 1 writes to user 2, who is connected to the gateway \<open>g1\<close>.\<close>

definition gw_two :: "(mem_redis, mem_broker, i64, message mem_db) gateway" where
  "gw_two = (gw_one [])\<lparr>gw_hub := \<lparr>Clients = [(fmt_int64 2, 0)], hub_heap = [NewWsClient (\<lambda>n. False) 2],
     hub_redis = \<lparr>mr_values = [], mr_counters = [], mr_faults = []\<rparr>\<rparr>\<rparr>"

definition hi_upload :: UploadPayload where
  "hi_upload =
     \<lparr>up_MsgID = 100, up_SeqID = 1, up_ChatType = ChatTypeSingle, up_GroupID = 0, up_ConvID = singleChatConvID 1 2,
      up_SenderID = 1, up_ReceiverID = 2, up_Content = ''hi''\<rparr>"

lemma hi_published:
  "hub_heap (gw_hub (Gateway.handleSingleChat mem_gateway 1 (Some hi_request) (gw_one []))) \<noteq> hub_heap (gw_hub (gw_one []))"
  "bk_queue mem_view (mq_broker (gw_mq (Gateway.handleSingleChat mem_gateway 1 (Some hi_request) (gw_one [])))) ''logic.upload.queue''
    = bk_queue mem_view (mq_broker (gw_mq (gw_one []))) ''logic.upload.queue'' @ [marshal_upload hi_upload]"
proof -
  let ?a' = "Gateway.handleSingleChat mem_gateway 1 (Some hi_request) (gw_one [])"
  have "length (ws_sent (hub_heap (gw_hub ?a') ! 0)) = 1 \<and>
      bk_queue mem_view (mq_broker (gw_mq ?a')) ''logic.upload.queue'' = [marshal_upload hi_upload]"
    by (simp add: gateway_single_chat run_chat_unfold hi_request_parses assign_ids_def GetNextSeqID_def GenerateMsgID_def
        publish_and_ack_def PublishUpload_def publish_on_def getPublishCh_def send_to_def HubGet_def gw_one_def mem_gateway_def
        mem_redis_ops_def mr_fault_def mem_amqp_def mb_fault_def Let_def NewWsClient_def mem_view_def mb_receivers_def
        mr_counter_def upload_of_def conv_of_def hi_upload_def)
  then show "hub_heap (gw_hub ?a') \<noteq> hub_heap (gw_hub (gw_one []))"
    and "bk_queue mem_view (mq_broker (gw_mq ?a')) ''logic.upload.queue''
      = bk_queue mem_view (mq_broker (gw_mq (gw_one []))) ''logic.upload.queue'' @ [marshal_upload hi_upload]"
    by (auto simp: gw_one_def NewWsClient_def mem_view_def)
qed

lemma hi_laws: "amqp_laws (go_amqp mem_gateway) mem_view" "lo_amqp mem_logic = go_amqp mem_gateway"
  by (simp_all add: mem_gateway_def mem_logic_def mem_amqp_laws)

lemma hi_sender: "HubGet (fmt_int64 1) (gw_hub (gw_one ms)) = Some 0"
  by (simp add: gw_one_def HubGet_def)

lemmas hi_stored_simps = handleUpload_single hi_upload_def handleSingleChat_unfold insert_message_def InsertMessage_def
  lookup_route_def publish_down_def PublishDown_def publish_on_def getPublishCh_def single_row_def single_down_def
  mem_amqp_def mb_fault_def mem_view_def mb_receivers_def mem_logic_simps Let_def

lemma single_chat_end_to_end_witness:
  "\<exists>m q. ws_sent (hub_heap (gw_hub (fst (handleMQDelivery mem_gateway (Some (marshal_down (single_down hi_upload))) gw_two))) ! 0)
      = [Doc (marshalChatPush m q 0 1 ''hi'')]
    \<and> map MsgId (mem_rows (lg_db (fst (handleUploadDelivery mem_logic (Some (marshal_upload hi_upload)) (mem_state [(route_key 2, ''g1'')] []))))) = [m]"
proof -
  let ?rq = "\<lparr>cr_ChatType = ''single_chat'', cr_Receiver = 2, cr_GroupID = 0, cr_Message = ''hi''\<rparr>"
  let ?a = "gw_one []" and ?l = "mem_state [(route_key 2, ''g1'')] []"
  let ?a' = "Gateway.handleSingleChat mem_gateway 1 (Some hi_request) ?a"
  let ?l' = "fst (handleUploadDelivery mem_logic (Some (marshal_upload hi_upload)) ?l)"
  let ?d = "handleMQDelivery mem_gateway (Some (marshal_down (single_down hi_upload))) gw_two"
  have get2: "HubGet (fmt_int64 (cr_Receiver ?rq)) (gw_hub gw_two) = Some 0" by (simp add: gw_two_def HubGet_def)
  have run: "handleUploadDelivery mem_logic (Some (marshal_upload hi_upload)) ?l = (?l', Ack)
      \<and> bk_queue mem_view (mq_broker (lg_mq ?l')) ''gateway.queue.g1'' = [marshal_down (single_down hi_upload)]"
    by (simp add: hi_stored_simps)
  then have dn: "bk_queue mem_view (mq_broker (lg_mq ?l')) ''gateway.queue.g1''
      = bk_queue mem_view (mq_broker (lg_mq ?l)) ''gateway.queue.g1'' @ [marshal_down (single_down hi_upload)]"
    by (simp add: mem_view_def mem_state_def)
  have route: "rd_value (lo_redis mem_logic) (lg_redis ?l) (route_key (cr_Receiver ?rq)) = Some ''g1''"
    by (simp add: mem_logic_def mem_state_def mem_redis_ops_def)
  have d: "?d = (fst ?d, fst (snd ?d), snd (snd ?d))" by simp
  from single_chat_end_to_end [OF hi_laws mem_logic_laws hi_request_parses hi_sender refl hi_published conjunct1 [OF run] route dn d get2]
  obtain m q where
    rows: "tb_rows (lo_msgs mem_logic) (lg_db ?l') = tb_rows (lo_msgs mem_logic) (lg_db ?l)
        @ [\<lparr>MsgId = m, SeqId = q, SenderId = 1, ReceiverId = cr_Receiver ?rq, GroupId = 0, IsRead = False,
            Content = cr_Message ?rq, SendStatus = SendStatusUnsent\<rparr>]"
    and got: "hub_heap (gw_hub (fst ?d)) = (hub_heap (gw_hub gw_two))[0 := SendMessage (Doc (marshalChatPush m q 0 1 (cr_Message ?rq)))
        (hub_heap (gw_hub gw_two) ! 0)]" by blast
  from rows have "map MsgId (mem_rows (lg_db ?l')) = [m]" by (simp add: mem_logic_def mem_state_def mem_table_def)
  moreover have "ws_sent (hub_heap (gw_hub (fst ?d)) ! 0) = [Doc (marshalChatPush m q 0 1 ''hi'')]"
    unfolding got by (simp add: gw_two_def NewWsClient_def)
  ultimately show ?thesis by (intro exI [of _ m] exI [of _ q] conjI)
qed

text \<open>
  C25. A message to a user who is offline. A user's request reaches his gateway and he is told something; the
  logic server acknowledges the document appended to the upload queue; the routing table knows no
  gateway for the receiver. Later, nobody having marked as read what he has not read, the receiver
  connects to some gateway, which serves him. Then nothing was published for any gateway; with
  one message id and one sequence number the sender was acknowledged and the receiver's new
  connection takes the frame with the message as it was written, if no more than 1024 messages
  waited for him; and nothing of his is unread afterwards.
\<close>

theorem offline_message_arrives:
  assumes laws: "amqp_laws (go_amqp opsA) v" "table_laws MsgId (lo_msgs opsL)" "redis_laws (lo_redis opsL)"
      "talks_to opsB (lo_msgs opsL)"
    and request: "unmarshal_request doc = Inr rq" "HubGet (fmt_int64 u) (gw_hub a) = Some i"
    and sending: "a' = Gateway.handleSingleChat opsA u doc a" "hub_heap (gw_hub a') \<noteq> hub_heap (gw_hub a)"
    and upload: "bk_queue v (mq_broker (gw_mq a')) qu = bk_queue v (mq_broker (gw_mq a)) qu @ [up]"
    and stored: "handleUploadDelivery opsL (Some up) l = (l', Ack)"
    and route: "rd_value (lo_redis opsL) (lg_redis l) (route_key (cr_Receiver rq)) = None"
    and waiting: "\<forall>r \<in> set (tb_rows (lo_msgs opsL) (lg_db l')). unread_by (cr_Receiver rq) r \<longrightarrow>
      r \<in> set (tb_rows (lo_msgs opsL) (gw_logic b))"
    and coming: "hub_inv (gw_hub b, gone)" "ParseToken (go_jwt opsB) now tok = Inr (cr_Receiver rq)"
      "Handler opsB now upgrade pick tok b = (b', Served j)"
  shows "\<exists>m q row. row = \<lparr>MsgId = m, SeqId = q, SenderId = u, ReceiverId = cr_Receiver rq, GroupId = 0, IsRead = False,
            Content = cr_Message rq, SendStatus = SendStatusUnsent\<rparr>
    \<and> lg_mq l' = lg_mq l
    \<and> hub_heap (gw_hub a') = (hub_heap (gw_hub a))[i := SendMessage (server_ack m q) (hub_heap (gw_hub a) ! i)]
    \<and> (length (filter (unread_by (cr_Receiver rq)) (tb_rows (lo_msgs opsL) (gw_logic b))) \<le> 1024 \<longrightarrow>
        unread_frame (to_item row) \<in> set (ws_accepted (hub_heap (gw_hub b') ! j)))
    \<and> filter (unread_by (cr_Receiver rq)) (tb_rows (lo_msgs opsL) (gw_logic b')) = []"
proof -
  from sending(1) have a': "a' = run_chat opsA SingleChat u doc a" by (simp add: gateway_single_chat)
  from told_means_queued [OF laws(1) request a' sending(2)] obtain m q p
    where p: "p = upload_of SingleChat u (conv_of opsA SingleChat u rq) rq m q"
      and queue: "bk_queue v (mq_broker (gw_mq a')) = routed v uploadExchangeName ''upload.all'' (marshal_upload p) (mq_broker (gw_mq a))"
      and told: "hub_heap (gw_hub a') = (hub_heap (gw_hub a))[i := SendMessage (server_ack m q) (hub_heap (gw_hub a) ! i)]" .
  from upload queue have up: "up = marshal_upload p" by (auto simp: routed_def split: if_splits)
  have kind: "up_ChatType p = ChatTypeSingle" and to: "up_ReceiverID p = cr_Receiver rq" by (simp_all add: p upload_of_def)
  note st = acked_means_stored [OF laws(2,3) kind stored [unfolded up]]
  have row: "single_row p = \<lparr>MsgId = m, SeqId = q, SenderId = u, ReceiverId = cr_Receiver rq, GroupId = 0, IsRead = False,
      Content = cr_Message rq, SendStatus = SendStatusUnsent\<rparr>"
    by (simp add: single_row_def p upload_of_def)
  have "single_row p \<in> set (tb_rows (lo_msgs opsL) (gw_logic b))"
    using waiting st(1) row by (simp add: unread_by_def)
  moreover from Handler_syncs [OF laws(2,4) coming(1,3)] coming(2) obtain ms
    where ms: "mset ms = mset (filter (unread_by (cr_Receiver rq)) (tb_rows (lo_msgs opsL) (gw_logic b)))"
      and none: "filter (unread_by (cr_Receiver rq)) (tb_rows (lo_msgs opsL) (gw_logic b')) = []"
      and took: "length ms \<le> 1024 \<longrightarrow> ws_accepted (hub_heap (gw_hub b') ! j) = map (unread_frame \<circ> to_item) ms" by auto
  ultimately have "single_row p \<in> set ms" using mset_eq_setD [OF ms] row by (simp add: unread_by_def)
  moreover have "length ms = length (filter (unread_by (cr_Receiver rq)) (tb_rows (lo_msgs opsL) (gw_logic b)))"
    using ms by (metis size_mset)
  ultimately have "length (filter (unread_by (cr_Receiver rq)) (tb_rows (lo_msgs opsL) (gw_logic b))) \<le> 1024 \<longrightarrow>
      unread_frame (to_item (single_row p)) \<in> set (ws_accepted (hub_heap (gw_hub b') ! j))"
    using took by simp
  with st(3) route to told none row show ?thesis by metis
qed

lemma offline_message_arrives_witness:
  "\<exists>tok m q. unread_frame (to_item \<lparr>MsgId = m, SeqId = q, SenderId = 1, ReceiverId = 2, GroupId = 0, IsRead = False,
        Content = ''hi'', SendStatus = SendStatusUnsent\<rparr>)
      \<in> set (ws_accepted (hub_heap (gw_hub (fst (Handler mem_gateway 0 None (\<lambda>n. True) tok (gw_one [single_row hi_upload])))) ! 1))"
proof -
  let ?rq = "\<lparr>cr_ChatType = ''single_chat'', cr_Receiver = 2, cr_GroupID = 0, cr_Message = ''hi''\<rparr>"
  let ?l = "mem_state [] []" and ?b = "gw_one [single_row hi_upload]"
  let ?l' = "fst (handleUploadDelivery mem_logic (Some (marshal_upload hi_upload)) ?l)"
  have run: "handleUploadDelivery mem_logic (Some (marshal_upload hi_upload)) ?l = (?l', Ack)
      \<and> tb_rows (lo_msgs mem_logic) (lg_db ?l') = [single_row hi_upload]"
    by (simp add: hi_stored_simps)
  have route: "rd_value (lo_redis mem_logic) (lg_redis ?l) (route_key (cr_Receiver ?rq)) = None"
    by (simp add: mem_logic_def mem_state_def mem_redis_ops_def)
  have talks: "talks_to mem_gateway (lo_msgs mem_logic)" using mem_gateway_talks by (simp add: mem_logic_def)
  have rows: "tb_rows (lo_msgs mem_logic) (gw_logic ?b) = [single_row hi_upload]"
    by (simp add: mem_logic_def mem_table_def gw_one_def)
  obtain tok where tok: "ParseToken (go_jwt mem_gateway) 0 tok = Inr 2"
    and served: "snd (Handler mem_gateway 0 None (\<lambda>n. True) tok ?b) = Served 1"
    by (rule gw_one_serves)
  let ?r = "Handler mem_gateway 0 None (\<lambda>n. True) tok ?b"
  from served have r: "?r = (fst ?r, Served 1)" by (metis prod.collapse)
  have wait: "\<forall>r \<in> set (tb_rows (lo_msgs mem_logic) (lg_db ?l')). unread_by (cr_Receiver ?rq) r \<longrightarrow>
      r \<in> set (tb_rows (lo_msgs mem_logic) (gw_logic ?b))"
    using run rows by simp
  from offline_message_arrives [OF hi_laws(1) mem_logic_laws talks hi_request_parses hi_sender refl hi_published conjunct1 [OF run]
      route wait gw_one_inv _ r] tok rows
  show ?thesis by (auto split: if_splits)
qed

end
