(* ===== verification/Delivery.thy ===== *)
theory Delivery
  imports Im_System Upload_Workers Presence
begin

text \<open>
  The promise of an acknowledgement. A gateway tells a sender that his message has been taken
  (\<open>apps/gateway/ws/chat.go\<close>) once it has been published; from then on it is in the upload queue, with
  the logic server's fifty goroutines (\<open>apps/logic/service/upload_consumer.go\<close>), or in the table,
  although these may fail, be given deliveries again, lose their channel or be restarted at any
  moment. The broker hands out a queue in its order and keeps what is not acknowledged: that is
  what RabbitMQ documents of a durable queue with manual acknowledgements.
\<close>

section \<open>Gateway, queue and workers\<close>

text \<open>
  \<open>cu_taken\<close> counts the documents of the queue that have been handed to the logic server, \<open>cu_back\<close> are
  those to be handed out again; \<open>cu_promised\<close>, for the statements, are the messages of which the gateway
  has acknowledged the receipt.
\<close>

record ('db, 'r, 'b, 'g, 'l) courier =
  cu_gateway :: "('r, 'b, 'g, 'l) gateway"
  cu_taken :: nat
  cu_back :: "json option multiset"
  cu_pool :: "(('db, 'r, 'b, 'g) logic, stage, unit) pool"
  cu_promised :: "UploadPayload set"

definition uploadQueue :: gostring where "uploadQueue = ''logic.upload.queue''"

definition upload_queue :: "'b broker_view \<Rightarrow> ('r, 'b, 'g, 'l) gateway \<Rightarrow> json list" where
  "upload_queue v gw = bk_queue v (mq_broker (gw_mq gw)) uploadQueue"

definition upload_bound :: "'b broker_view \<Rightarrow> ('r, 'b, 'g, 'l) gateway \<Rightarrow> bool" where
  "upload_bound v gw \<longleftrightarrow> (uploadExchangeName, ''upload.all'', uploadQueue) \<in> bk_bound v (mq_broker (gw_mq gw))"

text \<open>The message a request makes the gateway acknowledge, if it does.\<close>

definition acknowledged :: "('r, 'b, 'g, 'l) gateway_ops \<Rightarrow> i64 \<Rightarrow> json option \<Rightarrow> ('r, 'b, 'g, 'l) gateway \<Rightarrow> UploadPayload set" where
  "acknowledged ops u doc gw =
     (case unmarshal_request doc of
        Inl e \<Rightarrow> {}
      | Inr rq \<Rightarrow>
          (case assign_ids ops (conv_of ops SingleChat u rq) u gw of
             (s1, Inl e) \<Rightarrow> {}
           | (s1, Inr (m, q)) \<Rightarrow>
               (let p = upload_of SingleChat u (conv_of ops SingleChat u rq) rq m q
                in if snd (publish_and_ack ops u p s1) then {p} else {})))"

text \<open>Deliveries that are not settled, and what goes back when some are refused with requeueing.\<close>

definition open_tags :: "('s, 'c, 'x) pool \<Rightarrow> nat list" where
  "open_tags p = pl_chan p @ concat (map held (pl_workers p))"

definition unsettled :: "('s, 'c, 'x) pool \<Rightarrow> json option multiset" where
  "unsettled p = mset (map (\<lambda>n. pl_arrived p ! n) (open_tags p))"

definition sent_back :: "('s, 'c, 'x) pool \<Rightarrow> ('s, 'c, 'x) pool \<Rightarrow> json option multiset" where
  "sent_back p p' =
     (if pl_closed p then {#}
      else mset (map (\<lambda>t. pl_arrived p ! fst t) (filter (\<lambda>t. snd t = Nack True) (drop (length (pl_settled p)) (pl_settled p')))))"

definition arrives_at :: "json option \<Rightarrow> ('s, 'c, 'x) pool \<Rightarrow> ('s, 'c, 'x) pool" where
  "arrives_at body p = p\<lparr>pl_arrived := pl_arrived p @ [body], pl_chan := pl_chan p @ [length (pl_arrived p)]\<rparr>"

text \<open>
  The steps: a single chat at the gateway; anything else that leaves the queue's documents and its
  binding in place, there or at other gateways; deliveries and redeliveries; a statement of a
  worker; other processes on the table; the loss of the channel, and a restart of the logic server, at which
  all that was not settled goes back.
\<close>

inductive courier_step ::
    "('r, 'b, 'g, 'l) gateway_ops \<Rightarrow> 'b broker_view \<Rightarrow> ('db, 'r, 'b, 'g) logic_ops \<Rightarrow>
     ('db, 'r, 'b, 'g, 'l) courier \<Rightarrow> ('db, 'r, 'b, 'g, 'l) courier \<Rightarrow> bool" for opsG v opsL where
  chats: "courier_step opsG v opsL c (c\<lparr>cu_gateway := Gateway.handleSingleChat opsG u doc (cu_gateway c),
      cu_promised := cu_promised c \<union> acknowledged opsG u doc (cu_gateway c)\<rparr>)"
| elsewhere: "prefix (upload_queue v (cu_gateway c)) (upload_queue v gw) \<Longrightarrow> upload_bound v gw \<Longrightarrow>
    courier_step opsG v opsL c (c\<lparr>cu_gateway := gw\<rparr>)"
| delivers: "cu_taken c < length (upload_queue v (cu_gateway c)) \<Longrightarrow> \<not> pl_closed (cu_pool c) \<Longrightarrow>
    courier_step opsG v opsL c (c\<lparr>cu_pool := arrives_at (Some (upload_queue v (cu_gateway c) ! cu_taken c)) (cu_pool c),
      cu_taken := Suc (cu_taken c)\<rparr>)"
| redelivers: "body \<in># cu_back c \<Longrightarrow> \<not> pl_closed (cu_pool c) \<Longrightarrow>
    courier_step opsG v opsL c (c\<lparr>cu_pool := arrives_at body (cu_pool c), cu_back := cu_back c - {#body#}\<rparr>)"
| works: "worker_step (upload_consumer opsL) (cu_pool c) p \<Longrightarrow>
    courier_step opsG v opsL c (c\<lparr>cu_pool := p, cu_back := cu_back c + sent_back (cu_pool c) p\<rparr>)"
| others: "others_act opsL (pl_shared (cu_pool c)) s \<Longrightarrow>
    courier_step opsG v opsL c (c\<lparr>cu_pool := (cu_pool c)\<lparr>pl_shared := s\<rparr>\<rparr>)"
| loses_channel: "\<not> pl_closed (cu_pool c) \<Longrightarrow>
    courier_step opsG v opsL c (c\<lparr>cu_pool := (cu_pool c)\<lparr>pl_closed := True\<rparr>, cu_back := cu_back c + unsettled (cu_pool c)\<rparr>)"
| restarts: "lg_db s = lg_db (pl_shared (cu_pool c)) \<Longrightarrow>
    courier_step opsG v opsL c (c\<lparr>cu_pool := start_workers uploadWorkers s,
      cu_back := cu_back c + (if pl_closed (cu_pool c) then {#} else unsettled (cu_pool c))\<rparr>)"

definition start_courier :: "('r, 'b, 'g, 'l) gateway \<Rightarrow> ('db, 'r, 'b, 'g) logic \<Rightarrow> ('db, 'r, 'b, 'g, 'l) courier" where
  "start_courier gw s =
     \<lparr>cu_gateway = gw, cu_taken = 0, cu_back = {#}, cu_pool = start_workers uploadWorkers s, cu_promised = {}\<rparr>"

inductive courier_reachable ::
    "('r, 'b, 'g, 'l) gateway_ops \<Rightarrow> 'b broker_view \<Rightarrow> ('db, 'r, 'b, 'g) logic_ops \<Rightarrow>
     ('db, 'r, 'b, 'g, 'l) courier \<Rightarrow> ('db, 'r, 'b, 'g, 'l) courier \<Rightarrow> bool" for opsG v opsL c0 where
  courier_start: "courier_reachable opsG v opsL c0 c0"
| courier_next: "courier_reachable opsG v opsL c0 c \<Longrightarrow> courier_step opsG v opsL c c' \<Longrightarrow> courier_reachable opsG v opsL c0 c'"

section \<open>The gateway's side\<close>

lemma chat_queue:
  assumes "amqp_laws (go_amqp ops) v" and "upload_bound v gw"
  shows "prefix (upload_queue v gw) (upload_queue v (Gateway.handleSingleChat ops u doc gw))
    \<and> upload_bound v (Gateway.handleSingleChat ops u doc gw)
    \<and> (p \<in> acknowledged ops u doc gw \<longrightarrow>
        up_ChatType p = ChatTypeSingle
        \<and> upload_queue v (Gateway.handleSingleChat ops u doc gw) = upload_queue v gw @ [marshal_upload p])"
proof (cases "unmarshal_request doc")
  case (Inl e)
  then show ?thesis using assms(2) by (simp add: acknowledged_def gateway_single_chat run_chat_unfold)
next
  case (Inr rq)
  obtain s1 res where a: "assign_ids ops (conv_of ops SingleChat u rq) u gw = (s1, res)" by fastforce
  note sel = assign_ids_sel [OF a]
  show ?thesis
  proof (cases res)
    case (Inl e)
    with Inr a sel assms(2) show ?thesis
      by (simp add: acknowledged_def gateway_single_chat run_chat_unfold upload_queue_def upload_bound_def)
  next
    case ids: (Inr mq)
    obtain m q where mq: "mq = (m, q)" by fastforce
    define y where "y = upload_of SingleChat u (conv_of ops SingleChat u rq) rq m q"
    obtain q' e where pub: "publish_on (go_amqp ops) uploadExchangeName ''upload.all'' (marshal_upload y) (gw_mq gw) = (q', e)" by fastforce
    have gw': "gw_mq (Gateway.handleSingleChat ops u doc gw) = q'"
      using Inr a ids mq sel pub
      by (simp add: gateway_single_chat run_chat_unfold publish_and_ack_def PublishUpload_def y_def split: option.split)
    have told: "acknowledged ops u doc gw = (if e = None then {y} else {})"
      using Inr a ids mq sel pub
      by (simp add: acknowledged_def publish_and_ack_def PublishUpload_def y_def Let_def split: option.split)
    from amqp_broker.publish_any [OF amqp_broker.intro [OF assms(1)] pub]
      assms(2) gw' told show ?thesis
      by (auto simp: upload_queue_def upload_bound_def routed_def y_def upload_of_def split: if_splits)
  qed
qed

section \<open>The workers' side\<close>

lemma worker_settles:
  assumes "worker_step cs p p'"
  shows "pl_arrived p' = pl_arrived p" and "pl_closed p' = pl_closed p" and "\<exists>new. pl_settled p' = pl_settled p @ new"
  using assms by (induction rule: worker_step.induct) auto

lemma open_in_use: "in_use p = open_tags p @ map fst (pl_settled p)"
  by (simp add: in_use_def open_tags_def)

text \<open>A delivery that was open still is after a step, or has been settled by it.\<close>

lemma open_after:
  assumes "worker_step cs p p'" and "pool_inv p" and "n \<in> set (open_tags p)"
  shows "n \<in> set (open_tags p') \<or> (\<exists>d. (n, d) \<in> set (drop (length (pl_settled p)) (pl_settled p')) \<and> (n, d) \<in> set (pl_settled p'))"
proof -
  note u = in_use_tags [OF assms(2)] and u' = in_use_tags [OF pool_inv_worker [OF assms(1,2)]]
  obtain new where new: "pl_settled p' = pl_settled p @ new" using worker_settles(3) [OF assms(1)] by blast
  have "n \<in> set (in_use p)" using assms(3) by (simp add: open_in_use)
  then have "n \<in> set (in_use p')" using u(2) u'(2) worker_settles(1) [OF assms(1)] by simp
  moreover have "n \<notin> set (map fst (pl_settled p))" using u(1) assms(3) by (auto simp: open_in_use)
  ultimately show ?thesis using new by (force simp: open_in_use)
qed

text \<open>A document is refused for good only if it carries no message.\<close>

lemma upload_refuses:
  "stage_ok body c \<Longrightarrow> upload_next ops c s = (s', Inr (Nack False, x)) \<Longrightarrow> carried body = None"
  by (erule upload_endE) (auto simp: ended_def carried_def split: sum.splits prod.splits option.splits if_splits)

definition refused :: "('s, stage, unit) pool \<Rightarrow> bool" where
  "refused p \<longleftrightarrow> (\<forall>n. (\<exists>x. Settling n (Nack False) x \<in> set (pl_workers p)) \<or> (n, Nack False) \<in> set (pl_settled p) \<longrightarrow>
     carried (pl_arrived p ! n) = None)"

lemma refused_worker:
  assumes "worker_step (upload_consumer ops) p p'" and "in_stage p" and "refused p"
  shows "refused p'"
  using assms
proof cases
  case (last_statement i n c s' d x)
  have "Handling n c \<in> set (pl_workers p)" using last_statement(2,3) nth_mem by metis
  with assms(2) have "stage_ok (pl_arrived p ! n) c" by (simp add: in_stage_def)
  with upload_refuses last_statement(4) have "d = Nack False \<Longrightarrow> carried (pl_arrived p ! n) = None" by fastforce
  moreover have "set (pl_workers p') \<subseteq> insert (Settling n d x) (set (pl_workers p))"
    using last_statement(1) by (simp add: set_update_subset_insert)
  ultimately show ?thesis using last_statement(1) assms(3) unfolding refused_def by auto
next
  case (settle i n d x)
  have "Settling n d x \<in> set (pl_workers p)" using settle(2,3) nth_mem by metis
  moreover have "set (pl_workers p') \<subseteq> insert Ranging (set (pl_workers p))" using settle(1) by (simp add: set_update_subset_insert)
  ultimately show ?thesis using settle(1) assms(3) unfolding refused_def by auto
next
  case (receive i n ns)
  have "set (pl_workers p') \<subseteq> insert (Handling n (Parse (pl_arrived p ! n))) (set (pl_workers p))"
    using receive(1) by (simp add: set_update_subset_insert)
  then show ?thesis using receive(1) assms(3) unfolding refused_def by auto
next
  case (leave i)
  have "set (pl_workers p') \<subseteq> insert Finished (set (pl_workers p))" using leave(1) by (simp add: set_update_subset_insert)
  then show ?thesis using leave(1) assms(3) unfolding refused_def by auto
next
  case (statement i n c s' c')
  have "set (pl_workers p') \<subseteq> insert (Handling n c') (set (pl_workers p))" using statement(1) by (simp add: set_update_subset_insert)
  then show ?thesis using statement(1) assms(3) unfolding refused_def by auto
qed

lemma worker_keeps:
  assumes "table_laws MsgId (lo_msgs ops)" and "members_apart ops" and "in_stage p" and "worker_step (upload_consumer ops) p p'"
  shows "keeps ops (pl_shared p) (pl_shared p')"
  using assms(4)
proof cases
  case (statement i n c s' c')
  have "Handling n c \<in> set (pl_workers p)" using statement(2,3) nth_mem by metis
  with assms(3) have "stage_ok (pl_arrived p ! n) c" by (simp add: in_stage_def)
  from upload_effect [OF assms(1,2) this] statement show ?thesis by simp
next
  case (last_statement i n c s' d x)
  have "Handling n c \<in> set (pl_workers p)" using last_statement(2,3) nth_mem by metis
  with assms(3) have "stage_ok (pl_arrived p ! n) c" by (simp add: in_stage_def)
  from upload_effect [OF assms(1,2) this] last_statement show ?thesis by simp
qed simp_all

section \<open>Nothing is lost\<close>

text \<open>Where a document is that has been handed out: back, open, or stored if it carries a message.\<close>

definition safe ::
    "('db, 'r, 'b, 'g) logic_ops \<Rightarrow> json option multiset \<Rightarrow> (('db, 'r, 'b, 'g) logic, stage, unit) pool \<Rightarrow> json option \<Rightarrow> bool" where
  "safe ops returned p b \<longleftrightarrow> b \<in># returned \<or> (\<exists>n \<in> set (open_tags p). pl_arrived p ! n = b)
     \<or> (\<forall>q. carried b = Some q \<longrightarrow> written (single_row q) \<in> written_rows ops (pl_shared p))"

definition backed :: "json option multiset \<Rightarrow> ('s, 'c, 'x) pool \<Rightarrow> bool" where
  "backed returned p \<longleftrightarrow> (pl_closed p \<longrightarrow> (\<forall>n \<in> set (open_tags p). pl_arrived p ! n \<in># returned))"

lemma safe_stored: "safe ops returned p b \<Longrightarrow> keeps ops (pl_shared p) (pl_shared p') \<Longrightarrow> open_tags p' = open_tags p \<Longrightarrow>
    pl_arrived p' = pl_arrived p \<Longrightarrow> safe ops returned p' b"
  unfolding safe_def keeps_def by (auto dest: subsetD)

lemma safe_worker:
  assumes laws: "table_laws MsgId (lo_msgs ops)" "members_apart ops"
    and inv: "upload_inv ops p" "refused p" "backed returned p"
    and step: "worker_step (upload_consumer ops) p p'" and safe: "safe ops returned p b"
  shows "safe ops (returned + sent_back p p') p' b"
proof -
  have pool: "pool_inv p" "in_stage p" using inv(1) by (simp_all add: upload_inv_def)
  have inv': "upload_inv ops p'" "refused p'"
    using upload_inv_worker [OF laws step inv(1)] refused_worker [OF step pool(2) inv(2)] by blast+
  note same = worker_settles(1) [OF step]
  consider (returned) "b \<in># returned" | (opened) n where "n \<in> set (open_tags p)" "pl_arrived p ! n = b"
    | (row) "\<forall>q. carried b = Some q \<longrightarrow> written (single_row q) \<in> written_rows ops (pl_shared p)"
    using safe unfolding safe_def by blast
  then show ?thesis
  proof cases
    case returned
    then show ?thesis by (simp add: safe_def)
  next
    case row
    with worker_keeps [OF laws pool(2) step] show ?thesis unfolding safe_def keeps_def by blast
  next
    case opened
    show ?thesis
    proof (cases "n \<in> set (open_tags p')")
      case True
      with opened same show ?thesis by (auto simp: safe_def)
    next
      case False
      with open_after [OF step pool(1) opened(1)] obtain d where
        d: "(n, d) \<in> set (drop (length (pl_settled p)) (pl_settled p'))" "(n, d) \<in> set (pl_settled p')" by blast
      consider "d = Ack" | "d = Nack True" "pl_closed p" | "d = Nack True" "\<not> pl_closed p" | "d = Nack False"
        by (cases d) auto
      then show ?thesis
      proof cases
        case 1
        with d(2) have "n \<in> claimed p'" by (simp add: claimed_def)
        with inv'(1) opened(2) same show ?thesis by (auto simp: safe_def upload_inv_def carries_def)
      next
        case 2
        with inv(3) opened show ?thesis by (auto simp: safe_def backed_def)
      next
        case 3
        with d(1) opened(2) have "b \<in># sent_back p p'" by (force simp: sent_back_def)
        then show ?thesis by (simp add: safe_def)
      next
        case 4
        with inv'(2) d(2) opened(2) same have "carried b = None" by (auto simp: refused_def)
        then show ?thesis by (simp add: safe_def)
      qed
    qed
  qed
qed

lemma backed_worker:
  assumes "pool_inv p" and "worker_step cs p p'" and "backed returned p"
  shows "backed (returned + more_back) p'"
proof -
  have "set (open_tags p') \<subseteq> set (open_tags p)"
  proof
    fix n assume n: "n \<in> set (open_tags p')"
    note u = in_use_tags [OF assms(1)] and u' = in_use_tags [OF pool_inv_worker [OF assms(2,1)]]
    obtain new where new: "pl_settled p' = pl_settled p @ new" using worker_settles(3) [OF assms(2)] by blast
    from n u(2) u'(2) worker_settles(1) [OF assms(2)] have "n \<in> set (in_use p)" by (auto simp: open_in_use)
    moreover have "n \<notin> set (map fst (pl_settled p))" using u'(1) n new by (auto simp: open_in_use)
    ultimately show "n \<in> set (open_tags p)" by (auto simp: open_in_use)
  qed
  with assms(3) worker_settles(1,2) [OF assms(2)] show ?thesis by (auto simp: backed_def)
qed

text \<open>A delivery that arrives.\<close>

lemma arrives_sel [simp]:
  "open_tags (arrives_at b p) = pl_chan p @ length (pl_arrived p) # concat (map held (pl_workers p))"
  "pl_shared (arrives_at b p) = pl_shared p" "pl_closed (arrives_at b p) = pl_closed p"
  "pl_arrived (arrives_at b p) = pl_arrived p @ [b]" "pl_workers (arrives_at b p) = pl_workers p"
  "pl_settled (arrives_at b p) = pl_settled p"
  by (simp_all add: arrives_at_def open_tags_def)

lemma open_arrived: "pool_inv p \<Longrightarrow> n \<in> set (open_tags p) \<Longrightarrow> n < length (pl_arrived p)"
  using in_use_tags(2) by (fastforce simp: open_in_use)

lemma safe_arrives:
  assumes "pool_inv p"
  shows "safe ops returned (arrives_at b p) b"
    and "safe ops returned p x \<Longrightarrow> safe ops (returned - {#b#}) (arrives_at b p) x"
proof -
  show here: "safe ops r (arrives_at b p) b" for r by (simp add: safe_def nth_append)
  show "safe ops (returned - {#b#}) (arrives_at b p) x" if "safe ops returned p x"
  proof (cases "x = b")
    case True
    then show ?thesis using here by simp
  next
    case False
    then have "x \<in># returned - {#b#} \<longleftrightarrow> x \<in># returned" by (auto simp flip: count_greater_zero_iff)
    moreover have "\<exists>m \<in> set (open_tags (arrives_at b p)). pl_arrived (arrives_at b p) ! m = x"
      if "n \<in> set (open_tags p)" "pl_arrived p ! n = x" for n
      using that open_arrived [OF assms that(1)] by (intro bexI [of _ n]) (auto simp: nth_append open_tags_def arrives_at_def)
    ultimately show ?thesis using that unfolding safe_def by auto
  qed
qed

lemma refused_arrives:
  assumes "pool_inv p" and "refused p"
  shows "refused (arrives_at b p)"
proof -
  have "n < length (pl_arrived p)" if "(\<exists>x. Settling n d x \<in> set (pl_workers p)) \<or> (n, d) \<in> set (pl_settled p)" for n d
  proof -
    have "n \<in> set (in_use p)" using that by (force simp: in_use_def)
    with in_use_tags(2) [OF assms(1)] show ?thesis by simp
  qed
  from this [where d = "Nack False"] assms(2) show ?thesis unfolding refused_def arrives_sel by (metis nth_append)
qed

text \<open>The invariant of the whole.\<close>

definition courier_inv ::
    "'b broker_view \<Rightarrow> ('db, 'r, 'b, 'g) logic_ops \<Rightarrow> ('db, 'r, 'b, 'g, 'l) courier \<Rightarrow> bool" where
  "courier_inv v ops c \<longleftrightarrow> upload_inv ops (cu_pool c) \<and> refused (cu_pool c) \<and> backed (cu_back c) (cu_pool c)
     \<and> pl_workers (cu_pool c) \<noteq> [] \<and> upload_bound v (cu_gateway c)
     \<and> cu_taken c \<le> length (upload_queue v (cu_gateway c))
     \<and> (\<forall>i < cu_taken c. safe ops (cu_back c) (cu_pool c) (Some (upload_queue v (cu_gateway c) ! i)))
     \<and> (\<forall>p \<in> cu_promised c. up_ChatType p = ChatTypeSingle \<and> marshal_upload p \<in> set (upload_queue v (cu_gateway c)))"

text \<open>A step that touches the gateway only, and one that touches the pool only.\<close>

lemma courier_inv_gateway:
  assumes "courier_inv v ops c" and "prefix (upload_queue v (cu_gateway c)) (upload_queue v gw)" and "upload_bound v gw"
    and "\<forall>p \<in> promised - cu_promised c. up_ChatType p = ChatTypeSingle \<and> marshal_upload p \<in> set (upload_queue v gw)"
  shows "courier_inv v ops (c\<lparr>cu_gateway := gw, cu_promised := promised\<rparr>)"
proof -
  obtain more_docs where q: "upload_queue v gw = upload_queue v (cu_gateway c) @ more_docs" using assms(2) by (auto simp: prefix_def)
  have t: "cu_taken c \<le> length (upload_queue v (cu_gateway c))" using assms(1) by (simp add: courier_inv_def)
  have "upload_queue v gw ! i = upload_queue v (cu_gateway c) ! i" if "i < cu_taken c" for i
    using that t by (simp add: q nth_append)
  with assms(1,3,4) t q show ?thesis by (auto simp: courier_inv_def)
qed

lemma courier_inv_pool:
  assumes "courier_inv v ops c" and "upload_inv ops p" and "refused p" and "backed returned p" and "pl_workers p \<noteq> []"
    and "\<And>b. safe ops (cu_back c) (cu_pool c) b \<Longrightarrow> safe ops returned p b"
  shows "courier_inv v ops (c\<lparr>cu_pool := p, cu_back := returned\<rparr>)"
  using assms by (simp add: courier_inv_def)

lemma upload_inv_arrives:
  assumes "table_laws MsgId (lo_msgs ops)" and "upload_inv ops p" and "\<not> pl_closed p"
  shows "upload_inv ops (arrives_at b p)"
  using upload_inv_event [OF assms(1) pool_event.arrive [OF assms(3)] assms(2)] by (simp add: arrives_at_def)

lemma courier_inv_delivers:
  assumes laws: "table_laws MsgId (lo_msgs ops)" and inv: "courier_inv v ops c"
    and here: "cu_taken c < length (upload_queue v (cu_gateway c))" "\<not> pl_closed (cu_pool c)"
  shows "courier_inv v ops (c\<lparr>cu_pool := arrives_at (Some (upload_queue v (cu_gateway c) ! cu_taken c)) (cu_pool c),
    cu_taken := Suc (cu_taken c)\<rparr>)"
proof -
  let ?p = "cu_pool c" and ?b = "Some (upload_queue v (cu_gateway c) ! cu_taken c)"
  have up: "upload_inv ops ?p" "refused ?p" "pl_workers ?p \<noteq> []" and pool: "pool_inv ?p"
    using inv by (simp_all add: courier_inv_def upload_inv_def)
  have "safe ops (cu_back c) (arrives_at ?b ?p) x" if "safe ops (cu_back c) ?p x" for x
  proof -
    have "safe ops (add_mset ?b (cu_back c)) ?p x" using that by (auto simp: safe_def)
    from safe_arrives(2) [OF pool this, of ?b] show ?thesis by simp
  qed
  then have "courier_inv v ops (c\<lparr>cu_pool := arrives_at ?b ?p, cu_back := cu_back c\<rparr>)"
    using here up by (intro courier_inv_pool [OF inv upload_inv_arrives [OF laws up(1) here(2)] refused_arrives [OF pool up(2)]])
      (auto simp: backed_def)
  then show ?thesis unfolding courier_inv_def
    using here(1) safe_arrives(1) [OF pool, of ops "cu_back c" ?b] by (auto simp: less_Suc_eq)
qed

text \<open>What a restart leaves: an idle pool on the same table, with everything that was open back at the broker.\<close>

lemma courier_inv_restarts:
  assumes laws: "table_laws MsgId (lo_msgs ops)" "members_apart ops" and inv: "courier_inv v ops c"
    and db: "lg_db s = lg_db (pl_shared (cu_pool c))"
  shows "courier_inv v ops (c\<lparr>cu_pool := start_workers uploadWorkers s,
    cu_back := cu_back c + (if pl_closed (cu_pool c) then {#} else unsettled (cu_pool c))\<rparr>)"
proof -
  let ?p = "cu_pool c" and ?q = "start_workers uploadWorkers s :: (_, stage, unit) pool"
  let ?r = "cu_back c + (if pl_closed ?p then {#} else unsettled ?p)"
  have "distinct (row_ids ops s)" using inv db by (simp add: courier_inv_def upload_inv_def row_ids_def)
  then have q: "upload_inv ops ?q" by (rule upload_inv_reachable [OF laws _ pool_start])
  have "\<forall>n \<in> set (open_tags ?p). pl_arrived ?p ! n \<in># ?r" using inv by (auto simp: courier_inv_def backed_def unsettled_def)
  moreover have "written_rows ops (pl_shared ?q) = written_rows ops (pl_shared ?p)"
    using db by (simp add: written_rows_def start_workers_def)
  ultimately have "safe ops ?r ?q b" if "safe ops (cu_back c) ?p b" for b using that unfolding safe_def by auto
  with q show ?thesis
    by (intro courier_inv_pool [OF inv]) (auto simp: refused_def backed_def start_workers_def uploadWorkers_def)
qed

lemma courier_inv_step:
  assumes laws: "amqp_laws (go_amqp opsG) v" "table_laws MsgId (lo_msgs opsL)" "members_apart opsL"
    and step: "courier_step opsG v opsL c c'" and inv: "courier_inv v opsL c"
  shows "courier_inv v opsL c'"
proof -
  let ?p = "cu_pool c"
  have up: "upload_inv opsL ?p" "refused ?p" "backed (cu_back c) ?p" "pl_workers ?p \<noteq> []" "upload_bound v (cu_gateway c)"
    and pool: "pool_inv ?p" "in_stage ?p"
    using inv by (simp_all add: courier_inv_def upload_inv_def)
  from step show ?thesis
  proof cases
    case (chats u doc)
    from chat_queue [OF laws(1) up(5), of u doc] show ?thesis
      unfolding chats by (intro courier_inv_gateway [OF inv]) auto
  next
    case (elsewhere gw)
    from courier_inv_gateway [OF inv elsewhere(2,3), of "cu_promised c"] show ?thesis by (simp add: elsewhere(1))
  next
    case delivers
    then show ?thesis using courier_inv_delivers [OF laws(2) inv] by simp
  next
    case (redelivers body)
    show ?thesis unfolding redelivers(1)
      by (rule courier_inv_pool [OF inv upload_inv_arrives [OF laws(2) up(1) redelivers(3)] refused_arrives [OF pool(1) up(2)]])
        (use redelivers up safe_arrives(2) [OF pool(1)] in \<open>auto simp: backed_def\<close>)
  next
    case (works p)
    have "length (pl_workers p) = length (pl_workers ?p)" using works(2) by (auto elim!: worker_stepE)
    with up(4) show ?thesis unfolding works(1)
      using upload_inv_worker [OF laws(2,3) works(2) up(1)] refused_worker [OF works(2) pool(2) up(2)]
        backed_worker [OF pool(1) works(2) up(3)] safe_worker [OF laws(2,3) up(1-3) works(2)]
      by (intro courier_inv_pool [OF inv]) auto
  next
    case (others s)
    let ?q = "?p\<lparr>pl_shared := s\<rparr>"
    have "upload_inv opsL ?q" by (rule upload_inv_event [OF laws(2) pool_event.outside [of "others_act opsL", OF others(2)] up(1)])
    moreover have "refused ?q" "backed (cu_back c) ?q" using up(2,3) by (simp_all add: refused_def backed_def open_tags_def)
    ultimately have "courier_inv v opsL (c\<lparr>cu_pool := ?q, cu_back := cu_back c\<rparr>)"
      using up(4) safe_stored [of opsL "cu_back c" ?p _ ?q] keeps_others [OF laws(2) others(2)]
      by (intro courier_inv_pool [OF inv]) (auto simp: open_tags_def)
    then show ?thesis by (simp add: others(1))
  next
    case loses_channel
    have "upload_inv opsL (?p\<lparr>pl_closed := True\<rparr>)" by (rule upload_inv_event [OF laws(2) pool_event.close_chan up(1)])
    then show ?thesis unfolding loses_channel(1)
      using up by (intro courier_inv_pool [OF inv]) (auto simp: refused_def backed_def open_tags_def unsettled_def safe_def)
  next
    case (restarts s)
    then show ?thesis using courier_inv_restarts [OF laws(2,3) inv] by simp
  qed
qed

lemma courier_inv_reachable:
  assumes laws: "amqp_laws (go_amqp opsG) v" "table_laws MsgId (lo_msgs opsL)" "members_apart opsL"
    and start: "upload_bound v gw" "distinct (row_ids opsL s)"
    and "courier_reachable opsG v opsL (start_courier gw s) c"
  shows "courier_inv v opsL c"
  using assms(6)
proof (induction rule: courier_reachable.induct)
  case courier_start
  have "upload_inv opsL (start_workers uploadWorkers s)" by (rule upload_inv_reachable [OF laws(2,3) start(2) pool_start])
  with start(1) show ?case
    by (auto simp: courier_inv_def start_courier_def refused_def backed_def start_workers_def uploadWorkers_def)
next
  case (courier_next c c')
  then show ?case using courier_inv_step [OF laws] by blast
qed

lemma rest_nothing_open:
  assumes "pool_inv p" and "pl_workers p \<noteq> []" and "\<nexists>p'. worker_step (upload_consumer ops) p p'"
  shows "open_tags p = []"
proof -
  have all: "fst ` set (pl_settled p) = {..<length (pl_arrived p)}" using upload.at_rest_all_settled [OF assms] by simp
  have apart: "set (open_tags p) \<inter> fst ` set (pl_settled p) = {}"
    using in_use_tags(1) [OF assms(1), unfolded open_in_use distinct_append set_map] by (elim conjE)
  have "set (open_tags p) \<subseteq> {..<length (pl_arrived p)}" using open_arrived [OF assms(1)] by auto
  with all apart show ?thesis by (metis inf.absorb_iff1 set_empty)
qed

section \<open>The promise\<close>


text \<open>The logic server dies with the message in hand.\<close>

lemma hi_acknowledged: "acknowledged mem_gateway 1 (Some hi_request) (gw_one []) = {hi_upload}"
  by (simp add: acknowledged_def hi_request_parses assign_ids_def GetNextSeqID_def GenerateMsgID_def
      publish_and_ack_def PublishUpload_def publish_on_def getPublishCh_def gw_one_def mem_gateway_def
      mem_redis_ops_def mr_fault_def mem_amqp_def mb_fault_def Let_def mr_counter_def upload_of_def conv_of_def hi_upload_def)


section \<open>The way to the receiver\<close>

text \<open>
  C14. A single chat finds its receiver. He is in the connection table of the only gateway he ever connected to,
  the route has been written and he has not been silent; the logic server, on the same Redis,
  acknowledges a message for him. Then it has published the message for this gateway's address and
  for no other; and when the gateway takes it from its queue, the message goes to the connection in
  the table, is acknowledged, and no other connection changes.
\<close>

theorem settled_user_reached:
  assumes "redis_laws rd" and "ttl_laws rd tt" and "fleet_reachable rd tt addr (start_fleet r0) F"
    and "\<forall>g'. (g', u) \<in> fl_seen F \<longrightarrow> g' = g" and "settled_in g u F"
    and "table_laws MsgId (lo_msgs ops)" and "lo_redis ops = rd" and "lg_redis l = fl_redis F"
    and "up_ChatType p = ChatTypeSingle" and "up_ReceiverID p = u"
    and "handleUploadDelivery ops (Some (marshal_upload p)) l = (l', Ack)" and "gw_hub b = fl_hubs F g"
  shows "lg_mq l' = fst (PublishDown (lo_amqp ops) (addr g) (marshal_down (single_down p)) (lg_mq l))
    \<and> (\<exists>i b' notice. map_of (Clients (fl_hubs F g)) (fmt_int64 u) = Some i
        \<and> handleMQDelivery opsB (Some (marshal_down (single_down p))) b = (b', Ack, notice)
        \<and> hub_heap (gw_hub b') = (hub_heap (gw_hub b))[i := SendMessage
            (Doc (marshalChatPush (up_MsgID p) (up_SeqID p) 0 (up_SenderID p) (up_Content p))) (hub_heap (gw_hub b) ! i)])"
proof -
  from fleet_route [OF assms(1-3) _ assms(5)] assms(4)
  have "rd_value rd (fl_redis F) (route_key u) = Some (addr g)" by (auto simp: reachable_at_def route_def)
  with acked_means_stored(2) [OF assms(6) _ assms(9,11), of "addr g"] assms(1,7,8,10)
  have "lg_mq l' = fst (PublishDown (lo_amqp ops) (addr g) (marshal_down (single_down p)) (lg_mq l))" by simp
  moreover obtain i where "map_of (Clients (fl_hubs F g)) (fmt_int64 u) = Some i"
    using assms(5) by (auto simp: settled_in_def online_def HubGet_def)
  ultimately show ?thesis
    using assms(9,10,12) by (auto simp: handleMQDelivery_def single_down_def marshalChatPush_def HubGet_def)
qed

definition ttl_logic :: "(message mem_db, ttl_mem, mem_broker, i64) logic_ops" where
  "ttl_logic =
     \<lparr>lo_msgs = lo_msgs mem_logic, lo_members = lo_members mem_logic, lo_redis = expiring_redis, lo_amqp = mem_amqp,
      lo_next = lo_next mem_logic\<rparr>"

definition ttl_state :: "ttl_mem \<Rightarrow> (message mem_db, ttl_mem, mem_broker, i64) logic" where
  "ttl_state r = \<lparr>lg_db = lg_db (mem_state [] []), lg_redis = r, lg_mq = lg_mq (mem_state [] []), lg_gen = 100\<rparr>"

lemma settled_user_reached_witness:
  "\<exists>F l'. fleet_run F \<and> handleUploadDelivery ttl_logic (Some (marshal_upload (hi_upload\<lparr>up_ReceiverID := 5\<rparr>))) (ttl_state (fl_redis F)) = (l', Ack)
     \<and> lg_mq l' = fst (PublishDown mem_amqp ''g0'' (marshal_down (single_down (hi_upload\<lparr>up_ReceiverID := 5\<rparr>))) (lg_mq (mem_state [] [])))"
proof -
  let ?p = "hi_upload\<lparr>up_ReceiverID := 5\<rparr>"
  let ?F = "joins 0 5 (start_fleet \<lparr>tm_now = 0, tm_keys = \<lambda>_. None, tm_counters = \<lambda>_. 0\<rparr>)"
  let ?b = "\<lparr>gw_hub = fl_hubs ?F 0, gw_mq = gw_mq (gw_one []), gw_gen = 0 :: i64, gw_logic = ()\<rparr>"
  have run: "fleet_run ?F" by (intro joins_run fleet_start)
  have seen: "\<forall>g'. (g', 5) \<in> fl_seen ?F \<longrightarrow> g' = 0" and settled: "settled_in 0 5 ?F"
    by (simp_all add: fleet_defs settled_in_def)
  have laws: "table_laws MsgId (lo_msgs ttl_logic)" using mem_logic_laws(1) by (simp add: ttl_logic_def)
  have kind: "up_ChatType ?p = ChatTypeSingle" "up_ReceiverID ?p = 5" by (simp_all add: hi_upload_def)
  obtain l' where l': "handleUploadDelivery ttl_logic (Some (marshal_upload ?p)) (ttl_state (fl_redis ?F)) = (l', Ack)"
  proof -
    have "snd (handleUploadDelivery ttl_logic (Some (marshal_upload ?p)) (ttl_state (fl_redis ?F))) = Ack"
      by (simp add: hi_stored_simps ttl_logic_def ttl_state_def expiring_redis_def split: option.split)
    then show thesis using that by (metis prod.collapse)
  qed
  from settled_user_reached [OF expiring_redis_laws expiring_ttl_laws run seen settled laws _ _ kind l', of ?b]
  show ?thesis using run l' by (intro exI [of _ ?F] exI [of _ l']) (simp add: ttl_logic_def ttl_state_def two_addr_def)
qed

end
